(* ===== verification/Prelude.thy ===== *)
theory Prelude
  imports Main "HOL-Library.Word" "HOL-Library.AList" "HOL-Library.List_Lexorder"
    "HOL-Library.Multiset" "HOL-Library.Product_Lexorder"
begin

text \<open>
  Shared vocabulary of the development: the machine integers of the Rust sources with their
  saturating and checked arithmetic, fixed-size byte arrays and their byte encodings, results,
  hash maps as association lists, and the list lemmas the components share.
\<close>

section \<open>Machine integers\<close>

text \<open>
  An unsigned integer of width \<open>w\<close> is a \<open>w word\<close>. The type \<open>U256\<close> of the
  crate \<open>primitive_types\<close> is a \<open>256 word\<close>. A byte array \<open>[u8; 32]\<close> (a hash, an
  \<open>Address\<close>, a public key) is also a \<open>256 word\<close>, read big-endian: the order of the words
  is the lexicographic order of the arrays, \<open>0\<close> is \<open>[0u8; 32]\<close>, and \<open>be_bytes 32\<close>
  is the array itself. A \<open>[u8; 64]\<close> signature is a \<open>512 word\<close>. Indices and lengths
  (\<open>usize\<close>) are natural numbers.
\<close>

type_synonym u8 = "8 word"
type_synonym u16 = "16 word"
type_synonym u32 = "32 word"
type_synonym u64 = "64 word"
type_synonym u256 = "256 word"
type_synonym hash32 = "256 word"
type_synonym address = "256 word"
type_synonym sig64 = "512 word"
type_synonym bytes = "u8 list"

named_theorems unat_ops "natural-number readings of the machine operations"

definition sat_add :: "'a::len word \<Rightarrow> 'a word \<Rightarrow> 'a word" where
  "sat_add a b = (if unat a + unat b < 2 ^ LENGTH('a) then a + b else - 1)"

definition sat_sub :: "'a::len word \<Rightarrow> 'a word \<Rightarrow> 'a word" where
  "sat_sub a b = (if b \<le> a then a - b else 0)"

definition sat_mul :: "'a::len word \<Rightarrow> 'a word \<Rightarrow> 'a word" where
  "sat_mul a b = (if unat a * unat b < 2 ^ LENGTH('a) then a * b else - 1)"

definition checked_add :: "'a::len word \<Rightarrow> 'a word \<Rightarrow> 'a word option" where
  "checked_add a b = (if unat a + unat b < 2 ^ LENGTH('a) then Some (a + b) else None)"

definition checked_sub :: "'a::len word \<Rightarrow> 'a word \<Rightarrow> 'a word option" where
  "checked_sub a b = (if b \<le> a then Some (a - b) else None)"

definition checked_mul :: "'a::len word \<Rightarrow> 'a word \<Rightarrow> 'a word option" where
  "checked_mul a b = (if unat a * unat b < 2 ^ LENGTH('a) then Some (a * b) else None)"

lemma unat_max_word [unat_ops]: "unat (- 1 :: 'a::len word) = 2 ^ LENGTH('a) - 1"
  by (simp add: unsigned_minus_1_eq_mask mask_eq_exp_minus_1)

lemma unat_bound: "unat (a :: 'a::len word) < 2 ^ LENGTH('a)"
  by (rule unsigned_less)

lemma unat_le_max: "unat (a :: 'a::len word) \<le> 2 ^ LENGTH('a) - 1"
  using unat_bound [of a] by linarith

lemma u64_le_max: "unat (a :: u64) \<le> 18446744073709551615"
  using unat_le_max [of a] by simp

lemma unat_add_exact:
  "unat a + unat (b :: 'a::len word) < 2 ^ LENGTH('a) \<Longrightarrow> unat (a + b) = unat a + unat b"
  by (simp add: unat_add_lem)

lemma unat_mul_exact:
  "unat a * unat (b :: 'a::len word) < 2 ^ LENGTH('a) \<Longrightarrow> unat (a * b) = unat a * unat b"
  by (simp add: unat_mult_lem)

lemma unat_sub_exact: "(b :: 'a::len word) \<le> a \<Longrightarrow> unat (a - b) = unat a - unat b"
  by (rule unat_sub)

lemma unat_sat_add [unat_ops]:
  "unat (sat_add a (b :: 'a::len word)) = min (unat a + unat b) (2 ^ LENGTH('a) - 1)"
  by (auto simp: sat_add_def unat_add_exact unat_max_word)

lemma unat_sat_sub [unat_ops]: "unat (sat_sub a (b :: 'a::len word)) = unat a - unat b"
  by (auto simp: sat_sub_def unat_sub_exact word_le_nat_alt)

lemma unat_sat_mul [unat_ops]:
  "unat (sat_mul a (b :: 'a::len word)) = min (unat a * unat b) (2 ^ LENGTH('a) - 1)"
  by (auto simp: sat_mul_def unat_mul_exact unat_max_word)

lemmas word_nat_order = word_le_nat_alt word_less_nat_alt

lemma word_unat_eqI: "unat a = unat b \<Longrightarrow> a = b"
  by (simp add: word_unat_eq_iff)

lemma checked_add_SomeD:
  "checked_add a (b :: 'a::len word) = Some c \<Longrightarrow> unat c = unat a + unat b"
  by (auto simp: checked_add_def unat_add_exact split: if_splits)

lemma checked_sub_SomeD:
  "checked_sub a (b :: 'a::len word) = Some c \<Longrightarrow> unat b \<le> unat a \<and> unat c = unat a - unat b"
  by (auto simp: checked_sub_def unat_sub_exact word_le_nat_alt split: if_splits)

lemma checked_mul_SomeD:
  "checked_mul a (b :: 'a::len word) = Some c \<Longrightarrow> unat c = unat a * unat b"
  by (auto simp: checked_mul_def unat_mul_exact split: if_splits)

lemma checked_add_None_iff:
  "checked_add a (b :: 'a::len word) = None \<longleftrightarrow> 2 ^ LENGTH('a) \<le> unat a + unat b"
  by (auto simp: checked_add_def)

lemma checked_sub_None_iff: "checked_sub a (b :: 'a::len word) = None \<longleftrightarrow> a < b"
  by (auto simp: checked_sub_def)

text \<open>Executable forms on binary integers.\<close>

lemma unat_sum_less_code:
  "unat a + unat (b :: 'a::len word) < 2 ^ LENGTH('a) \<longleftrightarrow> uint a + uint b < 2 ^ LENGTH('a)"
  using of_nat_less_iff [where ?'a = int, of "unat a + unat b" "2 ^ LENGTH('a)"] by simp

lemma unat_prod_less_code:
  "unat a * unat (b :: 'a::len word) < 2 ^ LENGTH('a) \<longleftrightarrow> uint a * uint b < 2 ^ LENGTH('a)"
  using of_nat_less_iff [where ?'a = int, of "unat a * unat b" "2 ^ LENGTH('a)"] by simp

lemmas word_arith_code [code] =
  sat_add_def [unfolded unat_sum_less_code] sat_mul_def [unfolded unat_prod_less_code]
  checked_add_def [unfolded unat_sum_less_code] checked_mul_def [unfolded unat_prod_less_code]

text \<open>\<open>U256::from(x)\<close> of a 64-bit value.\<close>

abbreviation u256_of_u64 :: "u64 \<Rightarrow> u256" where
  "u256_of_u64 x \<equiv> ucast x"

lemma unat_u256_of_u64 [unat_ops]: "unat (ucast (x :: u64) :: u256) = unat x"
  by transfer simp

lemma card_word_interval:
  assumes "hi \<le> 2 ^ LENGTH('a)"
  shows "card {r :: 'a::len word. lo \<le> unat r \<and> unat r < hi} = hi - lo"
proof -
  have "unat ` {r :: 'a word. lo \<le> unat r \<and> unat r < hi} = {lo..<hi}"
  proof (intro set_eqI iffI)
    fix n assume "n \<in> {lo..<hi}"
    moreover from this have "unat (word_of_nat n :: 'a word) = n"
      using assms by (simp add: unsigned_of_nat take_bit_nat_eq_self)
    ultimately show "n \<in> unat ` {r :: 'a word. lo \<le> unat r \<and> unat r < hi}"
      by (intro image_eqI [of _ _ "word_of_nat n"]) auto
  qed auto
  moreover have "inj_on unat {r :: 'a word. lo \<le> unat r \<and> unat r < hi}"
    by (intro inj_onI) (simp add: word_unat_eq_iff)
  ultimately show ?thesis
    by (metis card_atLeastLessThan card_image)
qed

section \<open>Byte encodings\<close>

fun le_bytes :: "nat \<Rightarrow> 'a::len word \<Rightarrow> bytes" where
  "le_bytes 0 w = []"
| "le_bytes (Suc n) w = ucast w # le_bytes n (drop_bit 8 w)"

definition be_bytes :: "nat \<Rightarrow> 'a::len word \<Rightarrow> bytes" where
  "be_bytes n w = rev (le_bytes n w)"

fun nat_of_le :: "bytes \<Rightarrow> nat" where
  "nat_of_le [] = 0"
| "nat_of_le (b # bs) = unat b + 256 * nat_of_le bs"

definition of_le_bytes :: "bytes \<Rightarrow> 'a::len word" where
  "of_le_bytes bs = word_of_nat (nat_of_le bs)"

definition of_be_bytes :: "bytes \<Rightarrow> 'a::len word" where
  "of_be_bytes bs = of_le_bytes (rev bs)"

lemma of_le_bytes_code [code]:
  "of_le_bytes [] = (0 :: 'a::len word)"
  "of_le_bytes (b # bs) = (ucast b + 256 * of_le_bytes bs :: 'a::len word)"
  by (simp_all add: of_le_bytes_def unsigned_of_nat)

lemma length_le_bytes [simp]: "length (le_bytes n w) = n"
  by (induction n w rule: le_bytes.induct) auto

lemma length_be_bytes [simp]: "length (be_bytes n w) = n"
  by (simp add: be_bytes_def)

lemma unat_ucast_byte: "unat (ucast (w :: 'a::len word) :: u8) = unat w mod 256"
  by transfer (simp add: nat_mod_distrib take_bit_eq_mod)

lemma nat_of_le_bytes: "nat_of_le (le_bytes n w) = unat w mod 256 ^ n"
proof (induction n arbitrary: w)
  case 0
  then show ?case by simp
next
  case (Suc n)
  have d: "unat (drop_bit 8 w) = unat w div 256"
    by (subst unat_drop_bit_eq) (simp add: drop_bit_eq_div)
  have "nat_of_le (le_bytes (Suc n) w) = unat w mod 256 + 256 * (unat w div 256 mod 256 ^ n)"
    by (simp add: Suc.IH d unat_ucast_byte)
  then show ?case
    by (simp add: mod_mult2_eq)
qed

lemma of_le_bytes_le_bytes:
  assumes "LENGTH('a) \<le> 8 * n"
  shows "of_le_bytes (le_bytes n w) = (w :: 'a::len word)"
proof -
  have "(2::nat) ^ LENGTH('a) \<le> 2 ^ (8 * n)"
    using assms by (intro power_increasing) auto
  also have "(2::nat) ^ (8 * n) = 256 ^ n"
    by (simp add: power_mult)
  finally have "unat w < 256 ^ n"
    using unat_bound [of w] by linarith
  then show ?thesis
    by (simp add: of_le_bytes_def nat_of_le_bytes)
qed

lemma of_be_bytes_be_bytes:
  "LENGTH('a) \<le> 8 * n \<Longrightarrow> of_be_bytes (be_bytes n w) = (w :: 'a::len word)"
  by (simp add: of_be_bytes_def be_bytes_def of_le_bytes_le_bytes)

lemma le_bytes_inj:
  "LENGTH('a) \<le> 8 * n \<Longrightarrow> le_bytes n w = le_bytes n v \<Longrightarrow> w = (v :: 'a::len word)"
  by (metis of_le_bytes_le_bytes)

lemma be_bytes_inj:
  "LENGTH('a) \<le> 8 * n \<Longrightarrow> be_bytes n w = be_bytes n v \<Longrightarrow> w = (v :: 'a::len word)"
  by (metis of_be_bytes_be_bytes)

lemma be32_inj [simp]: "be_bytes 32 (a :: 256 word) = be_bytes 32 b \<longleftrightarrow> a = b"
  using be_bytes_inj [of 32 a b] by auto

lemma le8_inj [simp]: "le_bytes 8 (a :: u64) = le_bytes 8 b \<longleftrightarrow> a = b"
  using le_bytes_inj [of 8 a b] by auto

lemma be8_inj [simp]: "be_bytes 8 (a :: u64) = be_bytes 8 b \<longleftrightarrow> a = b"
  using be_bytes_inj [of 8 a b] by auto

section \<open>Results\<close>

datatype ('a, 'e) result = Ok 'a | Err 'e

fun is_ok :: "('a, 'e) result \<Rightarrow> bool" where
  "is_ok (Ok _) = True"
| "is_ok (Err _) = False"

fun ok_of :: "('a, 'e) result \<Rightarrow> 'a option" where
  "ok_of (Ok x) = Some x"
| "ok_of (Err _) = None"

lemma is_ok_iff: "is_ok r \<longleftrightarrow> (\<exists>x. r = Ok x)"
  by (cases r) auto

text \<open>The operator \<open>?\<close>, a guard that returns early, and \<open>map_err\<close>.\<close>

fun then_ok :: "('a, 'e) result \<Rightarrow> ('a \<Rightarrow> ('b, 'e) result) \<Rightarrow> ('b, 'e) result" where
  "then_ok (Ok x) f = f x"
| "then_ok (Err e) f = Err e"

definition ensure :: "bool \<Rightarrow> 'e \<Rightarrow> (unit, 'e) result" where
  "ensure b e = (if b then Ok () else Err e)"

fun map_err :: "('e \<Rightarrow> 'f) \<Rightarrow> ('a, 'e) result \<Rightarrow> ('a, 'f) result" where
  "map_err f (Ok x) = Ok x"
| "map_err f (Err e) = Err (f e)"

fun ok_or :: "'a option \<Rightarrow> 'e \<Rightarrow> ('a, 'e) result" where
  "ok_or (Some x) e = Ok x"
| "ok_or None e = Err e"

lemma then_ok_Ok_iff [simp]: "then_ok r f = Ok y \<longleftrightarrow> (\<exists>x. r = Ok x \<and> f x = Ok y)"
  by (cases r) auto

lemma ensure_Ok_iff [simp]: "ensure b e = Ok u \<longleftrightarrow> b"
  by (simp add: ensure_def)

lemma ensure_Err_iff [simp]: "ensure b e = Err d \<longleftrightarrow> \<not> b \<and> e = d"
  by (simp add: ensure_def)

lemma ensure_simps [simp]: "ensure True e = Ok ()" "ensure False e = Err e"
  by (simp_all add: ensure_def)

lemma map_err_Ok_iff [simp]: "map_err f r = Ok x \<longleftrightarrow> r = Ok x"
  by (cases r) auto

lemma ok_or_Ok_iff [simp]: "ok_or r e = Ok x \<longleftrightarrow> r = Some x"
  by (cases r) auto

section \<open>Cryptography\<close>

text \<open>
  The primitives of the crates \<open>sha2\<close>, \<open>sha3\<close>, \<open>ed25519_dalek\<close> and \<open>ark_bls12_381\<close> are
  parameters: every definition that uses one takes this record. \<open>cx_vk_ok\<close> says whether
  \<open>VerifyingKey::from_bytes\<close> accepts a key, \<open>cx_ed_verify\<close> is \<open>verify_strict\<close>,
  \<open>cx_pop_ok\<close> the pairing check of a proof of possession, and \<open>cx_bls_agg pks sigs msg\<close>
  aggregates public keys and signatures and verifies the aggregate on one message; \<open>None\<close> is a
  decoding error.
\<close>

record crypto =
  cx_sha256 :: "bytes \<Rightarrow> hash32"
  cx_keccak :: "bytes \<Rightarrow> hash32"
  cx_vk_ok :: "hash32 \<Rightarrow> bool"
  cx_ed_verify :: "hash32 \<Rightarrow> bytes \<Rightarrow> sig64 \<Rightarrow> bool"
  cx_pop_ok :: "bytes \<Rightarrow> bytes \<Rightarrow> bool"
  cx_bls_agg :: "bytes list \<Rightarrow> bytes list \<Rightarrow> bytes \<Rightarrow> bool option"

text \<open>Text constants are ASCII strings; their bytes are the character codes.\<close>

definition ascii :: "string \<Rightarrow> bytes" where
  "ascii s = map of_char s"

definition domain_hash :: "crypto \<Rightarrow> string \<Rightarrow> bytes \<Rightarrow> hash32" where
  "domain_hash cx domain data =
     cx_sha256 cx (le_bytes 4 (word_of_nat (length domain) :: u32) @ ascii domain @ data)"

text \<open>A concrete instance for examples: additive checksums that accept every signature.\<close>

definition toy_crypto :: crypto where
  "toy_crypto = \<lparr>cx_sha256 = (\<lambda>bs. of_be_bytes bs + 1), cx_keccak = (\<lambda>bs. of_be_bytes bs + 2),
     cx_vk_ok = (\<lambda>_. True), cx_ed_verify = (\<lambda>_ _ _. True), cx_pop_ok = (\<lambda>_ _. True),
     cx_bls_agg = (\<lambda>_ _ _. Some True)\<rparr>"

section \<open>Hash maps\<close>

text \<open>
  A \<open>HashMap\<close> that the code iterates over is an association list with distinct keys; the
  order of the list is the iteration order, which the code may not rely on, so every statement
  about it is for all lists. Maps the code only looks up in are functions into \<open>option\<close>.
\<close>

type_synonym ('k, 'v) hashmap = "('k \<times> 'v) list"

abbreviation hm_get :: "('k, 'v) hashmap \<Rightarrow> 'k \<Rightarrow> 'v option" where
  "hm_get m k \<equiv> map_of m k"

abbreviation hm_insert :: "'k \<Rightarrow> 'v \<Rightarrow> ('k, 'v) hashmap \<Rightarrow> ('k, 'v) hashmap" where
  "hm_insert k v m \<equiv> AList.update k v m"

abbreviation hm_remove :: "'k \<Rightarrow> ('k, 'v) hashmap \<Rightarrow> ('k, 'v) hashmap" where
  "hm_remove k m \<equiv> AList.delete k m"

abbreviation hm_wf :: "('k, 'v) hashmap \<Rightarrow> bool" where
  "hm_wf m \<equiv> distinct (map fst m)"

lemma hm_get_insert [simp]: "hm_get (hm_insert k v m) = (hm_get m)(k \<mapsto> v)"
  by (rule update_conv')

lemma hm_get_remove [simp]: "hm_get (hm_remove k m) = (hm_get m)(k := None)"
  by (rule delete_conv')

lemma hm_wf_insert [simp]: "hm_wf m \<Longrightarrow> hm_wf (hm_insert k v m)"
  by (rule distinct_update)

lemma hm_wf_remove [simp]: "hm_wf m \<Longrightarrow> hm_wf (hm_remove k m)"
  by (rule distinct_delete)

lemma hm_wf_filter: "hm_wf m \<Longrightarrow> hm_wf (filter P m)"
  by (simp add: distinct_map_filter)

lemma hm_get_Some_in: "hm_get m k = Some v \<Longrightarrow> (k, v) \<in> set m"
  by (rule map_of_SomeD)

lemma hm_in_get: "hm_wf m \<Longrightarrow> (k, v) \<in> set m \<longleftrightarrow> hm_get m k = Some v"
  by (auto intro: map_of_is_SomeI dest: map_of_SomeD)

text \<open>The sum of a measure over the values, and how the updates change it.\<close>

definition hm_sum :: "('v \<Rightarrow> nat) \<Rightarrow> ('k, 'v) hashmap \<Rightarrow> nat" where
  "hm_sum f m = sum_list (map (f \<circ> snd) m)"

lemma hm_sum_Nil [simp]: "hm_sum f [] = 0"
  by (simp add: hm_sum_def)

lemma hm_sum_Cons [simp]: "hm_sum f ((k, v) # m) = f v + hm_sum f m"
  by (simp add: hm_sum_def)

lemma hm_sum_insert_new: "hm_get m k = None \<Longrightarrow> hm_sum f (hm_insert k v m) = hm_sum f m + f v"
  by (induction m) (auto split: if_splits)

lemma hm_sum_insert_old:
  "hm_get m k = Some w \<Longrightarrow> hm_sum f (hm_insert k v m) + f w = hm_sum f m + f v"
  by (induction m) (auto split: if_splits)

lemma hm_insert_append: "hm_get m k = None \<Longrightarrow> hm_insert k v m = m @ [(k, v)]"
  by (induction m) (auto split: if_splits)

lemma hm_remove_absent: "hm_get m k = None \<Longrightarrow> hm_remove k m = m"
  by (induction m) (auto split: if_splits simp: AList.delete_eq)

lemma hm_sum_remove:
  "hm_wf m \<Longrightarrow> hm_get m k = Some w \<Longrightarrow> hm_sum f (hm_remove k m) + f w = hm_sum f m"
proof (induction m)
  case Nil
  then show ?case by simp
next
  case (Cons p m)
  obtain k' v' where p: "p = (k', v')" by (cases p)
  show ?case
  proof (cases "k' = k")
    case True
    with Cons.prems p have "hm_get m k = None"
      by (auto simp: map_of_eq_None_iff)
    then have "hm_remove k m = m" by (rule hm_remove_absent)
    with True Cons.prems p show ?thesis by simp
  next
    case False
    with Cons p show ?thesis by (simp add: add.assoc)
  qed
qed

lemma hm_sum_ge: "hm_get m k = Some w \<Longrightarrow> f w \<le> hm_sum f m"
  by (induction m) (auto split: if_splits)

section \<open>Lists\<close>

lemma find_Some_iff_set: "List.find P xs = Some x \<Longrightarrow> x \<in> set xs \<and> P x"
  by (auto simp: find_Some_iff in_set_conv_nth)

lemma sort_key_perm:
  "mset xs = mset ys \<Longrightarrow> inj_on f (set xs) \<Longrightarrow> sort_key f xs = sort_key f ys"
  by (rule sort_key_inj_key_eq) simp_all

end
