(* ===== verification/Vesting.thy ===== *)
theory Vesting
  imports Prelude
begin

text \<open>
  Vesting schedules (\<open>crates/types/src/vesting.rs\<close>): the amount vested at a time, what may be
  released, and the release operation. The operator \<open>+\<close> of \<open>U256\<close> panics on overflow;
  a panic is \<open>None\<close>, and the lemmas show that it never happens.
\<close>

datatype vesting_error =
    NoTokensReleasable
  | ReleasedExceedsTotal
  | CliffExceedsDuration
  | InvalidTotal
  | InvalidSchedule

record vesting_schedule =
  total_wei :: u256
  start_ts :: u64
  cliff_secs :: u64
  duration_secs :: u64
  released_wei :: u256

definition vesting_validate :: "vesting_schedule \<Rightarrow> (unit, vesting_error) result" where
  "vesting_validate s =
     (if total_wei s < released_wei s then Err ReleasedExceedsTotal
      else if total_wei s = 0 \<and> released_wei s = 0 \<and> duration_secs s = 0 \<and> cliff_secs s = 0
        then Ok ()
      else if total_wei s = 0 \<and> released_wei s = 0 \<and> (0 < duration_secs s \<or> 0 < cliff_secs s)
        then Err InvalidTotal
      else if 0 < duration_secs s \<and> duration_secs s < cliff_secs s then Err CliffExceedsDuration
      else if duration_secs s = 0 \<and> 0 < cliff_secs s
           \<and> sat_add (start_ts s) (cliff_secs s) < start_ts s then Err InvalidSchedule
      else if total_wei s < released_wei s then Err ReleasedExceedsTotal
      else Ok ())"

definition new_unchecked :: "u256 \<Rightarrow> u64 \<Rightarrow> u64 \<Rightarrow> u64 \<Rightarrow> u256 \<Rightarrow> vesting_schedule" where
  "new_unchecked total_amt start cliff duration released =
     \<lparr>total_wei = total_amt, start_ts = start, cliff_secs = cliff, duration_secs = duration,
      released_wei = released\<rparr>"

definition vesting_new ::
  "u256 \<Rightarrow> u64 \<Rightarrow> u64 \<Rightarrow> u64 \<Rightarrow> (vesting_schedule, vesting_error) result" where
  "vesting_new total_amt start cliff duration =
     (let s = new_unchecked total_amt start cliff duration 0 in
      case vesting_validate s of
        Err e \<Rightarrow> Err e
      | Ok _ \<Rightarrow> (if total_amt = 0 then Err InvalidTotal else Ok s))"

definition vested_amount :: "vesting_schedule \<Rightarrow> u64 \<Rightarrow> u256 option" where
  "vested_amount s now =
     (if now < sat_add (start_ts s) (cliff_secs s) then Some 0
      else if duration_secs s = 0 \<or> sat_add (start_ts s) (duration_secs s) \<le> now
        then Some (total_wei s)
      else
        (let elapsed = u256_of_u64 (sat_sub now (start_ts s));
             duration = u256_of_u64 (duration_secs s) in
         if duration = 0 then Some (total_wei s)
         else case checked_mul (total_wei s) elapsed of
             Some product \<Rightarrow> Some (product div duration)
           | None \<Rightarrow> checked_add (sat_mul (total_wei s div duration) elapsed)
                       (sat_mul (total_wei s mod duration) elapsed div duration)))"

definition locked_amount :: "vesting_schedule \<Rightarrow> u64 \<Rightarrow> u256 option" where
  "locked_amount s now = map_option (sat_sub (total_wei s)) (vested_amount s now)"

definition releasable_amount :: "vesting_schedule \<Rightarrow> u64 \<Rightarrow> u256 option" where
  "releasable_amount s now =
     map_option (\<lambda>v. sat_sub v (released_wei s)) (vested_amount s now)"

definition vesting_release ::
  "vesting_schedule \<Rightarrow> u64 \<Rightarrow> (vesting_schedule \<times> (u256, vesting_error) result) option" where
  "vesting_release s now =
     (case vesting_validate s of
        Err e \<Rightarrow> Some (s, Err e)
      | Ok _ \<Rightarrow>
          (case releasable_amount s now of
             None \<Rightarrow> None
           | Some amount \<Rightarrow>
               (if amount = 0 then Some (s, Err NoTokensReleasable)
                else case checked_add (released_wei s) amount of
                    None \<Rightarrow> Some (s, Err ReleasedExceedsTotal)
                  | Some next \<Rightarrow>
                      (if total_wei s < next then Some (s, Err ReleasedExceedsTotal)
                       else Some (s\<lparr>released_wei := next\<rparr>, Ok amount)))))"

text \<open>A client that calls \<open>release\<close> at a list of times, and the total it is paid.\<close>

fun release_run :: "vesting_schedule \<Rightarrow> u64 list \<Rightarrow> (vesting_schedule \<times> nat) option" where
  "release_run s [] = Some (s, 0)"
| "release_run s (t # ts) =
     (case vesting_release s t of
        None \<Rightarrow> None
      | Some (s', r) \<Rightarrow>
          map_option (\<lambda>(s'', paid). (s'', (case r of Ok a \<Rightarrow> unat a + paid | Err _ \<Rightarrow> paid)))
            (release_run s' ts))"

text \<open>The schedule on natural numbers, without the two ways of computing the quotient.\<close>

definition vested_spec :: "vesting_schedule \<Rightarrow> u64 \<Rightarrow> nat" where
  "vested_spec s now =
     (if now < sat_add (start_ts s) (cliff_secs s) then 0
      else if duration_secs s = 0 \<or> sat_add (start_ts s) (duration_secs s) \<le> now
        then unat (total_wei s)
      else unat (total_wei s) * (unat now - unat (start_ts s)) div unat (duration_secs s))"

section \<open>The vested amount\<close>

lemma div_mod_split_mult: "(t div d) * e + (t mod d) * e div d = (t * e) div (d :: nat)"
proof (cases "d = 0")
  case False
  have "t * e = (t mod d) * e + d * ((t div d) * e)"
    by (metis add.commute distrib_right div_mult_mod_eq mult.assoc mult.commute)
  with False show ?thesis
    by (simp add: add.commute)
qed simp

lemma linear_le_total: "e \<le> d \<Longrightarrow> (t * e) div d \<le> (t :: nat)"
  using div_le_mono [of "t * e" "t * d" d] by (cases "d = 0") simp_all

lemma elapsed_less_duration:
  assumes "\<not> sat_add st du \<le> now" "du \<noteq> (0 :: u64)"
  shows "unat now - unat st < unat du"
proof -
  have "unat now < unat st + unat du"
    using assms by (auto simp: word_nat_order unat_ops)
  moreover have "0 < unat du"
    using assms by (simp add: unat_gt_0)
  ultimately show ?thesis by linarith
qed

lemma vested_spec_le_total: "vested_spec s now \<le> unat (total_wei s)"
  using elapsed_less_duration [of "start_ts s" "duration_secs s" now]
  by (auto simp: vested_spec_def intro!: linear_le_total)

lemma vested_overflow_branch:
  fixes t e d :: u256
  assumes ed: "unat e < unat d" and d: "unat d < 2 ^ 64"
  shows "\<exists>v. checked_add (sat_mul (t div d) e) (sat_mul (t mod d) e div d) = Some v
             \<and> unat v = unat t * unat e div unat d"
proof -
  let ?q = "unat t div unat d * unat e" and ?r = "unat t mod unat d * unat e"
  have split: "?q + ?r div unat d = unat t * unat e div unat d"
    by (rule div_mod_split_mult)
  have "unat t * unat e div unat d \<le> unat t"
    using ed by (intro linear_le_total) simp
  then have sum: "?q + ?r div unat d < 2 ^ 256"
    using split unat_bound [of t] by simp
  have "?r \<le> 2 ^ 64 * 2 ^ 64"
    using ed d by (intro mult_le_mono) (auto intro: order_trans [OF mod_le_divisor])
  then have r: "?r < 2 ^ 256" by simp
  have q: "?q < 2 ^ 256" using sum by simp
  have "unat (sat_mul (t div d) e) = ?q"
    using q by (simp add: unat_ops unat_div)
  moreover have "unat (sat_mul (t mod d) e div d) = ?r div unat d"
    using r by (simp add: unat_ops unat_div unat_mod)
  ultimately show ?thesis
    using sum split by (simp add: checked_add_def unat_add_exact)
qed

lemma vested_amount_exact:
  "\<exists>v. vested_amount s now = Some v \<and> unat v = vested_spec s now"
proof (cases "now < sat_add (start_ts s) (cliff_secs s) \<or> duration_secs s = 0
              \<or> sat_add (start_ts s) (duration_secs s) \<le> now")
  case True
  then show ?thesis
    by (auto simp: vested_amount_def vested_spec_def)
next
  case False
  define e where "e = u256_of_u64 (sat_sub now (start_ts s))"
  define d where "d = u256_of_u64 (duration_secs s)"
  have e: "unat e = unat now - unat (start_ts s)" and d: "unat d = unat (duration_secs s)"
    by (simp_all add: e_def d_def unat_ops)
  have ed: "unat e < unat d"
    using False elapsed_less_duration e d by auto
  have d64: "unat d < 2 ^ 64"
    using d unat_bound [of "duration_secs s"] by simp
  have d0: "d \<noteq> 0" using ed by auto
  have unf: "vested_amount s now = (case checked_mul (total_wei s) e of
               Some product \<Rightarrow> Some (product div d)
             | None \<Rightarrow> checked_add (sat_mul (total_wei s div d) e)
                         (sat_mul (total_wei s mod d) e div d))"
    using False d0 by (simp add: vested_amount_def Let_def flip: e_def d_def)
  have spec: "vested_spec s now = unat (total_wei s) * unat e div unat d"
    using False by (auto simp: vested_spec_def e d)
  show ?thesis
    using vested_overflow_branch [OF ed d64, of "total_wei s"]
    by (auto simp: unf spec unat_div dest: checked_mul_SomeD split: option.split)
qed

lemma vested_spec_mono:
  assumes "now \<le> later"
  shows "vested_spec s now \<le> vested_spec s later"
proof -
  have "unat (total_wei s) * (unat now - unat (start_ts s)) div unat (duration_secs s)
        \<le> unat (total_wei s) * (unat later - unat (start_ts s)) div unat (duration_secs s)"
    using assms by (intro div_le_mono mult_le_mono2 diff_le_mono) (simp add: word_le_nat_alt)
  then show ?thesis
    using assms vested_spec_le_total [of s now]
    by (auto simp: vested_spec_def)
qed

section \<open>Releases\<close>

lemma vested_spec_released [simp]: "vested_spec (s\<lparr>released_wei := r\<rparr>) = vested_spec s"
  by (rule ext) (simp add: vested_spec_def)

lemma vesting_validate_released:
  "vesting_validate s = Ok () \<Longrightarrow> total_wei s \<noteq> 0 \<Longrightarrow> r \<le> total_wei s
     \<Longrightarrow> vesting_validate (s\<lparr>released_wei := r\<rparr>) = Ok ()"
  by (auto simp: vesting_validate_def split: if_splits)

lemma vesting_validate_bound: "vesting_validate s = Ok () \<Longrightarrow> released_wei s \<le> total_wei s"
  by (auto simp: vesting_validate_def split: if_splits)

text \<open>One release pays exactly what is vested and not yet released.\<close>

lemma vesting_release_step:
  assumes "vesting_validate s = Ok ()"
  shows "\<exists>s' r. vesting_release s now = Some (s', r)
     \<and> vesting_validate s' = Ok ()
     \<and> (\<exists>w. s' = s\<lparr>released_wei := w\<rparr>)
     \<and> unat (released_wei s') = max (unat (released_wei s)) (vested_spec s now)
     \<and> (case r of Ok a \<Rightarrow> unat a | Err _ \<Rightarrow> 0) = unat (released_wei s') - unat (released_wei s)"
proof -
  obtain v where v: "vested_amount s now = Some v" "unat v = vested_spec s now"
    using vested_amount_exact by blast
  have vt: "vested_spec s now \<le> unat (total_wei s)"
    by (rule vested_spec_le_total)
  define a where "a = sat_sub v (released_wei s)"
  have a: "unat a = vested_spec s now - unat (released_wei s)"
    by (simp add: a_def unat_ops v)
  have rel: "releasable_amount s now = Some a"
    by (simp add: releasable_amount_def v a_def)
  show ?thesis
  proof (cases "a = 0")
    case True
    then have "vested_spec s now \<le> unat (released_wei s)"
      using a by simp
    with True assms rel show ?thesis
      by (intro exI [of _ s] exI [of _ "Err NoTokensReleasable"])
         (auto simp: vesting_release_def intro: exI [of _ "released_wei s"])
  next
    case False
    then have gt: "unat (released_wei s) < vested_spec s now"
      using a by (metis unat_eq_0 zero_less_diff zero_less_iff_neq_zero)
    then have sum: "unat (released_wei s) + unat a = vested_spec s now"
      using a by simp
    then have add: "checked_add (released_wei s) a = Some (released_wei s + a)"
      and un: "unat (released_wei s + a) = vested_spec s now"
      using vt unat_bound [of "total_wei s"] by (simp_all add: checked_add_def unat_add_exact)
    have le: "released_wei s + a \<le> total_wei s"
      using un vt by (simp add: word_le_nat_alt)
    have "total_wei s \<noteq> 0"
      using gt vt by auto
    then have "vesting_validate (s\<lparr>released_wei := released_wei s + a\<rparr>) = Ok ()"
      using assms le by (intro vesting_validate_released) auto
    with False assms rel add un le gt sum show ?thesis
      by (auto simp: vesting_release_def not_less [symmetric])
  qed
qed

lemma release_run_total:
  "vesting_validate s = Ok () \<Longrightarrow>
     \<exists>s' paid. release_run s ts = Some (s', paid)
       \<and> unat (released_wei s') = Max (insert (unat (released_wei s)) (vested_spec s ` set ts))
       \<and> paid = unat (released_wei s') - unat (released_wei s)
       \<and> released_wei s' \<le> total_wei s"
proof (induction ts arbitrary: s)
  case Nil
  then show ?case by (simp add: vesting_validate_bound)
next
  case (Cons t ts)
  obtain s1 r where s1: "vesting_release s t = Some (s1, r)" "vesting_validate s1 = Ok ()"
      "\<exists>w. s1 = s\<lparr>released_wei := w\<rparr>"
      "unat (released_wei s1) = max (unat (released_wei s)) (vested_spec s t)"
      "(case r of Ok a \<Rightarrow> unat a | Err _ \<Rightarrow> 0) = unat (released_wei s1) - unat (released_wei s)"
    using vesting_release_step [OF Cons.prems, of t] by blast
  obtain s2 paid where s2: "release_run s1 ts = Some (s2, paid)"
      "unat (released_wei s2) = Max (insert (unat (released_wei s1)) (vested_spec s1 ` set ts))"
      "paid = unat (released_wei s2) - unat (released_wei s1)" "released_wei s2 \<le> total_wei s1"
    using Cons.IH [OF s1(2)] by blast
  have same: "vested_spec s1 = vested_spec s" "total_wei s1 = total_wei s"
    using s1(3) by auto
  have ge: "unat (released_wei s1) \<le> unat (released_wei s2)"
    unfolding s2(2) by (rule Max_ge) auto
  have ge': "unat (released_wei s) \<le> unat (released_wei s1)"
    by (simp add: s1(4))
  have mx: "Max (insert (unat (released_wei s1)) (vested_spec s ` set ts))
      = Max (insert (unat (released_wei s)) (vested_spec s ` set (t # ts)))"
    by (cases "ts = []") (simp_all add: s1(4) max.assoc max.left_commute max.commute)
  have "release_run s (t # ts) = Some (s2, (case r of Ok a \<Rightarrow> unat a + paid | Err _ \<Rightarrow> paid))"
    using s1(1) s2(1) by simp
  moreover have "(case r of Ok a \<Rightarrow> unat a + paid | Err _ \<Rightarrow> paid)
      = unat (released_wei s2) - unat (released_wei s)"
    using s1(5) s2(3) ge ge' by (cases r) simp_all
  moreover have "unat (released_wei s2)
      = Max (insert (unat (released_wei s)) (vested_spec s ` set (t # ts)))"
    using s2(2) mx by (simp only: same)
  ultimately show ?case
    using s2(4) same by (metis (no_types, lifting))
qed

section \<open>Properties\<close>

text \<open>
  C24: \<open>vested_amount\<close> never panics and is exact. Whether or not the product
  \<open>total * elapsed\<close> overflows 256 bits, the result is the floor of
  \<open>total * elapsed / duration\<close> between the cliff and the end, it never exceeds the total, and
  it never decreases as time passes.
\<close>

theorem vested_amount_exact_monotone:
  assumes "now \<le> later"
  shows "\<exists>v w. vested_amount s now = Some v \<and> vested_amount s later = Some w
    \<and> unat v = vested_spec s now \<and> v \<le> w \<and> w \<le> total_wei s"
  using vested_amount_exact [of s now] vested_amount_exact [of s later]
    vested_spec_mono [OF assms, of s] vested_spec_le_total [of s later]
  by (auto simp: word_le_nat_alt)

text \<open>A schedule whose product overflows: the total is \<open>2 ^ 250\<close> over ten years.\<close>

definition big_schedule :: vesting_schedule where
  "big_schedule = new_unchecked (2 ^ 250) 1000 100 315360000 0"

theorem vested_amount_exact_monotone_witness:
  "(2000 :: u64) \<le> 5000
   \<and> (\<exists>v w. vested_amount big_schedule 2000 = Some v \<and> vested_amount big_schedule 5000 = Some w
        \<and> unat v = vested_spec big_schedule 2000 \<and> v \<le> w \<and> w \<le> total_wei big_schedule)
   \<and> vested_spec big_schedule 2000 = 2 ^ 250 * 1000 div 315360000"
  using vested_amount_exact_monotone [of 2000 5000 big_schedule]
  by (simp add: vested_spec_def big_schedule_def new_unchecked_def sat_add_def)

text \<open>
  C25: conservation of releases. From a valid schedule, calling \<open>release\<close> at any sequence of
  times (in any order, with repetitions) never panics; the amounts paid out add up to exactly the
  growth of \<open>released_wei\<close>, which ends at the largest amount vested at one of those times (or
  where it started) and never exceeds the total.
\<close>

theorem release_conservation:
  assumes "vesting_validate s = Ok ()"
  shows "\<exists>s' paid. release_run s ts = Some (s', paid)
    \<and> unat (released_wei s') = Max (insert (unat (released_wei s)) (vested_spec s ` set ts))
    \<and> paid = unat (released_wei s') - unat (released_wei s)
    \<and> released_wei s' \<le> total_wei s"
  by (rule release_run_total [OF assms])

theorem release_conservation_witness:
  "vesting_validate big_schedule = Ok ()
   \<and> (\<exists>s' paid. release_run big_schedule [5000, 2000, 5000] = Some (s', paid)
        \<and> unat (released_wei s') = 2 ^ 250 * 4000 div 315360000 \<and> paid = unat (released_wei s'))"
proof -
  have v: "vesting_validate big_schedule = Ok ()"
    by (simp add: vesting_validate_def big_schedule_def new_unchecked_def)
  have "Max (insert (unat (released_wei big_schedule)) (vested_spec big_schedule ` set [5000, 2000, 5000]))
        = 2 ^ 250 * 4000 div 315360000"
    by (simp add: vested_spec_def big_schedule_def new_unchecked_def sat_add_def)
  moreover have "released_wei big_schedule = 0"
    by (simp add: big_schedule_def new_unchecked_def)
  ultimately show ?thesis
    using v release_conservation [OF v, of "[5000, 2000, 5000]"] by auto
qed

end
