(* ===== verification/Validator.thy ===== *)
theory Validator
  imports Prelude
begin

text \<open>
  Validators (\<open>crates/types/src/validator.rs\<close>): stake, voting power, jailing and the strict
  validity check, with the operations that change one validator and the invariant they keep.
\<close>

section \<open>Model\<close>

datatype validator_status = Active | Inactive | Jailed

record validator =
  val_address :: address
  val_pubkey :: hash32
  val_stake :: u256
  val_power :: u64
  val_status :: validator_status
  val_bls_pubkey :: "bytes option"
  val_bls_pop :: "bytes option"
  val_commission_bps :: u16
  val_missed_blocks :: u64
  val_jailed_until :: "u64 option"

datatype validator_error =
    InsufficientStake
  | InvalidPublicKey
  | AddressMismatch address address
  | CommissionExceeded u16 u16
  | VotingPowerMismatch u64 u64
  | InvalidBlsPublicKeyLength nat nat
  | InvalidBlsPopLength nat nat
  | IncompleteBlsCredentials
  | ZeroVotingPower
  | ActiveWithJailWindow

text \<open>The failures reported as messages by \<open>bail!\<close>.\<close>

datatype validator_bail =
    BadBlsPubkeyLen nat
  | BadBlsPopLen nat
  | CommissionTooHigh
  | StakeTooSmall address
  | JailedUntil u64 u64
  | BadPubkey
  | BadSignature
  | NotStrict validator_error

definition BLS_PUBKEY_LEN :: nat where
  "BLS_PUBKEY_LEN = 48"

definition BLS_POP_LEN :: nat where
  "BLS_POP_LEN = 96"

definition MAX_COMMISSION_BPS :: u16 where
  "MAX_COMMISSION_BPS = 10000"

definition STAKE_UNIT :: u256 where
  "STAKE_UNIT = 1000000000000000000"

definition from_public_key :: "crypto \<Rightarrow> hash32 \<Rightarrow> address" where
  "from_public_key cx pk = cx_sha256 cx (be_bytes 32 pk)"

definition calculate_voting_power :: "u256 \<Rightarrow> u64" where
  "calculate_voting_power stake =
     (if stake < STAKE_UNIT then 0
      else let units = stake div STAKE_UNIT in
        if u256_of_u64 (- 1) < units then - 1 else ucast units)"

definition validator_new :: "address \<Rightarrow> hash32 \<Rightarrow> u256 \<Rightarrow> validator" where
  "validator_new addr pk stake =
     \<lparr>val_address = addr, val_pubkey = pk, val_stake = stake,
      val_power = calculate_voting_power stake, val_status = Inactive,
      val_bls_pubkey = None, val_bls_pop = None, val_commission_bps = 0,
      val_missed_blocks = 0, val_jailed_until = None\<rparr>"

definition try_with_bls_pop ::
  "validator \<Rightarrow> bytes \<Rightarrow> bytes \<Rightarrow> (validator, validator_bail) result" where
  "try_with_bls_pop v pk pop =
     (if length pk \<noteq> BLS_PUBKEY_LEN then Err (BadBlsPubkeyLen (length pk))
      else if length pop \<noteq> BLS_POP_LEN then Err (BadBlsPopLen (length pop))
      else Ok (v\<lparr>val_bls_pubkey := Some pk, val_bls_pop := Some pop\<rparr>))"

definition with_bls_pop :: "validator \<Rightarrow> bytes \<Rightarrow> bytes \<Rightarrow> validator" where
  "with_bls_pop v pk pop = v\<lparr>val_bls_pubkey := Some pk, val_bls_pop := Some pop\<rparr>"

definition with_commission :: "validator \<Rightarrow> u16 \<Rightarrow> (validator, validator_bail) result" where
  "with_commission v bps =
     (if MAX_COMMISSION_BPS < bps then Err CommissionTooHigh
      else Ok (v\<lparr>val_commission_bps := bps\<rparr>))"

definition update_voting_power :: "validator \<Rightarrow> validator" where
  "update_voting_power v = v\<lparr>val_power := calculate_voting_power (val_stake v)\<rparr>"

definition increase_stake :: "validator \<Rightarrow> u256 \<Rightarrow> validator" where
  "increase_stake v amount = update_voting_power (v\<lparr>val_stake := sat_add (val_stake v) amount\<rparr>)"

definition decrease_stake :: "validator \<Rightarrow> u256 \<Rightarrow> (validator, validator_bail) result" where
  "decrease_stake v amount =
     (if val_stake v < amount then Err (StakeTooSmall (val_address v))
      else Ok (update_voting_power (v\<lparr>val_stake := sat_sub (val_stake v) amount\<rparr>)))"

definition is_active :: "validator \<Rightarrow> bool" where
  "is_active v = (val_status v = Active)"

definition is_jailed :: "validator \<Rightarrow> bool" where
  "is_jailed v = (val_status v = Jailed)"

definition slash_until :: "validator \<Rightarrow> u256 \<Rightarrow> u64 option \<Rightarrow> validator" where
  "slash_until v amount jail_until_height =
     (update_voting_power (v\<lparr>val_stake := sat_sub (val_stake v) amount\<rparr>))
       \<lparr>val_status := Jailed, val_jailed_until := jail_until_height\<rparr>"

definition slash :: "validator \<Rightarrow> u256 \<Rightarrow> validator" where
  "slash v amount = slash_until v amount None"

definition unjail :: "validator \<Rightarrow> u64 \<Rightarrow> (validator, validator_bail) result" where
  "unjail v current_height =
     (if \<not> is_jailed v then Ok v
      else case val_jailed_until v of
          Some until' \<Rightarrow>
            (if current_height < until' then Err (JailedUntil until' current_height)
             else Ok (v\<lparr>val_status := Inactive, val_jailed_until := None, val_missed_blocks := 0\<rparr>))
        | None \<Rightarrow> Ok (v\<lparr>val_status := Inactive, val_jailed_until := None, val_missed_blocks := 0\<rparr>))"

definition reward :: "validator \<Rightarrow> u256 \<Rightarrow> validator" where
  "reward v amount =
     (update_voting_power (v\<lparr>val_stake := sat_add (val_stake v) amount\<rparr>))\<lparr>val_missed_blocks := 0\<rparr>"

definition record_missed_block :: "validator \<Rightarrow> validator \<times> u64" where
  "record_missed_block v =
     (let n = sat_add (val_missed_blocks v) 1 in (v\<lparr>val_missed_blocks := n\<rparr>, n))"

definition verify_signature ::
  "crypto \<Rightarrow> validator \<Rightarrow> bytes \<Rightarrow> sig64 \<Rightarrow> (bool, validator_bail) result" where
  "verify_signature cx v message sig =
     (if \<not> cx_vk_ok cx (val_pubkey v) then Err BadPubkey
      else if cx_ed_verify cx (val_pubkey v) message sig then Ok True
      else Err BadSignature)"

definition validate_minimum_stake :: "validator \<Rightarrow> u256 \<Rightarrow> (unit, validator_error) result" where
  "validate_minimum_stake v min_stake =
     (if val_stake v < min_stake then Err InsufficientStake else Ok ())"

definition is_placeholder_pubkey :: "hash32 \<Rightarrow> bool" where
  "is_placeholder_pubkey pk =
     (let bs = be_bytes 32 pk in list_all (\<lambda>b. b = hd bs) (tl bs))"

definition validate_bls :: "validator \<Rightarrow> (unit, validator_error) result" where
  "validate_bls v =
     (case (val_bls_pubkey v, val_bls_pop v) of
        (Some pk, Some pop) \<Rightarrow>
          (if length pk \<noteq> BLS_PUBKEY_LEN
           then Err (InvalidBlsPublicKeyLength BLS_PUBKEY_LEN (length pk))
           else if length pop \<noteq> BLS_POP_LEN
           then Err (InvalidBlsPopLength BLS_POP_LEN (length pop))
           else Ok ())
      | (None, None) \<Rightarrow> Ok ()
      | _ \<Rightarrow> Err IncompleteBlsCredentials)"

definition validate_strict :: "crypto \<Rightarrow> validator \<Rightarrow> (unit, validator_error) result" where
  "validate_strict cx v =
     (if is_placeholder_pubkey (val_pubkey v) then Err InvalidPublicKey
      else if \<not> cx_vk_ok cx (val_pubkey v) then Err InvalidPublicKey
      else let derived = from_public_key cx (val_pubkey v) in
      if val_address v \<noteq> derived then Err (AddressMismatch (val_address v) derived)
      else if MAX_COMMISSION_BPS < val_commission_bps v
        then Err (CommissionExceeded (val_commission_bps v) MAX_COMMISSION_BPS)
      else let expected = calculate_voting_power (val_stake v) in
      if val_power v \<noteq> expected then Err (VotingPowerMismatch expected (val_power v))
      else case validate_bls v of
          Err e \<Rightarrow> Err e
        | Ok _ \<Rightarrow>
            (if is_active v \<and> val_power v = 0 then Err ZeroVotingPower
             else if is_active v \<and> val_jailed_until v \<noteq> None then Err ActiveWithJailWindow
             else Ok ()))"

definition validator_validate :: "crypto \<Rightarrow> validator \<Rightarrow> (unit, validator_bail) result" where
  "validator_validate cx v =
     (case validate_strict cx v of Ok _ \<Rightarrow> Ok () | Err e \<Rightarrow> Err (NotStrict e))"

definition new_checked ::
  "crypto \<Rightarrow> address \<Rightarrow> hash32 \<Rightarrow> u256 \<Rightarrow> (validator, validator_bail) result" where
  "new_checked cx addr pk stake =
     (let v = validator_new addr pk stake in
      case validator_validate cx v of Err e \<Rightarrow> Err e | Ok _ \<Rightarrow> Ok v)"

definition update_pubkey :: "crypto \<Rightarrow> validator \<Rightarrow> hash32 \<Rightarrow> validator" where
  "update_pubkey cx v pk = v\<lparr>val_pubkey := pk, val_address := from_public_key cx pk\<rparr>"

definition try_update_pubkey ::
  "crypto \<Rightarrow> validator \<Rightarrow> hash32 \<Rightarrow> (validator, validator_bail) result" where
  "try_update_pubkey cx v pk =
     (if is_placeholder_pubkey pk then Err BadPubkey
      else if \<not> cx_vk_ok cx pk then Err BadPubkey
      else Ok (v\<lparr>val_pubkey := pk, val_address := from_public_key cx pk\<rparr>))"

text \<open>
  One call on a validator: every method that changes it, with its success condition. The method
  \<open>update_pubkey\<close>, which skips the key check, and \<open>with_bls_pop\<close>, which skips the length
  checks, are left out of the relation: they are the two that may leave an invalid validator.
\<close>

inductive validator_step :: "crypto \<Rightarrow> validator \<Rightarrow> validator \<Rightarrow> bool" for cx where
  step_bls: "try_with_bls_pop v pk pop = Ok v' \<Longrightarrow> validator_step cx v v'"
| step_commission: "with_commission v bps = Ok v' \<Longrightarrow> validator_step cx v v'"
| step_increase: "validator_step cx v (increase_stake v a)"
| step_decrease: "decrease_stake v a = Ok v' \<Longrightarrow> validator_step cx v v'"
| step_slash: "validator_step cx v (slash_until v a j)"
| step_unjail: "unjail v h = Ok v' \<Longrightarrow> validator_step cx v v'"
| step_reward: "validator_step cx v (reward v a)"
| step_missed: "validator_step cx v (fst (record_missed_block v))"
| step_pubkey: "try_update_pubkey cx v pk = Ok v' \<Longrightarrow> validator_step cx v v'"

inductive_cases validator_stepE: "validator_step cx v v'"


section \<open>Voting power\<close>

lemma unat_STAKE_UNIT [simp]: "unat STAKE_UNIT = 10 ^ 18"
  by (simp add: STAKE_UNIT_def)

lemma unat_ucast_64: "unat (x :: u256) < 2 ^ 64 \<Longrightarrow> unat (ucast x :: u64) = unat x"
  by transfer (simp add: nat_mod_distrib take_bit_eq_mod)

lemma unat_voting_power:
  "unat (calculate_voting_power stake) = min (unat stake div 10 ^ 18) (2 ^ 64 - 1)"
proof (cases "stake < STAKE_UNIT")
  case True
  then show ?thesis
    by (simp add: calculate_voting_power_def word_less_nat_alt)
next
  case False
  have u: "unat (stake div STAKE_UNIT) = unat stake div 10 ^ 18"
    by (simp add: unat_div)
  have m: "unat (u256_of_u64 (- 1)) = 2 ^ 64 - 1"
    by (simp only: unat_ops) simp
  show ?thesis
  proof (cases "u256_of_u64 (- 1) < stake div STAKE_UNIT")
    case True
    then have "2 ^ 64 - 1 < unat stake div 10 ^ 18"
      by (simp only: word_less_nat_alt u m)
    moreover have "calculate_voting_power stake = - 1"
      using True False by (simp only: calculate_voting_power_def Let_def if_True if_False)
    ultimately show ?thesis
      by (simp only: unat_ops) simp
  next
    case le: False
    then have "unat (stake div STAKE_UNIT) \<le> 2 ^ 64 - 1"
      by (simp only: word_less_nat_alt m not_less)
    then have "unat (ucast (stake div STAKE_UNIT) :: u64) = unat (stake div STAKE_UNIT)"
      by (intro unat_ucast_64) simp
    moreover have "calculate_voting_power stake = ucast (stake div STAKE_UNIT)"
      using le False by (simp only: calculate_voting_power_def Let_def if_False)
    ultimately show ?thesis
      using u \<open>unat (stake div STAKE_UNIT) \<le> 2 ^ 64 - 1\<close> by simp
  qed
qed

lemma voting_power_mono: "s \<le> t \<Longrightarrow> calculate_voting_power s \<le> calculate_voting_power t"
  by (auto simp: word_le_nat_alt unat_voting_power intro: min.coboundedI1 div_le_mono)

section \<open>The invariant\<close>


lemma validate_bls_cong:
  "val_bls_pubkey v = val_bls_pubkey w \<Longrightarrow> val_bls_pop v = val_bls_pop w
     \<Longrightarrow> validate_bls v = validate_bls w"
  by (simp add: validate_bls_def)






section \<open>Properties\<close>





end
