(* ===== verification/ValidatorSet.thy ===== *)
theory ValidatorSet
  imports Validator
begin

text \<open>
  The validator set (\<open>crates/consensus/src/pos/validator_set.rs\<close>): registration with its
  rogue-key protection, removal, jailing and slashing, atomic rotation at epoch boundaries, the
  canonical order of the active validators, and the two leader elections.
\<close>

section \<open>Model\<close>

record validator_set =
  vs_validators :: "(address, validator) hashmap"
  vs_total_stake :: u256

datatype vs_error =
    MaxActiveReached
  | InvalidValidator validator_bail
  | EmptyPubkey address
  | ValidatorIsJailed address
  | ZeroStake address
  | MissingBls address
  | PopFailed address
  | DuplicateBls address
  | DuplicateAddress address
  | ValidatorNotFound address

definition MAX_ACTIVE_VALIDATORS :: nat where
  "MAX_ACTIVE_VALIDATORS = 200"

definition vs_new :: validator_set where
  "vs_new = \<lparr>vs_validators = [], vs_total_stake = 0\<rparr>"

definition power_order :: "validator \<Rightarrow> u64 \<times> address" where
  "power_order v = (- 1 - val_power v, val_address v)"

definition active_validators :: "validator_set \<Rightarrow> validator list" where
  "active_validators vs = sort_key power_order (filter is_active (map snd (vs_validators vs)))"

definition all_validators :: "validator_set \<Rightarrow> validator list" where
  "all_validators vs = map snd (vs_validators vs)"

definition active_validator_count :: "validator_set \<Rightarrow> nat" where
  "active_validator_count vs = length (active_validators vs)"

definition validate_validator :: "crypto \<Rightarrow> validator \<Rightarrow> (unit, vs_error) result" where
  "validate_validator cx v =
     (case validator_validate cx v of
        Err e \<Rightarrow> Err (InvalidValidator e)
      | Ok _ \<Rightarrow>
          (if val_pubkey v = 0 then Err (EmptyPubkey (val_address v))
           else if is_jailed v then Err (ValidatorIsJailed (val_address v))
           else if val_stake v = 0 then Err (ZeroStake (val_address v))
           else Ok ()))"

definition enforce_bls_pop :: "crypto \<Rightarrow> validator \<Rightarrow> (unit, vs_error) result" where
  "enforce_bls_pop cx v =
     (case (val_bls_pubkey v, val_bls_pop v) of
        (Some pk, Some pop) \<Rightarrow>
          (if cx_pop_ok cx pk pop then Ok () else Err (PopFailed (val_address v)))
      | _ \<Rightarrow> Err (MissingBls (val_address v)))"

definition bls_clash :: "validator \<Rightarrow> (address, validator) hashmap \<Rightarrow> (address \<times> validator) option" where
  "bls_clash v m =
     (case val_bls_pubkey v of
        None \<Rightarrow> None
      | Some pk \<Rightarrow> List.find (\<lambda>(a, e). a \<noteq> val_address v \<and> val_bls_pubkey e = Some pk) m)"

definition add_validator ::
  "crypto \<Rightarrow> validator_set \<Rightarrow> validator \<Rightarrow> (validator_set, vs_error) result" where
  "add_validator cx vs v =
     (let is_new = (hm_get (vs_validators vs) (val_address v) = None) in
      if is_new \<and> is_active v \<and> MAX_ACTIVE_VALIDATORS \<le> active_validator_count vs
      then Err MaxActiveReached
      else case validate_validator cx v of
          Err e \<Rightarrow> Err e
        | Ok _ \<Rightarrow> (case enforce_bls_pop cx v of
            Err e \<Rightarrow> Err e
          | Ok _ \<Rightarrow> (case bls_clash v (vs_validators vs) of
              Some (a, _) \<Rightarrow> Err (DuplicateBls a)
            | None \<Rightarrow>
                (let t = (case hm_get (vs_validators vs) (val_address v) of
                            Some existing \<Rightarrow> sat_sub (vs_total_stake vs) (val_stake existing)
                          | None \<Rightarrow> vs_total_stake vs) in
                 Ok \<lparr>vs_validators = hm_insert (val_address v) v (vs_validators vs),
                     vs_total_stake = sat_add t (val_stake v)\<rparr>))))"

definition remove_validator :: "validator_set \<Rightarrow> address \<Rightarrow> validator_set \<times> validator option" where
  "remove_validator vs a =
     (case hm_get (vs_validators vs) a of
        None \<Rightarrow> (vs, None)
      | Some removed \<Rightarrow>
          (\<lparr>vs_validators = hm_remove a (vs_validators vs),
            vs_total_stake = sat_sub (vs_total_stake vs) (val_stake removed)\<rparr>, Some removed))"

definition vs_voting_power :: "validator_set \<Rightarrow> address \<Rightarrow> u64" where
  "vs_voting_power vs a = (case hm_get (vs_validators vs) a of Some v \<Rightarrow> val_power v | None \<Rightarrow> 0)"

definition jail_validator :: "validator_set \<Rightarrow> address \<Rightarrow> (validator_set, vs_error) result" where
  "jail_validator vs a =
     (case hm_get (vs_validators vs) a of
        Some v \<Rightarrow>
          Ok (vs\<lparr>vs_validators :=
                hm_insert a (v\<lparr>val_status := Jailed, val_power := 0\<rparr>) (vs_validators vs)\<rparr>)
      | None \<Rightarrow> Err (ValidatorNotFound a))"

definition vs_slash_validator ::
  "validator_set \<Rightarrow> address \<Rightarrow> u256 \<Rightarrow> (validator_set, vs_error) result" where
  "vs_slash_validator vs a amount =
     (case hm_get (vs_validators vs) a of
        Some v \<Rightarrow>
          (let v' = slash v amount;
               t = sat_add (sat_sub (vs_total_stake vs) (val_stake v)) (val_stake v') in
           Ok \<lparr>vs_validators =
                 (if val_stake v' = 0 then hm_remove a (vs_validators vs)
                  else hm_insert a v' (vs_validators vs)),
               vs_total_stake = t\<rparr>)
      | None \<Rightarrow> Err (ValidatorNotFound a))"

definition vs_quorum_threshold :: "validator_set \<Rightarrow> nat" where
  "vs_quorum_threshold vs =
     (let count = active_validator_count vs in if count = 0 then 0 else count * 2 div 3 + 1)"

fun stage_validators ::
  "crypto \<Rightarrow> validator list \<Rightarrow> (address, validator) hashmap \<Rightarrow> nat \<Rightarrow> u256
     \<Rightarrow> (validator_set, vs_error) result" where
  "stage_validators cx [] staged active_count t = Ok \<lparr>vs_validators = staged, vs_total_stake = t\<rparr>"
| "stage_validators cx (v # rest) staged active_count t =
     (case validate_validator cx v of
        Err e \<Rightarrow> Err e
      | Ok _ \<Rightarrow> (case enforce_bls_pop cx v of
          Err e \<Rightarrow> Err e
        | Ok _ \<Rightarrow>
            (if hm_get staged (val_address v) \<noteq> None then Err (DuplicateAddress (val_address v))
             else if val_bls_pubkey v \<noteq> None
                  \<and> list_ex (\<lambda>e. val_bls_pubkey e = val_bls_pubkey v) (map snd staged)
               then Err (DuplicateBls (val_address v))
             else
               (let n = (if is_active v then active_count + 1 else active_count) in
                if is_active v \<and> MAX_ACTIVE_VALIDATORS < n then Err MaxActiveReached
                else stage_validators cx rest (hm_insert (val_address v) v staged) n
                       (sat_add t (val_stake v))))))"

definition replace_validators ::
  "crypto \<Rightarrow> validator_set \<Rightarrow> validator list \<Rightarrow> validator_set \<times> (unit, vs_error) result" where
  "replace_validators cx vs new =
     (case stage_validators cx new [] 0 0 of
        Ok vs' \<Rightarrow> (vs', Ok ())
      | Err e \<Rightarrow> (vs, Err e))"

definition is_epoch_boundary :: "u64 \<Rightarrow> u64 \<Rightarrow> bool" where
  "is_epoch_boundary height epoch_length =
     (0 < height \<and> (if epoch_length = 0 then height = 0 else height mod epoch_length = 0))"

definition apply_epoch_transition ::
  "crypto \<Rightarrow> validator_set \<Rightarrow> validator list \<Rightarrow> u64 \<Rightarrow> u64
     \<Rightarrow> validator_set \<times> (bool, vs_error) result" where
  "apply_epoch_transition cx vs new height epoch_length =
     (if \<not> is_epoch_boundary height epoch_length then (vs, Ok False)
      else case replace_validators cx vs new of
          (vs', Ok _) \<Rightarrow> (vs', Ok True)
        | (vs', Err e) \<Rightarrow> (vs', Err e))"

definition total_active_voting_power :: "validator_set \<Rightarrow> u64" where
  "total_active_voting_power vs =
     fold (\<lambda>v acc. sat_add acc (val_power v)) (active_validators vs) 0"

definition vs_hash :: "crypto \<Rightarrow> validator_set \<Rightarrow> hash32" where
  "vs_hash cx vs =
     cx_sha256 cx (concat (map (\<lambda>v. be_bytes 32 (val_address v) @ be_bytes 32 (val_pubkey v)
                                     @ le_bytes 32 (val_stake v)) (active_validators vs)))"

definition election_random :: "crypto \<Rightarrow> u64 \<Rightarrow> hash32 \<Rightarrow> u64" where
  "election_random cx view seed =
     of_le_bytes (take 8 (be_bytes 32 (cx_sha256 cx (be_bytes 32 seed @ le_bytes 8 view))))"

definition leader_selection :: "crypto \<Rightarrow> validator_set \<Rightarrow> u64 \<Rightarrow> hash32 \<Rightarrow> address option" where
  "leader_selection cx vs view seed =
     (let active = active_validators vs in
      if active = [] then None
      else Some (val_address (active ! (unat (election_random cx view seed) mod length active))))"

fun pick_weighted :: "validator list \<Rightarrow> u64 \<Rightarrow> u64 \<Rightarrow> address option" where
  "pick_weighted [] cumulative r = None"
| "pick_weighted (v # vs) cumulative r =
     (let c = sat_add cumulative (val_power v) in
      if r < c then Some (val_address v) else pick_weighted vs c r)"

definition select_leader_weighted ::
  "crypto \<Rightarrow> validator_set \<Rightarrow> u64 \<Rightarrow> hash32 \<Rightarrow> address option" where
  "select_leader_weighted cx vs view seed =
     (let active = active_validators vs in
      if active = [] then None
      else
        (let total_power = fold (\<lambda>v acc. sat_add acc (val_power v)) active 0 in
         if total_power = 0 then leader_selection cx vs view seed
         else case pick_weighted active 0 (election_random cx view seed mod total_power) of
             Some a \<Rightarrow> Some a
           | None \<Rightarrow> Some (val_address (last active))))"

definition get_proposer :: "crypto \<Rightarrow> validator_set \<Rightarrow> u64 \<Rightarrow> hash32 \<Rightarrow> address option" where
  "get_proposer cx vs view seed = select_leader_weighted cx vs view seed"

section \<open>Registration invariant\<close>

text \<open>
  Every entry is stored under its own address, carries a proof of possession that verifies, and has
  stake; no two entries share a BLS key; the total is the sum of the stakes.
\<close>

definition entry_ok :: "crypto \<Rightarrow> address \<Rightarrow> validator \<Rightarrow> bool" where
  "entry_ok cx a v \<longleftrightarrow> val_address v = a \<and> val_stake v \<noteq> 0
     \<and> (\<exists>pk pop. val_bls_pubkey v = Some pk \<and> val_bls_pop v = Some pop \<and> cx_pop_ok cx pk pop)"

definition keys_unique :: "(address, validator) hashmap \<Rightarrow> bool" where
  "keys_unique m \<longleftrightarrow> (\<forall>a v b w. hm_get m a = Some v \<longrightarrow> hm_get m b = Some w
     \<longrightarrow> val_bls_pubkey v = val_bls_pubkey w \<longrightarrow> a = b)"

definition stake_sum :: "(address, validator) hashmap \<Rightarrow> nat" where
  "stake_sum m = hm_sum (\<lambda>v. unat (val_stake v)) m"

definition vs_inv :: "crypto \<Rightarrow> validator_set \<Rightarrow> bool" where
  "vs_inv cx vs \<longleftrightarrow> hm_wf (vs_validators vs)
     \<and> (\<forall>a v. hm_get (vs_validators vs) a = Some v \<longrightarrow> entry_ok cx a v)
     \<and> keys_unique (vs_validators vs)
     \<and> unat (vs_total_stake vs) = stake_sum (vs_validators vs)"

text \<open>
  The calls that change the set. The total of all stakes stays below \<open>2 ^ 256\<close>: tokens are
  counted in \<open>U256\<close>, so a larger total is more than can exist.
\<close>

inductive vs_step :: "crypto \<Rightarrow> validator_set \<Rightarrow> validator_set \<Rightarrow> bool" for cx where
  vs_step_add: "add_validator cx vs v = Ok vs' \<Longrightarrow> stake_sum (vs_validators vs') < 2 ^ 256
     \<Longrightarrow> vs_step cx vs vs'"
| vs_step_remove: "remove_validator vs a = (vs', r) \<Longrightarrow> vs_step cx vs vs'"
| vs_step_jail: "jail_validator vs a = Ok vs' \<Longrightarrow> vs_step cx vs vs'"
| vs_step_slash: "vs_slash_validator vs a amount = Ok vs' \<Longrightarrow> vs_step cx vs vs'"
| vs_step_epoch: "apply_epoch_transition cx vs new h e = (vs', r)
     \<Longrightarrow> stake_sum (vs_validators vs') < 2 ^ 256 \<Longrightarrow> vs_step cx vs vs'"

lemma validate_validator_stake: "validate_validator cx v = Ok () \<Longrightarrow> val_stake v \<noteq> 0"
  by (auto simp: validate_validator_def split: result.splits if_splits)

lemma enforce_bls_pop_ok:
  "enforce_bls_pop cx v = Ok () \<Longrightarrow>
     \<exists>pk pop. val_bls_pubkey v = Some pk \<and> val_bls_pop v = Some pop \<and> cx_pop_ok cx pk pop"
  by (auto simp: enforce_bls_pop_def split: option.splits if_splits)

lemma keys_unique_insert:
  assumes "keys_unique m" and "\<And>b w. hm_get m b = Some w \<Longrightarrow> b \<noteq> a \<Longrightarrow> val_bls_pubkey w \<noteq> val_bls_pubkey v"
  shows "keys_unique (hm_insert a v m)"
  using assms unfolding keys_unique_def by (metis hm_get_insert fun_upd_apply option.inject)

lemma keys_unique_same_key:
  "keys_unique m \<Longrightarrow> hm_get m a = Some v \<Longrightarrow> val_bls_pubkey v' = val_bls_pubkey v
     \<Longrightarrow> keys_unique (hm_insert a v' m)"
  by (rule keys_unique_insert) (auto simp: keys_unique_def)

lemma keys_unique_remove: "keys_unique m \<Longrightarrow> keys_unique (hm_remove a m)"
  unfolding keys_unique_def by (metis hm_get_remove fun_upd_apply option.distinct(1))

lemma stake_sum_remove:
  "hm_wf m \<Longrightarrow> hm_get m a = Some v \<Longrightarrow> stake_sum (hm_remove a m) + unat (val_stake v) = stake_sum m"
  unfolding stake_sum_def by (rule hm_sum_remove)

lemma stake_sum_replace:
  "hm_get m a = Some v
     \<Longrightarrow> stake_sum (hm_insert a v' m) + unat (val_stake v) = stake_sum m + unat (val_stake v')"
  unfolding stake_sum_def by (rule hm_sum_insert_old)

lemma stake_sum_new:
  "hm_get m a = None \<Longrightarrow> stake_sum (hm_insert a v m) = stake_sum m + unat (val_stake v)"
  unfolding stake_sum_def by (rule hm_sum_insert_new)

lemma stake_sum_ge: "hm_get m a = Some v \<Longrightarrow> unat (val_stake v) \<le> stake_sum m"
  unfolding stake_sum_def by (rule hm_sum_ge)

lemma bls_clash_None:
  "hm_wf m \<Longrightarrow> bls_clash v m = None \<Longrightarrow> val_bls_pubkey v = Some pk \<Longrightarrow> hm_get m b = Some w
     \<Longrightarrow> b \<noteq> val_address v \<Longrightarrow> val_bls_pubkey w \<noteq> Some pk"
  by (auto simp: bls_clash_def find_None_iff dest: hm_get_Some_in)

lemma add_validator_inv:
  assumes inv: "vs_inv cx vs" and add: "add_validator cx vs v = Ok vs'"
    and fits: "stake_sum (vs_validators vs') < 2 ^ 256"
  shows "vs_inv cx vs'"
proof -
  let ?m = "vs_validators vs" and ?a = "val_address v"
  have chk: "validate_validator cx v = Ok ()" "enforce_bls_pop cx v = Ok ()"
      "bls_clash v ?m = None" and m': "vs_validators vs' = hm_insert ?a v ?m"
    and t': "vs_total_stake vs' = sat_add (case hm_get ?m ?a of
          Some existing \<Rightarrow> sat_sub (vs_total_stake vs) (val_stake existing)
        | None \<Rightarrow> vs_total_stake vs) (val_stake v)"
    using add by (auto simp: add_validator_def Let_def split: if_splits result.splits option.splits)
  obtain pk pop where pk: "val_bls_pubkey v = Some pk" "val_bls_pop v = Some pop" "cx_pop_ok cx pk pop"
    using enforce_bls_pop_ok [OF chk(2)] by blast
  have ok: "entry_ok cx ?a v"
    using pk validate_validator_stake [OF chk(1)] by (simp add: entry_ok_def)
  have uniq: "keys_unique (vs_validators vs')"
    unfolding m' using inv chk(3) pk bls_clash_None
    by (intro keys_unique_insert) (auto simp: vs_inv_def)
  have "unat (vs_total_stake vs') = stake_sum (vs_validators vs')"
  proof (cases "hm_get ?m ?a")
    case None
    with inv fits show ?thesis
      by (simp add: t' m' stake_sum_new unat_ops vs_inv_def)
  next
    case (Some old)
    have "stake_sum (hm_insert ?a v ?m) + unat (val_stake old) = stake_sum ?m + unat (val_stake v)"
      using Some by (rule stake_sum_replace)
    moreover have "unat (val_stake old) \<le> stake_sum ?m"
      using Some by (rule stake_sum_ge)
    ultimately show ?thesis
      using Some inv fits by (simp add: t' m' unat_ops vs_inv_def)
  qed
  with inv ok uniq show ?thesis
    by (auto simp: vs_inv_def m')
qed

lemma remove_validator_inv:
  assumes "vs_inv cx vs" "remove_validator vs a = (vs', r)"
  shows "vs_inv cx vs'"
proof (cases "hm_get (vs_validators vs) a")
  case None
  with assms show ?thesis by (simp add: remove_validator_def)
next
  case (Some v)
  with assms have "vs' = \<lparr>vs_validators = hm_remove a (vs_validators vs),
      vs_total_stake = sat_sub (vs_total_stake vs) (val_stake v)\<rparr>"
    by (simp add: remove_validator_def)
  with assms(1) Some stake_sum_remove [of "vs_validators vs" a v] show ?thesis
    by (auto simp: vs_inv_def keys_unique_remove unat_ops)
qed

lemma jail_validator_inv:
  assumes "vs_inv cx vs" "jail_validator vs a = Ok vs'"
  shows "vs_inv cx vs'"
proof -
  obtain v where v: "hm_get (vs_validators vs) a = Some v"
    and m': "vs' = vs\<lparr>vs_validators :=
                hm_insert a (v\<lparr>val_status := Jailed, val_power := 0\<rparr>) (vs_validators vs)\<rparr>"
    using assms(2) by (auto simp: jail_validator_def split: option.splits)
  have "entry_ok cx a (v\<lparr>val_status := Jailed, val_power := 0\<rparr>)"
    using assms(1) v by (auto simp: vs_inv_def entry_ok_def)
  with assms(1) v stake_sum_replace [OF v, of "v\<lparr>val_status := Jailed, val_power := 0\<rparr>"] show ?thesis
    by (auto simp: vs_inv_def m' intro: keys_unique_same_key)
qed

lemma slash_fields [simp]:
  "val_stake (slash v x) = sat_sub (val_stake v) x" "val_address (slash v x) = val_address v"
  "val_bls_pubkey (slash v x) = val_bls_pubkey v" "val_bls_pop (slash v x) = val_bls_pop v"
  "val_status (slash v x) = Jailed"
  by (simp_all add: slash_def slash_until_def update_voting_power_def)

lemma slash_validator_inv:
  assumes "vs_inv cx vs" "vs_slash_validator vs a x = Ok vs'"
  shows "vs_inv cx vs'"
proof -
  let ?m = "vs_validators vs"
  obtain v where v: "hm_get ?m a = Some v"
    and vs': "vs_validators vs' = (if val_stake (slash v x) = 0 then hm_remove a ?m
                else hm_insert a (slash v x) ?m)"
      "vs_total_stake vs' = sat_add (sat_sub (vs_total_stake vs) (val_stake v)) (val_stake (slash v x))"
    using assms(2) by (auto simp: vs_slash_validator_def Let_def split: option.splits)
  have e: "entry_ok cx a v" and tot: "unat (vs_total_stake vs) = stake_sum ?m" and wf: "hm_wf ?m"
    using assms(1) v by (auto simp: vs_inv_def)
  have le: "unat (val_stake (slash v x)) \<le> unat (val_stake v)"
    by (simp add: unat_ops)
  have ge: "unat (val_stake v) \<le> stake_sum ?m"
    using v by (rule stake_sum_ge)
  have bound: "stake_sum ?m < 2 ^ 256"
    using tot unat_bound [of "vs_total_stake vs"] by simp
  have t: "unat (vs_total_stake vs') = stake_sum ?m - unat (val_stake v) + unat (val_stake (slash v x))"
    using le ge bound unfolding vs'(2) by (simp only: unat_ops tot) simp
  show ?thesis
  proof (cases "val_stake (slash v x) = 0")
    case True
    then have "unat (val_stake (slash v x)) = 0" by (simp only: unat_eq_0)
    with True t assms(1) v stake_sum_remove [OF wf v] show ?thesis
      unfolding vs_inv_def vs'(1) by (auto simp: keys_unique_remove)
  next
    case False
    have "stake_sum (vs_validators vs') + unat (val_stake v)
          = stake_sum ?m + unat (val_stake (slash v x))"
      using False stake_sum_replace [OF v, of "slash v x"] vs'(1) by simp
    with t ge have "unat (vs_total_stake vs') = stake_sum (vs_validators vs')" by linarith
    moreover have "entry_ok cx a (slash v x)"
      using e False by (auto simp: entry_ok_def)
    ultimately show ?thesis
      using False assms(1) v
      by (auto simp: vs_inv_def vs'(1) intro: keys_unique_same_key)
  qed
qed

lemma stage_validators_sum_mono:
  "stage_validators cx new staged n t = Ok vs' \<Longrightarrow> stake_sum staged \<le> stake_sum (vs_validators vs')"
proof (induction new arbitrary: staged n t)
  case (Cons v new)
  then obtain n' t' where "hm_get staged (val_address v) = None"
      "stage_validators cx new (hm_insert (val_address v) v staged) n' t' = Ok vs'"
    by (auto simp: Let_def split: result.splits if_splits)
  then show ?case
    using Cons.IH stake_sum_new [of staged "val_address v" v] by (metis add_leD1)
qed auto

lemma stage_validators_inv:
  "stage_validators cx new staged n t = Ok vs' \<Longrightarrow>
     vs_inv cx \<lparr>vs_validators = staged, vs_total_stake = t\<rparr> \<Longrightarrow>
     stake_sum (vs_validators vs') < 2 ^ 256 \<Longrightarrow>
     n = length (filter is_active (map snd staged)) \<Longrightarrow> n \<le> MAX_ACTIVE_VALIDATORS \<Longrightarrow>
     vs_inv cx vs' \<and> active_validator_count vs' \<le> MAX_ACTIVE_VALIDATORS"
proof (induction new arbitrary: staged n t)
  case Nil
  then show ?case
    by (auto simp: active_validator_count_def active_validators_def)
next
  case (Cons v new)
  let ?m = "hm_insert (val_address v) v staged" and ?n = "if is_active v then n + 1 else n"
  have chk: "validate_validator cx v = Ok ()" "enforce_bls_pop cx v = Ok ()"
      "hm_get staged (val_address v) = None"
      "val_bls_pubkey v = None \<or> \<not> list_ex (\<lambda>e. val_bls_pubkey e = val_bls_pubkey v) (map snd staged)"
      "?n \<le> MAX_ACTIVE_VALIDATORS"
    and rest: "stage_validators cx new ?m ?n (sat_add t (val_stake v)) = Ok vs'"
    using Cons.prems by (auto simp: Let_def split: result.splits if_splits)
  obtain pk pop where pk: "val_bls_pubkey v = Some pk" "val_bls_pop v = Some pop" "cx_pop_ok cx pk pop"
    using enforce_bls_pop_ok [OF chk(2)] by blast
  have ok: "entry_ok cx (val_address v) v"
    using pk validate_validator_stake [OF chk(1)] by (simp add: entry_ok_def)
  have uniq: "keys_unique ?m"
    using Cons.prems(2) chk(4) pk
    by (intro keys_unique_insert) (auto simp: vs_inv_def list_ex_iff dest!: hm_get_Some_in)
  have "stake_sum ?m < 2 ^ 256"
    using stage_validators_sum_mono [OF rest] Cons.prems(3) by linarith
  then have "vs_inv cx \<lparr>vs_validators = ?m, vs_total_stake = sat_add t (val_stake v)\<rparr>"
    using Cons.prems(2) ok uniq chk(3) by (auto simp: vs_inv_def stake_sum_new unat_ops)
  moreover have "?n = length (filter is_active (map snd ?m))"
    using Cons.prems(4) chk(3) by (simp add: hm_insert_append)
  ultimately show ?case
    using Cons.IH [OF rest] Cons.prems(3) chk(5) by blast
qed

lemma vs_step_inv: "vs_step cx vs vs' \<Longrightarrow> vs_inv cx vs \<Longrightarrow> vs_inv cx vs'"
proof (induction rule: vs_step.induct)
  case (vs_step_epoch vs new h e vs' r)
  have "vs_inv cx \<lparr>vs_validators = [], vs_total_stake = 0\<rparr>"
    by (simp add: vs_inv_def keys_unique_def stake_sum_def)
  with vs_step_epoch show ?case
    using stage_validators_inv [of cx new "[]" 0 0]
    by (auto simp: apply_epoch_transition_def replace_validators_def
          split: if_splits result.splits)
qed (auto intro: add_validator_inv remove_validator_inv jail_validator_inv slash_validator_inv)

lemma vs_steps_inv: "(vs_step cx)\<^sup>*\<^sup>* vs vs' \<Longrightarrow> vs_inv cx vs \<Longrightarrow> vs_inv cx vs'"
  by (induction rule: rtranclp_induct) (auto intro: vs_step_inv)

lemma vs_new_inv: "vs_inv cx vs_new"
  by (simp add: vs_inv_def vs_new_def keys_unique_def stake_sum_def)

section \<open>The canonical order\<close>

lemma vs_inv_wf: "vs_inv cx vs \<Longrightarrow> hm_wf (vs_validators vs)"
  by (simp add: vs_inv_def)

lemma vs_inv_entry:
  assumes "vs_inv cx vs" "(a, v) \<in> set (vs_validators vs)"
  shows "hm_get (vs_validators vs) a = Some v" "val_address v = a"
proof -
  show g: "hm_get (vs_validators vs) a = Some v"
    using vs_inv_wf [OF assms(1)] assms(2) by (rule map_of_is_SomeI)
  with assms(1) show "val_address v = a"
    unfolding vs_inv_def entry_ok_def by blast
qed

lemma inj_on_power_order:
  assumes "vs_inv cx vs"
  shows "inj_on power_order (set (filter is_active (map snd (vs_validators vs))))"
proof (rule inj_onI)
  fix v w
  assume "v \<in> set (filter is_active (map snd (vs_validators vs)))"
    and "w \<in> set (filter is_active (map snd (vs_validators vs)))"
    and eq: "power_order v = power_order w"
  then obtain a b where ab: "(a, v) \<in> set (vs_validators vs)" "(b, w) \<in> set (vs_validators vs)"
    by auto
  have "a = b"
    using eq vs_inv_entry(2) [OF assms ab(1)] vs_inv_entry(2) [OF assms ab(2)]
    by (simp add: power_order_def)
  then show "v = w"
    using vs_inv_entry(1) [OF assms ab(1)] vs_inv_entry(1) [OF assms ab(2)] by simp
qed

text \<open>The order of the hash map does not show: it is the same set in another iteration order.\<close>

lemma active_validators_perm:
  assumes "vs_inv cx vs" "mset (vs_validators vs) = mset (vs_validators vs')"
  shows "active_validators vs = active_validators vs'"
  unfolding active_validators_def
proof (rule sort_key_perm)
  show "mset (filter is_active (map snd (vs_validators vs)))
        = mset (filter is_active (map snd (vs_validators vs')))"
    by (simp only: mset_filter mset_map assms(2))
qed (rule inj_on_power_order [OF assms(1)])

lemma active_validators_distinct:
  assumes "vs_inv cx vs"
  shows "distinct (map val_address (active_validators vs))"
proof -
  have eq: "map val_address (map snd (vs_validators vs)) = map fst (vs_validators vs)"
    using vs_inv_entry(2) [OF assms] by auto
  have "distinct (map val_address (filter is_active (map snd (vs_validators vs))))"
    using vs_inv_wf [OF assms] by (intro distinct_map_filter) (simp only: eq)
  then show ?thesis
    by (simp add: active_validators_def distinct_map)
qed

section \<open>Leader election\<close>

definition power_sum :: "validator list \<Rightarrow> nat" where
  "power_sum vs = sum_list (map (\<lambda>v. unat (val_power v)) vs)"

lemma power_sum_simps [simp]:
  "power_sum [] = 0" "power_sum (v # vs) = unat (val_power v) + power_sum vs"
  by (simp_all add: power_sum_def)

lemma fold_sat_power:
  "unat (fold (\<lambda>v acc. sat_add acc (val_power v)) vs acc) = min (unat acc + power_sum vs) (2 ^ 64 - 1)"
proof (induction vs arbitrary: acc)
  case Nil
  then show ?case using u64_le_max [of acc] by simp
next
  case (Cons v vs)
  then show ?case by (simp add: unat_ops)
qed

text \<open>The residues that elect a validator form an interval as long as its power.\<close>

lemma pick_weighted_interval:
  "unat c + power_sum vs < 2 ^ 64 \<Longrightarrow> distinct (map val_address vs) \<Longrightarrow> v \<in> set vs \<Longrightarrow>
   \<exists>lo. unat c \<le> lo \<and> lo + unat (val_power v) \<le> unat c + power_sum vs \<and>
     (\<forall>r. unat c \<le> unat r \<longrightarrow> (pick_weighted vs c r = Some (val_address v)
             \<longleftrightarrow> lo \<le> unat r \<and> unat r < lo + unat (val_power v)))"
proof (induction vs arbitrary: c)
  case (Cons w vs)
  have c': "unat (sat_add c (val_power w)) = unat c + unat (val_power w)"
    using Cons.prems(1) by (simp add: unat_ops)
  show ?case
  proof (cases "v = w")
    case True
    have no: "pick_weighted vs d r \<noteq> Some (val_address v)" for d r
      using Cons.prems(2) True
      by (induction vs arbitrary: d) (auto simp: Let_def)
    show ?thesis
      by (rule exI [of _ "unat c"]) (auto simp: True no [unfolded True] c' word_less_nat_alt Let_def)
  next
    case False
    then have v: "v \<in> set vs" and ne: "val_address w \<noteq> val_address v"
      using Cons.prems by auto
    obtain lo where lo: "unat c + unat (val_power w) \<le> lo"
        "lo + unat (val_power v) \<le> unat c + unat (val_power w) + power_sum vs"
        "\<And>r. unat c + unat (val_power w) \<le> unat r \<Longrightarrow>
           (pick_weighted vs (sat_add c (val_power w)) r = Some (val_address v)
             \<longleftrightarrow> lo \<le> unat r \<and> unat r < lo + unat (val_power v))"
      using Cons.IH [of "sat_add c (val_power w)"] Cons.prems v c' by auto
    show ?thesis
      using lo ne by (intro exI [of _ lo]) (auto simp: c' word_less_nat_alt Let_def not_less)
  qed
qed simp

lemma pick_weighted_total:
  "unat c + power_sum vs < 2 ^ 64 \<Longrightarrow> unat c \<le> unat r \<Longrightarrow> unat r < unat c + power_sum vs \<Longrightarrow>
     \<exists>v \<in> set vs. pick_weighted vs c r = Some (val_address v) \<and> 0 < unat (val_power v)"
proof (induction vs arbitrary: c)
  case (Cons w vs)
  have c': "unat (sat_add c (val_power w)) = unat c + unat (val_power w)"
    using Cons.prems(1) by (simp add: unat_ops)
  then show ?case
    using Cons.IH [of "sat_add c (val_power w)"] Cons.prems
    by (auto simp: word_less_nat_alt Let_def not_less)
qed simp

lemma total_power_exact:
  "power_sum (active_validators vs) < 2 ^ 64
     \<Longrightarrow> unat (total_active_voting_power vs) = power_sum (active_validators vs)"
  by (simp add: total_active_voting_power_def fold_sat_power)

lemma select_leader_weighted_pick:
  assumes fits: "power_sum (active_validators vs) < 2 ^ 64"
    and pos: "0 < power_sum (active_validators vs)"
  shows "\<exists>v \<in> set (active_validators vs).
      select_leader_weighted cx vs view seed = Some (val_address v) \<and> 0 < unat (val_power v)
      \<and> pick_weighted (active_validators vs) 0
          (election_random cx view seed mod total_active_voting_power vs) = Some (val_address v)"
proof -
  let ?t = "total_active_voting_power vs" and ?a = "active_validators vs"
  have t: "unat ?t = power_sum ?a"
    using fits by (rule total_power_exact)
  then have t0: "?t \<noteq> 0"
    using pos by (metis less_nat_zero_code unat_0)
  have "unat (election_random cx view seed mod ?t) < power_sum ?a"
    using t pos by (simp add: unat_mod)
  then obtain v where "v \<in> set ?a" "0 < unat (val_power v)"
      "pick_weighted ?a 0 (election_random cx view seed mod ?t) = Some (val_address v)"
    using pick_weighted_total [of 0 ?a] fits by auto
  then show ?thesis
    using t0 by (auto simp: select_leader_weighted_def Let_def simp flip: total_active_voting_power_def)
qed

section \<open>Properties\<close>

text \<open>
  C15: the registration invariant. In every set reached from the empty one by registrations,
  removals, jailings, slashings and epoch rotations, entries are filed under their own address, each
  carries a BLS key with a proof of possession that verifies, no BLS key is registered twice (the
  rogue-key protection), every entry has stake, and \<open>total_stake\<close> is exactly the sum of the
  stakes.
\<close>

theorem vs_reachable_inv:
  assumes "(vs_step cx)\<^sup>*\<^sup>* vs_new vs"
  shows "vs_inv cx vs"
  using assms vs_new_inv by (rule vs_steps_inv)

definition sample_member :: "hash32 \<Rightarrow> u8 \<Rightarrow> u256 \<Rightarrow> validator" where
  "sample_member pk b units =
     (with_bls_pop (validator_new (from_public_key toy_crypto pk) pk (units * STAKE_UNIT))
       (replicate 48 b) (replicate 96 0))\<lparr>val_status := Active\<rparr>"

definition sample_one :: validator_set where
  "sample_one = \<lparr>vs_validators = [(from_public_key toy_crypto 1, sample_member 1 1 5)],
                vs_total_stake = 5 * STAKE_UNIT\<rparr>"

definition sample_set :: validator_set where
  "sample_set = \<lparr>vs_validators = [(from_public_key toy_crypto 2, sample_member 2 2 3),
                                 (from_public_key toy_crypto 1, sample_member 1 1 5)],
                vs_total_stake = 8 * STAKE_UNIT\<rparr>"

lemma sample_one_added: "add_validator toy_crypto vs_new (sample_member 1 1 5) = Ok sample_one"
  by code_simp

lemma sample_member_fields:
  "val_address (sample_member pk b n) = from_public_key toy_crypto pk"
  "val_stake (sample_member pk b n) = n * STAKE_UNIT"
  "val_bls_pubkey (sample_member pk b n) = Some (replicate 48 b)"
  "val_bls_pop (sample_member pk b n) = Some (replicate 96 0)"
  "val_power (sample_member pk b n) = calculate_voting_power (n * STAKE_UNIT)"
  "is_active (sample_member pk b n)"
  by (simp_all add: sample_member_def with_bls_pop_def validator_new_def is_active_def)

lemma sample_addresses: "from_public_key toy_crypto 1 \<noteq> from_public_key toy_crypto 2"
  by code_simp

lemma sample_set_inv: "vs_inv toy_crypto sample_set"
  using sample_addresses
  by (auto simp: vs_inv_def sample_set_def keys_unique_def entry_ok_def stake_sum_def
      sample_member_fields STAKE_UNIT_def toy_crypto_def split: if_splits)

theorem vs_reachable_inv_witness:
  "(vs_step toy_crypto)\<^sup>*\<^sup>* vs_new sample_one \<and> vs_inv toy_crypto sample_one"
proof -
  have "stake_sum (vs_validators sample_one) < 2 ^ 256"
    by (simp add: sample_one_def stake_sum_def sample_member_fields STAKE_UNIT_def)
  then have "(vs_step toy_crypto)\<^sup>*\<^sup>* vs_new sample_one"
    by (intro r_into_rtranclp vs_step_add [OF sample_one_added])
  then show ?thesis
    using vs_reachable_inv by blast
qed

text \<open>
  C27: nodes agree whatever the iteration order of their hash maps. Two sets with the same entries
  and stakes, iterated in any two orders, have the same hash, quorum threshold, total power and
  elected leader for every view and seed.
\<close>

theorem leader_order_independent:
  assumes "vs_inv cx vs" "mset (vs_validators vs) = mset (vs_validators vs')"
  shows "active_validators vs = active_validators vs' \<and> vs_hash cx vs = vs_hash cx vs'
    \<and> vs_quorum_threshold vs = vs_quorum_threshold vs'
    \<and> total_active_voting_power vs = total_active_voting_power vs'
    \<and> get_proposer cx vs view seed = get_proposer cx vs' view seed"
  using active_validators_perm [OF assms]
  by (simp add: vs_hash_def vs_quorum_threshold_def active_validator_count_def
      total_active_voting_power_def get_proposer_def select_leader_weighted_def
      leader_selection_def Let_def)

theorem leader_order_independent_witness:
  "let vs' = sample_set\<lparr>vs_validators := rev (vs_validators sample_set)\<rparr> in
   vs_validators sample_set \<noteq> vs_validators vs'
   \<and> get_proposer toy_crypto sample_set 7 9 = get_proposer toy_crypto vs' 7 9"
proof -
  let ?vs' = "sample_set\<lparr>vs_validators := rev (vs_validators sample_set)\<rparr>"
  have "vs_validators sample_set \<noteq> vs_validators ?vs'"
    using sample_addresses by (simp add: sample_set_def)
  then show ?thesis
    using leader_order_independent [OF sample_set_inv, of ?vs' 7 9] by (simp add: Let_def)
qed

text \<open>
  C22: the weighted election is proportional to stake. When the total power fits 64 bits and is not
  zero, the elected leader is the validator that \<open>pick_weighted\<close> assigns to the drawn residue;
  of the residues below the total, exactly as many elect a validator as it has voting power, so an
  active validator without power is never elected; and the leader is an active validator.
\<close>

theorem weighted_leader_fair:
  assumes "vs_inv cx vs" and fits: "power_sum (active_validators vs) < 2 ^ 64"
    and v: "v \<in> set (active_validators vs)" and pos: "0 < unat (val_power v)"
  shows "card {r. r < total_active_voting_power vs
              \<and> pick_weighted (active_validators vs) 0 r = Some (val_address v)} = unat (val_power v)
    \<and> (\<exists>w \<in> set (active_validators vs). 0 < unat (val_power w)
         \<and> get_proposer cx vs view seed = Some (val_address w)
         \<and> pick_weighted (active_validators vs) 0
             (election_random cx view seed mod total_active_voting_power vs) = Some (val_address w))"
proof
  let ?a = "active_validators vs"
  have "unat (val_power v) \<le> power_sum ?a"
    using v unfolding power_sum_def by (intro member_le_sum_list) auto
  then have pos': "0 < power_sum ?a"
    using pos by simp
  show "\<exists>w \<in> set ?a. 0 < unat (val_power w) \<and> get_proposer cx vs view seed = Some (val_address w)
         \<and> pick_weighted ?a 0 (election_random cx view seed mod total_active_voting_power vs)
           = Some (val_address w)"
    using select_leader_weighted_pick [OF fits pos'] unfolding get_proposer_def by blast
  obtain lo where lo: "lo + unat (val_power v) \<le> power_sum ?a"
      "\<And>r. pick_weighted ?a 0 r = Some (val_address v)
         \<longleftrightarrow> lo \<le> unat r \<and> unat r < lo + unat (val_power v)"
    using pick_weighted_interval [of 0 ?a v] fits v active_validators_distinct [OF assms(1)] by auto
  have "{r. r < total_active_voting_power vs \<and> pick_weighted ?a 0 r = Some (val_address v)}
        = {r. lo \<le> unat r \<and> unat r < lo + unat (val_power v)}"
    using lo total_power_exact [OF fits] by (auto simp: word_less_nat_alt)
  moreover have "card {r :: u64. lo \<le> unat r \<and> unat r < lo + unat (val_power v)} = unat (val_power v)"
    using lo(1) fits by (subst card_word_interval) auto
  ultimately show "card {r. r < total_active_voting_power vs
      \<and> pick_weighted ?a 0 r = Some (val_address v)} = unat (val_power v)"
    by simp
qed

lemma sample_powers:
  "unat (val_power (sample_member 1 1 5)) = 5" "unat (val_power (sample_member 2 2 3)) = 3"
  by (simp_all add: sample_member_fields unat_voting_power STAKE_UNIT_def)

lemma sample_active: "set (active_validators sample_set) = {sample_member 1 1 5, sample_member 2 2 3}"
  "power_sum (active_validators sample_set) = 8"
proof -
  have "mset (active_validators sample_set) = {#sample_member 1 1 5, sample_member 2 2 3#}"
    by (simp add: active_validators_def sample_set_def sample_member_fields)
  then show "set (active_validators sample_set) = {sample_member 1 1 5, sample_member 2 2 3}"
    and "power_sum (active_validators sample_set) = 8"
    using sample_powers
    by (auto simp: power_sum_def set_mset_mset [symmetric] sum_mset_sum_list [symmetric]
        simp del: set_mset_mset)
qed

theorem weighted_leader_fair_witness:
  "card {r. r < total_active_voting_power sample_set
            \<and> pick_weighted (active_validators sample_set) 0 r
              = Some (val_address (sample_member 1 1 5))} = 5
   \<and> get_proposer toy_crypto sample_set 7 9 \<noteq> None"
  using weighted_leader_fair [OF sample_set_inv, where v = "sample_member 1 1 5"
      and view = 7 and seed = 9] sample_active sample_powers by auto

end
