(* ===== verification/Votes.thy ===== *)
theory Votes
  imports ValidatorSet
begin

text \<open>
  Votes, quorum certificates and view-change certificates of the HotStuff engine
  (\<open>crates/consensus/src/hotstuff/vote.rs\<close>), with the quorum thresholds of
  \<open>crates/consensus/src/lib.rs\<close>.
\<close>

unbundle bit_operations_syntax

section \<open>Model\<close>

datatype vote_phase = Prepare | PreCommit | Commit

fun as_byte :: "vote_phase \<Rightarrow> u8" where
  "as_byte Prepare = 0"
| "as_byte PreCommit = 1"
| "as_byte Commit = 2"

fun next_phase :: "vote_phase \<Rightarrow> vote_phase option" where
  "next_phase Prepare = Some PreCommit"
| "next_phase PreCommit = Some Commit"
| "next_phase Commit = None"

record vote =
  vote_validator :: address
  vote_block_hash :: hash32
  vote_view :: u64
  vote_phase_of :: vote_phase
  vote_entropy_commit :: hash32
  vote_entropy_reveal :: "hash32 option"
  vote_signature :: sig64

definition vote_new_with_phase :: "address \<Rightarrow> hash32 \<Rightarrow> u64 \<Rightarrow> vote_phase \<Rightarrow> vote" where
  "vote_new_with_phase v h view ph =
     \<lparr>vote_validator = v, vote_block_hash = h, vote_view = view, vote_phase_of = ph,
      vote_entropy_commit = 0, vote_entropy_reveal = None, vote_signature = 0\<rparr>"

definition DOMAIN_CONSENSUS :: string where
  "DOMAIN_CONSENSUS = ''SXIAUM_CONSENSUS''"

definition vote_message_bytes :: "address \<Rightarrow> hash32 \<Rightarrow> u64 \<Rightarrow> vote_phase \<Rightarrow> bytes" where
  "vote_message_bytes v h view ph = be_bytes 32 v @ be_bytes 32 h @ le_bytes 8 view @ [as_byte ph]"

definition vote_signing_message ::
  "crypto \<Rightarrow> address \<Rightarrow> hash32 \<Rightarrow> u64 \<Rightarrow> vote_phase \<Rightarrow> hash32" where
  "vote_signing_message cx v h view ph =
     domain_hash cx DOMAIN_CONSENSUS (vote_message_bytes v h view ph)"

definition signing_message :: "crypto \<Rightarrow> vote \<Rightarrow> hash32" where
  "signing_message cx v =
     vote_signing_message cx (vote_validator v) (vote_block_hash v) (vote_view v) (vote_phase_of v)"

definition vote_verify_signature :: "crypto \<Rightarrow> vote \<Rightarrow> validator \<Rightarrow> (bool, validator_bail) result" where
  "vote_verify_signature cx v val =
     verify_signature cx val (be_bytes 32 (signing_message cx v)) (vote_signature v)"

definition bls_qc_signing_message :: "hash32 \<Rightarrow> u64 \<Rightarrow> vote_phase \<Rightarrow> bytes" where
  "bls_qc_signing_message h view ph = be_bytes 32 h @ le_bytes 8 view @ [as_byte ph]"

record quorum_certificate =
  qc_block_hash :: hash32
  qc_view :: u64
  qc_phase :: vote_phase
  qc_entropy :: hash32
  qc_signatures :: "bytes list"
  qc_validators :: "address list"

definition qc_new_with_phase ::
  "hash32 \<Rightarrow> u64 \<Rightarrow> vote_phase \<Rightarrow> bytes list \<Rightarrow> address list \<Rightarrow> quorum_certificate" where
  "qc_new_with_phase h view ph sigs vals =
     \<lparr>qc_block_hash = h, qc_view = view, qc_phase = ph, qc_entropy = 0, qc_signatures = sigs,
      qc_validators = vals\<rparr>"

definition find_validator :: "validator list \<Rightarrow> address \<Rightarrow> validator option" where
  "find_validator vals a = List.find (\<lambda>v. val_address v = a) vals"

fun qc_verify_loop ::
  "crypto \<Rightarrow> quorum_certificate \<Rightarrow> validator list \<Rightarrow> (address \<times> bytes) list \<Rightarrow> address list \<Rightarrow> bool" where
  "qc_verify_loop cx qc vals [] seen = True"
| "qc_verify_loop cx qc vals ((a, sig) # rest) seen =
     (if a \<in> set seen then False
      else case find_validator vals a of
          None \<Rightarrow> False
        | Some v \<Rightarrow>
            (if length sig \<noteq> 64 then False
             else
               (case verify_signature cx v
                       (be_bytes 32 (vote_signing_message cx a (qc_block_hash qc) (qc_view qc) (qc_phase qc)))
                       (of_be_bytes sig) of
                  Ok True \<Rightarrow> qc_verify_loop cx qc vals rest (a # seen)
                | _ \<Rightarrow> False)))"

definition qc_verify :: "crypto \<Rightarrow> quorum_certificate \<Rightarrow> validator list \<Rightarrow> nat \<Rightarrow> bool" where
  "qc_verify cx qc vals threshold =
     (if length (qc_signatures qc) \<noteq> length (qc_validators qc) then False
      else if length (qc_validators qc) < threshold then False
      else qc_verify_loop cx qc vals (zip (qc_validators qc) (qc_signatures qc)) [])"

fun signer_power :: "validator list \<Rightarrow> address list \<Rightarrow> u64 \<Rightarrow> u64 option" where
  "signer_power vals [] acc = Some acc"
| "signer_power vals (a # as) acc =
     (case find_validator vals a of
        None \<Rightarrow> None
      | Some v \<Rightarrow> signer_power vals as (sat_add acc (val_power v)))"

definition qc_verify_with_voting_power ::
  "crypto \<Rightarrow> quorum_certificate \<Rightarrow> validator list \<Rightarrow> nat \<Rightarrow> u64 \<Rightarrow> bool" where
  "qc_verify_with_voting_power cx qc vals threshold required =
     (if \<not> qc_verify cx qc vals threshold then False
      else case signer_power vals (qc_validators qc) 0 of
          None \<Rightarrow> False
        | Some p \<Rightarrow> required \<le> p)"

definition qc_is_genesis :: "quorum_certificate \<Rightarrow> bool" where
  "qc_is_genesis qc = (qc_block_hash qc = 0 \<and> qc_view qc = 0 \<and> qc_validators qc = [])"

definition verify_bls_aggregate_signature ::
  "crypto \<Rightarrow> quorum_certificate \<Rightarrow> bytes list \<Rightarrow> (bool, unit) result" where
  "verify_bls_aggregate_signature cx qc pks =
     (if length pks \<noteq> length (qc_validators qc) then Ok False
      else if \<not> distinct (qc_validators qc) then Ok False
      else if length (qc_signatures qc) \<noteq> length (qc_validators qc) then Ok False
      else case cx_bls_agg cx pks (qc_signatures qc)
                  (bls_qc_signing_message (qc_block_hash qc) (qc_view qc) (qc_phase qc)) of
          None \<Rightarrow> Err ()
        | Some b \<Rightarrow> Ok b)"

text \<open>
  The walk over the signers of an aggregate: unknown signer, signer without a BLS key (the caller
  falls back to Ed25519), or the saturated power and the keys.
\<close>

datatype bls_walk = UnknownSigner | NoBlsKey | Collected u64 "bytes list"

fun collect_bls :: "validator list \<Rightarrow> address list \<Rightarrow> u64 \<Rightarrow> bytes list \<Rightarrow> bls_walk" where
  "collect_bls vals [] acc pks = Collected acc pks"
| "collect_bls vals (a # as) acc pks =
     (case find_validator vals a of
        None \<Rightarrow> UnknownSigner
      | Some v \<Rightarrow>
          (case val_bls_pubkey v of
             Some pk \<Rightarrow> collect_bls vals as (sat_add acc (val_power v)) (pks @ [pk])
           | None \<Rightarrow> NoBlsKey))"

definition verify_bls_with_voting_power ::
  "crypto \<Rightarrow> quorum_certificate \<Rightarrow> validator list \<Rightarrow> nat \<Rightarrow> u64 \<Rightarrow> (bool, unit) result" where
  "verify_bls_with_voting_power cx qc vals threshold required =
     (if qc_signatures qc = [] \<or> length (hd (qc_signatures qc)) = 64
      then Ok (qc_verify_with_voting_power cx qc vals threshold required)
      else if length (qc_signatures qc) \<noteq> length (qc_validators qc) then Ok False
      else if \<not> distinct (qc_validators qc) then Ok False
      else case collect_bls vals (qc_validators qc) 0 [] of
          UnknownSigner \<Rightarrow> Ok False
        | NoBlsKey \<Rightarrow> Ok (qc_verify_with_voting_power cx qc vals threshold required)
        | Collected p pks \<Rightarrow>
            (if p < required \<or> length (qc_validators qc) < threshold then Ok False
             else if pks = [] then Ok (qc_is_genesis qc)
             else verify_bls_aggregate_signature cx qc pks))"

definition validator_bitmap :: "quorum_certificate \<Rightarrow> bytes" where
  "validator_bitmap qc =
     (let n = length (qc_validators qc) in
      fold (\<lambda>i bm. bm[i div 8 := bm ! (i div 8) OR push_bit (i mod 8) 1]) [0..<n]
        (replicate ((n + 7) div 8) 0))"

text \<open>Timeout votes and the certificate that justifies a view change.\<close>

record timeout_vote =
  tv_validator :: address
  tv_view :: u64
  tv_highest_qc :: "quorum_certificate option"
  tv_signature :: sig64

record view_change_certificate =
  vcc_view :: u64
  vcc_new_view :: u64
  vcc_timeout_votes :: "timeout_vote list"
  vcc_aggregated_signature :: "bytes option"

definition tv_signing_message :: "crypto \<Rightarrow> timeout_vote \<Rightarrow> hash32" where
  "tv_signing_message cx t =
     domain_hash cx DOMAIN_CONSENSUS
       (be_bytes 32 (tv_validator t) @ le_bytes 8 (tv_view t)
        @ (case tv_highest_qc t of
             None \<Rightarrow> []
           | Some qc \<Rightarrow> be_bytes 32 (qc_block_hash qc) @ le_bytes 8 (qc_view qc)))"

definition tv_verify_signature ::
  "crypto \<Rightarrow> timeout_vote \<Rightarrow> validator \<Rightarrow> (bool, validator_bail) result" where
  "tv_verify_signature cx t v = verify_signature cx v (be_bytes 32 (tv_signing_message cx t)) (tv_signature t)"

definition vcc_new :: "u64 \<Rightarrow> u64 \<Rightarrow> view_change_certificate" where
  "vcc_new view new_view =
     \<lparr>vcc_view = view, vcc_new_view = new_view, vcc_timeout_votes = [], vcc_aggregated_signature = None\<rparr>"

definition add_timeout_vote :: "view_change_certificate \<Rightarrow> timeout_vote \<Rightarrow> view_change_certificate" where
  "add_timeout_vote c t = c\<lparr>vcc_timeout_votes := vcc_timeout_votes c @ [t]\<rparr>"

definition vcc_has_quorum :: "view_change_certificate \<Rightarrow> nat \<Rightarrow> bool" where
  "vcc_has_quorum c threshold = (threshold \<le> length (vcc_timeout_votes c))"

fun vcc_verify_loop ::
  "crypto \<Rightarrow> validator list \<Rightarrow> timeout_vote list \<Rightarrow> address list \<Rightarrow> (bool, validator_bail) result" where
  "vcc_verify_loop cx vals [] seen = Ok True"
| "vcc_verify_loop cx vals (t # ts) seen =
     (if tv_validator t \<in> set seen then Ok False
      else case find_validator vals (tv_validator t) of
          None \<Rightarrow> Ok False
        | Some v \<Rightarrow>
            (case tv_verify_signature cx t v of
               Err e \<Rightarrow> Err e
             | Ok False \<Rightarrow> Ok False
             | Ok True \<Rightarrow> vcc_verify_loop cx vals ts (tv_validator t # seen)))"

definition vcc_verify ::
  "crypto \<Rightarrow> view_change_certificate \<Rightarrow> validator list \<Rightarrow> nat \<Rightarrow> (bool, validator_bail) result" where
  "vcc_verify cx c vals threshold =
     (if length (vcc_timeout_votes c) < threshold then Ok False
      else vcc_verify_loop cx vals (vcc_timeout_votes c) [])"

definition vcc_max_qc_view :: "view_change_certificate \<Rightarrow> u64" where
  "vcc_max_qc_view c =
     foldr max (List.map_filter (\<lambda>t. map_option qc_view (tv_highest_qc t)) (vcc_timeout_votes c)) 0"

definition vcc_select_proposer ::
  "crypto \<Rightarrow> view_change_certificate \<Rightarrow> validator list \<Rightarrow> address option" where
  "vcc_select_proposer cx c vals =
     (let active = filter is_active vals in
      if active = [] then None
      else
        (let r = (of_le_bytes (take 8 (be_bytes 32 (cx_sha256 cx
                    (le_bytes 8 (vcc_max_qc_view c) @ le_bytes 8 (vcc_new_view c))))) :: u64) in
         Some (val_address (active ! (unat r mod length active)))))"

section \<open>The vote collector\<close>

type_synonym vote_key = "u64 \<times> hash32 \<times> vote_phase"

record vote_collector =
  vc_votes :: "vote_key \<Rightarrow> vote list option"
  vc_validator_votes :: "u64 \<times> vote_phase \<times> address \<Rightarrow> hash32 option"

datatype vote_error =
    DoubleVoting address u64 vote_phase
  | RevealWithoutCommit
  | RevealMismatch
  | MissingReveal

definition vc_new :: vote_collector where
  "vc_new = \<lparr>vc_votes = Map.empty, vc_validator_votes = Map.empty\<rparr>"

definition get_voted_hash_for_phase ::
  "vote_collector \<Rightarrow> u64 \<Rightarrow> vote_phase \<Rightarrow> address \<Rightarrow> hash32 option" where
  "get_voted_hash_for_phase c view ph a = vc_validator_votes c (view, ph, a)"

definition get_validator_vote_for_phase ::
  "vote_collector \<Rightarrow> u64 \<Rightarrow> vote_phase \<Rightarrow> address \<Rightarrow> vote option" where
  "get_validator_vote_for_phase c view ph a =
     (case vc_validator_votes c (view, ph, a) of
        None \<Rightarrow> None
      | Some h \<Rightarrow>
          (case vc_votes c (view, h, ph) of
             None \<Rightarrow> None
           | Some vs \<Rightarrow> List.find (\<lambda>v. vote_validator v = a) vs))"

definition check_reveal :: "crypto \<Rightarrow> vote_collector \<Rightarrow> vote \<Rightarrow> (unit, vote_error) result" where
  "check_reveal cx c v =
     (if vote_phase_of v = Prepare then Ok ()
      else case get_validator_vote_for_phase c (vote_view v) Prepare (vote_validator v) of
          None \<Rightarrow> Ok ()
        | Some prep \<Rightarrow>
            (if vote_entropy_commit prep = 0 then
               (case vote_entropy_reveal v of Some _ \<Rightarrow> Err RevealWithoutCommit | None \<Rightarrow> Ok ())
             else case vote_entropy_reveal v of
                 Some r \<Rightarrow>
                   (if cx_sha256 cx (be_bytes 32 r) \<noteq> vote_entropy_commit prep then Err RevealMismatch
                    else Ok ())
               | None \<Rightarrow> Err MissingReveal))"

definition add_vote :: "crypto \<Rightarrow> vote_collector \<Rightarrow> vote \<Rightarrow> (vote_collector, vote_error) result" where
  "add_vote cx c v =
     (let vkey = (vote_view v, vote_phase_of v, vote_validator v);
          key = (vote_view v, vote_block_hash v, vote_phase_of v) in
      if (case vc_validator_votes c vkey of Some h \<Rightarrow> h \<noteq> vote_block_hash v | None \<Rightarrow> False)
      then Err (DoubleVoting (vote_validator v) (vote_view v) (vote_phase_of v))
      else case check_reveal cx c v of
          Err e \<Rightarrow> Err e
        | Ok _ \<Rightarrow>
            (let entry = (case vc_votes c key of Some vs \<Rightarrow> vs | None \<Rightarrow> []);
                 entry' = (if list_ex (\<lambda>x. vote_validator x = vote_validator v) entry then entry
                           else entry @ [v]) in
             Ok (c\<lparr>vc_votes := (vc_votes c)(key \<mapsto> entry'),
                   vc_validator_votes := (vc_validator_votes c)(vkey \<mapsto> vote_block_hash v)\<rparr>)))"

definition vote_count_for_phase :: "vote_collector \<Rightarrow> u64 \<Rightarrow> hash32 \<Rightarrow> vote_phase \<Rightarrow> nat" where
  "vote_count_for_phase c view h ph =
     (case vc_votes c (view, h, ph) of Some vs \<Rightarrow> length vs | None \<Rightarrow> 0)"

definition has_quorum_for_phase ::
  "vote_collector \<Rightarrow> u64 \<Rightarrow> hash32 \<Rightarrow> vote_phase \<Rightarrow> nat \<Rightarrow> bool" where
  "has_quorum_for_phase c view h ph threshold = (threshold \<le> vote_count_for_phase c view h ph)"

definition aggregate_signatures_for_phase ::
  "vote_collector \<Rightarrow> u64 \<Rightarrow> hash32 \<Rightarrow> vote_phase \<Rightarrow> (address \<times> sig64) list" where
  "aggregate_signatures_for_phase c view h ph =
     (case vc_votes c (view, h, ph) of
        Some vs \<Rightarrow> map (\<lambda>v. (vote_validator v, vote_signature v)) vs
      | None \<Rightarrow> [])"

definition fold_entropy :: "vote list \<Rightarrow> hash32" where
  "fold_entropy vs =
     fold (\<lambda>v acc. case vote_entropy_reveal v of Some r \<Rightarrow> acc XOR r | None \<Rightarrow> acc) vs 0"

definition build_quorum_certificate_for_phase ::
  "vote_collector \<Rightarrow> u64 \<Rightarrow> hash32 \<Rightarrow> vote_phase \<Rightarrow> nat \<Rightarrow> quorum_certificate option" where
  "build_quorum_certificate_for_phase c view h ph threshold =
     (if \<not> has_quorum_for_phase c view h ph threshold then None
      else case vc_votes c (view, h, ph) of
          None \<Rightarrow> None
        | Some vs \<Rightarrow>
            Some \<lparr>qc_block_hash = h, qc_view = view, qc_phase = ph, qc_entropy = fold_entropy vs,
                  qc_signatures = map (\<lambda>v. be_bytes 64 (vote_signature v)) vs,
                  qc_validators = map vote_validator vs\<rparr>)"

definition vc_prune :: "vote_collector \<Rightarrow> u64 \<Rightarrow> vote_collector" where
  "vc_prune c min_view =
     c\<lparr>vc_votes := (\<lambda>k. if min_view \<le> fst k then vc_votes c k else None),
       vc_validator_votes := (\<lambda>k. if min_view \<le> fst k then vc_validator_votes c k else None)\<rparr>"

section \<open>Quorum sizes\<close>

definition quorum_of :: "nat \<Rightarrow> nat" where
  "quorum_of n = (if n = 0 then 0 else n * 2 div 3 + 1)"

definition required_quorum_voting_power :: "validator_set \<Rightarrow> u64" where
  "required_quorum_voting_power vs =
     (let t = total_active_voting_power vs in
      if t = 0 then 0
      else let q = (ucast t :: 128 word) * 2 div 3 + 1 in
        if q \<le> ucast (- 1 :: u64) then ucast q else - 1)"

section \<open>Quorum intersection\<close>

text \<open>
  A threshold function is a supermajority when it asks for more than two thirds of the total weight.
  Any two groups that reach it share members of more than a third of the weight.
\<close>

locale supermajority =
  fixes threshold :: "nat \<Rightarrow> nat"
  assumes two_thirds: "0 < n \<Longrightarrow> 2 * n < 3 * threshold n"
begin

lemma intersection_weight:
  fixes w :: "'a \<Rightarrow> nat"
  assumes S: "finite S" "A \<subseteq> S" "B \<subseteq> S" and pos: "0 < sum w S"
    and A: "threshold (sum w S) \<le> sum w A" and B: "threshold (sum w S) \<le> sum w B"
  shows "sum w S < 3 * sum w (A \<inter> B)"
proof -
  have fin: "finite A" "finite B"
    using S finite_subset by auto
  have "sum w A + sum w B = sum w (A \<union> B) + sum w (A \<inter> B)"
    using fin by (rule sum.union_inter [symmetric])
  moreover have "sum w (A \<union> B) \<le> sum w S"
    using S by (intro sum_mono2) auto
  ultimately show ?thesis
    using A B two_thirds [OF pos] by linarith
qed

lemma intersection_card:
  assumes "finite S" "A \<subseteq> S" "B \<subseteq> S" "S \<noteq> {}"
    and "threshold (card S) \<le> card A" "threshold (card S) \<le> card B"
  shows "card S < 3 * card (A \<inter> B)"
  using intersection_weight [of S A B "\<lambda>_. 1"] assms by (simp add: card_gt_0_iff)

end

interpretation two_thirds_plus_one: supermajority quorum_of
proof
  fix n :: nat
  assume "0 < n"
  moreover have "2 * n < 3 * (n * 2 div 3 + 1)"
    by presburger
  ultimately show "2 * n < 3 * quorum_of n"
    by (simp add: quorum_of_def)
qed

lemma vs_quorum_threshold_eq: "vs_quorum_threshold vs = quorum_of (length (active_validators vs))"
  by (simp add: vs_quorum_threshold_def quorum_of_def active_validator_count_def Let_def)

lemma quorum_of_bound: "quorum_of n \<le> n"
  unfolding quorum_of_def by presburger

lemma unat_u128_of_u64: "unat (ucast (x :: u64) :: 128 word) = unat x"
  by transfer simp

lemma unat_u64_of_u128: "unat (x :: 128 word) < 2 ^ 64 \<Longrightarrow> unat (ucast x :: u64) = unat x"
  by transfer (simp add: nat_mod_distrib take_bit_eq_mod)

lemma unat_required_power:
  "unat (required_quorum_voting_power vs) = quorum_of (unat (total_active_voting_power vs))"
proof (cases "total_active_voting_power vs = 0")
  case True
  then show ?thesis by (simp add: required_quorum_voting_power_def quorum_of_def)
next
  case False
  let ?t = "total_active_voting_power vs"
  define q where "q = (ucast ?t :: 128 word) * 2 div 3 + 1"
  have t: "unat (ucast ?t :: 128 word) = unat ?t"
    by (rule unat_u128_of_u64)
  have pos: "0 < unat ?t"
    using False by (simp add: unat_gt_0)
  have lt: "unat ?t < 2 ^ 64"
    using unat_bound [of ?t] by simp
  have "unat ((ucast ?t :: 128 word) * 2) = unat ?t * 2"
    using lt by (subst unat_mul_exact) (simp_all add: t)
  then have "unat ((ucast ?t :: 128 word) * 2 div 3) = unat ?t * 2 div 3"
    by (simp add: unat_div)
  then have q: "unat q = quorum_of (unat ?t)"
    using lt pos unfolding q_def by (subst unat_add_exact) (simp_all add: quorum_of_def)
  then have q64: "unat q < 2 ^ 64"
    using quorum_of_bound [of "unat ?t"] lt by linarith
  have "unat (ucast (- 1 :: u64) :: 128 word) = unat (- 1 :: u64)"
    by (rule unat_u128_of_u64)
  then have "q \<le> ucast (- 1 :: u64)"
    using q64 by (simp only: word_le_nat_alt unat_ops) simp
  moreover have "unat (ucast q :: u64) = unat q"
    using q64 by (rule unat_u64_of_u128)
  ultimately show ?thesis
    using False q by (simp add: required_quorum_voting_power_def Let_def flip: q_def)
qed

section \<open>Certificates\<close>

lemma find_validator_SomeD:
  "find_validator vals a = Some v \<Longrightarrow> v \<in> set vals \<and> val_address v = a"
  unfolding find_validator_def by (drule find_Some_iff_set) simp

lemma find_validator_None: "find_validator vals a = None \<longleftrightarrow> a \<notin> val_address ` set vals"
  unfolding find_validator_def find_None_iff by auto

lemma find_validator_distinct:
  assumes "distinct (map val_address vals)" "v \<in> set vals"
  shows "find_validator vals (val_address v) = Some v"
proof (cases "find_validator vals (val_address v)")
  case None
  then show ?thesis using assms(2) by (simp add: find_validator_None)
next
  case (Some w)
  then show ?thesis
    using find_validator_SomeD [OF Some] assms by (metis distinct_map inj_onD)
qed

text \<open>An accepted signature of a known validator on the certificate's vote message.\<close>

definition qc_signed :: "crypto \<Rightarrow> quorum_certificate \<Rightarrow> validator list \<Rightarrow> address \<Rightarrow> bool" where
  "qc_signed cx qc vals a \<longleftrightarrow> (\<exists>v sig. find_validator vals a = Some v
     \<and> verify_signature cx v
         (be_bytes 32 (vote_signing_message cx a (qc_block_hash qc) (qc_view qc) (qc_phase qc))) sig
       = Ok True)"

lemma qc_verify_loop_sound:
  "qc_verify_loop cx qc vals zs seen \<Longrightarrow>
     distinct (map fst zs) \<and> set (map fst zs) \<inter> set seen = {}
     \<and> (\<forall>a \<in> set (map fst zs). qc_signed cx qc vals a)"
proof (induction zs arbitrary: seen)
  case (Cons z zs)
  obtain a sig where z: "z = (a, sig)" by (cases z)
  obtain v where v: "find_validator vals a = Some v" "a \<notin> set seen"
      "verify_signature cx v (be_bytes 32 (vote_signing_message cx a (qc_block_hash qc) (qc_view qc)
         (qc_phase qc))) (of_be_bytes sig) = Ok True"
      "qc_verify_loop cx qc vals zs (a # seen)"
    using Cons.prems by (auto simp: z split: if_splits option.splits result.splits bool.splits)
  have "qc_signed cx qc vals a"
    using v unfolding qc_signed_def by blast
  then show ?case
    using Cons.IH [OF v(4)] v(2) by (auto simp: z)
qed simp

lemma qc_verify_sound:
  assumes "qc_verify cx qc vals threshold"
  shows "distinct (qc_validators qc)" "threshold \<le> length (qc_validators qc)"
    "\<forall>a \<in> set (qc_validators qc). qc_signed cx qc vals a"
proof -
  have len: "length (qc_validators qc) = length (qc_signatures qc)"
    and "\<not> length (qc_validators qc) < threshold"
    and loop: "qc_verify_loop cx qc vals (zip (qc_validators qc) (qc_signatures qc)) []"
    using assms by (auto simp: qc_verify_def split: if_splits)
  then show "threshold \<le> length (qc_validators qc)" by simp
  show "distinct (qc_validators qc)" "\<forall>a \<in> set (qc_validators qc). qc_signed cx qc vals a"
    using qc_verify_loop_sound [OF loop] len by (simp_all add: map_fst_zip)
qed

lemma qc_verify_loop_complete:
  "distinct (map fst zs) \<Longrightarrow> set (map fst zs) \<inter> set seen = {} \<Longrightarrow>
   (\<And>a sig. (a, sig) \<in> set zs \<Longrightarrow> length sig = 64 \<and> (\<exists>v. find_validator vals a = Some v
       \<and> verify_signature cx v (be_bytes 32 (vote_signing_message cx a (qc_block_hash qc) (qc_view qc)
           (qc_phase qc))) (of_be_bytes sig) = Ok True)) \<Longrightarrow>
   qc_verify_loop cx qc vals zs seen"
proof (induction zs arbitrary: seen)
  case (Cons z zs)
  obtain a sig where z: "z = (a, sig)" by (cases z)
  obtain v where "length sig = 64" "find_validator vals a = Some v"
      "verify_signature cx v (be_bytes 32 (vote_signing_message cx a (qc_block_hash qc) (qc_view qc)
         (qc_phase qc))) (of_be_bytes sig) = Ok True"
    using Cons.prems(3) [of a sig] by (auto simp: z)
  then show ?case
    using Cons.IH [of "a # seen"] Cons.prems by (auto simp: z)
qed simp

lemma signer_power_sum:
  "signer_power vals as acc = Some p \<Longrightarrow>
     set as \<subseteq> val_address ` set vals
     \<and> unat p = min (unat acc + (\<Sum>a\<leftarrow>as. case find_validator vals a of Some v \<Rightarrow> unat (val_power v) | None \<Rightarrow> 0)) (2 ^ 64 - 1)"
proof (induction as arbitrary: acc)
  case Nil
  then show ?case using u64_le_max [of p] by simp
next
  case (Cons a as)
  then obtain v where v: "find_validator vals a = Some v"
      "signer_power vals as (sat_add acc (val_power v)) = Some p"
    by (auto split: option.splits)
  then show ?case
    using Cons.IH [OF v(2)] find_validator_SomeD [OF v(1)] by (auto simp: unat_ops)
qed

lemma collect_bls_Collected:
  "collect_bls vals as acc pks = Collected p pks' \<Longrightarrow>
     signer_power vals as acc = Some p \<and> length pks' = length pks + length as"
  by (induction as arbitrary: acc pks) (auto split: option.splits)

text \<open>What acceptance of a certificate means on every path, Ed25519 or aggregate.\<close>

lemma verify_bls_sound:
  assumes "verify_bls_with_voting_power cx qc vals threshold required = Ok True"
  shows "distinct (qc_validators qc) \<and> threshold \<le> length (qc_validators qc)
    \<and> (\<exists>p. signer_power vals (qc_validators qc) 0 = Some p \<and> required \<le> p)"
proof -
  have ed: ?thesis if "qc_verify_with_voting_power cx qc vals threshold required"
    using that qc_verify_sound [of cx qc vals threshold]
    by (auto simp: qc_verify_with_voting_power_def split: if_splits option.splits)
  show ?thesis
  proof (cases "qc_signatures qc = [] \<or> length (hd (qc_signatures qc)) = 64")
    case True
    then show ?thesis using assms ed by (simp add: verify_bls_with_voting_power_def)
  next
    case False
    then show ?thesis
      using assms ed collect_bls_Collected [of vals "qc_validators qc" 0 "[]"]
      by (auto simp: verify_bls_with_voting_power_def split: if_splits bls_walk.splits)
  qed
qed

text \<open>The signers of an accepted certificate, as a set of active validators.\<close>

lemma power_of_active:
  assumes "vs_inv cx vs" "v \<in> set (active_validators vs)"
  shows "vs_voting_power vs (val_address v) = val_power v"
proof -
  obtain a where "(a, v) \<in> set (vs_validators vs)"
    using assms(2) by (auto simp: active_validators_def)
  then show ?thesis
    using vs_inv_entry [OF assms(1)] by (auto simp: vs_voting_power_def)
qed

lemma accepted_signers:
  assumes inv: "vs_inv cx vs" and fits: "power_sum (active_validators vs) < 2 ^ 64"
    and acc: "verify_bls_with_voting_power cx qc (active_validators vs) (vs_quorum_threshold vs)
                (required_quorum_voting_power vs) = Ok True"
  shows "set (qc_validators qc) \<subseteq> val_address ` set (active_validators vs)"
    and "quorum_of (length (active_validators vs)) \<le> card (set (qc_validators qc))"
    and "quorum_of (power_sum (active_validators vs))
           \<le> (\<Sum>a \<in> set (qc_validators qc). unat (vs_voting_power vs a))"
proof -
  let ?act = "active_validators vs"
  obtain p where p: "distinct (qc_validators qc)" "vs_quorum_threshold vs \<le> length (qc_validators qc)"
      "signer_power ?act (qc_validators qc) 0 = Some p" "required_quorum_voting_power vs \<le> p"
    using verify_bls_sound [OF acc] by blast
  show sub: "set (qc_validators qc) \<subseteq> val_address ` set ?act"
    using signer_power_sum [OF p(3)] by blast
  show "quorum_of (length ?act) \<le> card (set (qc_validators qc))"
    using p(1,2) by (simp add: vs_quorum_threshold_eq distinct_card)
  have pow: "(case find_validator ?act a of Some v \<Rightarrow> unat (val_power v) | None \<Rightarrow> 0)
      = unat (vs_voting_power vs a)" if "a \<in> set (qc_validators qc)" for a
    using that sub find_validator_distinct [OF active_validators_distinct [OF inv]]
      power_of_active [OF inv] by fastforce
  have "(\<Sum>a\<leftarrow>qc_validators qc. case find_validator ?act a of Some v \<Rightarrow> unat (val_power v) | None \<Rightarrow> 0)
      = (\<Sum>a \<in> set (qc_validators qc). unat (vs_voting_power vs a))"
    using p(1) pow by (simp add: sum_list_distinct_conv_sum_set cong: sum.cong)
  then have "unat p \<le> (\<Sum>a \<in> set (qc_validators qc). unat (vs_voting_power vs a))"
    using signer_power_sum [OF p(3)] by simp
  moreover have "quorum_of (power_sum ?act) \<le> unat p"
    using p(4) unat_required_power [of vs] total_power_exact [OF fits] by (simp add: word_le_nat_alt)
  ultimately show "quorum_of (power_sum ?act)
      \<le> (\<Sum>a \<in> set (qc_validators qc). unat (vs_voting_power vs a))"
    by linarith
qed

lemma active_power_sum:
  assumes "vs_inv cx vs"
  shows "power_sum (active_validators vs)
    = (\<Sum>a \<in> val_address ` set (active_validators vs). unat (vs_voting_power vs a))"
proof -
  let ?act = "active_validators vs"
  have d: "distinct (map val_address ?act)"
    using assms by (rule active_validators_distinct)
  then have "power_sum ?act = (\<Sum>v \<in> set ?act. unat (val_power v))"
    unfolding power_sum_def by (simp add: distinct_map sum_list_distinct_conv_sum_set)
  also have "\<dots> = (\<Sum>v \<in> set ?act. unat (vs_voting_power vs (val_address v)))"
    using power_of_active [OF assms] by (intro sum.cong) auto
  also have "\<dots> = (\<Sum>a \<in> val_address ` set ?act. unat (vs_voting_power vs a))"
    using d by (simp add: distinct_map sum.reindex)
  finally show ?thesis .
qed

section \<open>The collector's invariant\<close>

definition bucket_ok :: "vote_collector \<Rightarrow> vote_key \<Rightarrow> vote list \<Rightarrow> bool" where
  "bucket_ok c k vs \<longleftrightarrow> distinct (map vote_validator vs)
     \<and> (\<forall>v \<in> set vs. (vote_view v, vote_block_hash v, vote_phase_of v) = k
          \<and> vc_validator_votes c (vote_view v, vote_phase_of v, vote_validator v) = Some (vote_block_hash v))"

definition vc_inv :: "vote_collector \<Rightarrow> bool" where
  "vc_inv c \<longleftrightarrow> (\<forall>k vs. vc_votes c k = Some vs \<longrightarrow> bucket_ok c k vs)"

lemma bucket_ok_Nil [simp]: "bucket_ok c k []"
  by (simp add: bucket_ok_def)

inductive vc_step :: "crypto \<Rightarrow> vote_collector \<Rightarrow> vote_collector \<Rightarrow> bool" for cx where
  vc_step_add: "add_vote cx c v = Ok c' \<Longrightarrow> vc_step cx c c'"
| vc_step_prune: "vc_step cx c (vc_prune c m)"

lemma vc_inv_new: "vc_inv vc_new"
  by (simp add: vc_inv_def vc_new_def)

lemma add_vote_Ok:
  assumes "add_vote cx c v = Ok c'"
  shows "vc_validator_votes c (vote_view v, vote_phase_of v, vote_validator v) \<in> {None, Some (vote_block_hash v)}"
    and "\<exists>entry. c' = c\<lparr>vc_votes := (vc_votes c)((vote_view v, vote_block_hash v, vote_phase_of v) \<mapsto> 
            (if list_ex (\<lambda>x. vote_validator x = vote_validator v) entry then entry else entry @ [v])),
          vc_validator_votes := (vc_validator_votes c)
            ((vote_view v, vote_phase_of v, vote_validator v) \<mapsto> vote_block_hash v)\<rparr>
        \<and> entry = (case vc_votes c (vote_view v, vote_block_hash v, vote_phase_of v) of
            Some vs \<Rightarrow> vs | None \<Rightarrow> [])"
  using assms by (auto simp: add_vote_def Let_def split: if_splits result.splits option.splits)

lemma add_vote_inv:
  assumes inv: "vc_inv c" and add: "add_vote cx c v = Ok c'"
  shows "vc_inv c'"
proof -
  let ?key = "(vote_view v, vote_block_hash v, vote_phase_of v)"
  define entry where "entry = (case vc_votes c ?key of Some vs \<Rightarrow> vs | None \<Rightarrow> [])"
  define entry' where
    "entry' = (if list_ex (\<lambda>x. vote_validator x = vote_validator v) entry then entry else entry @ [v])"
  have c': "vc_votes c' = (vc_votes c)(?key \<mapsto> entry')"
      "vc_validator_votes c' = (vc_validator_votes c)
            ((vote_view v, vote_phase_of v, vote_validator v) \<mapsto> vote_block_hash v)"
    using add_vote_Ok(2) [OF add] by (auto simp: entry'_def entry_def)
  have keep: "bucket_ok c' k vs" if "bucket_ok c k vs" for k vs
    using that add_vote_Ok(1) [OF add] by (auto simp: bucket_ok_def c'(2))
  have "bucket_ok c ?key entry"
    using inv by (auto simp: entry_def vc_inv_def split: option.split)
  then have "bucket_ok c' ?key entry"
    by (rule keep)
  then have "bucket_ok c' ?key entry'"
    by (auto simp: bucket_ok_def entry'_def list_ex_iff c'(2))
  then show ?thesis
    using inv keep by (auto simp: vc_inv_def c'(1))
qed

lemma vc_prune_inv:
  assumes "vc_inv c"
  shows "vc_inv (vc_prune c m)"
proof -
  have "bucket_ok (vc_prune c m) k vs" if "bucket_ok c k vs" "m \<le> fst k" for k vs
    using that by (auto simp: bucket_ok_def vc_prune_def)
  then show ?thesis
    using assms by (auto simp: vc_inv_def vc_prune_def split: if_splits)
qed

lemma vc_reachable_inv: "(vc_step cx)\<^sup>*\<^sup>* vc_new c \<Longrightarrow> vc_inv c"
proof (induction rule: rtranclp_induct)
  case base
  show ?case by (rule vc_inv_new)
next
  case (step c d)
  from step(2,3) show ?case
    by (cases rule: vc_step.cases) (auto intro: add_vote_inv vc_prune_inv)
qed

lemma build_qc_fields:
  assumes "build_quorum_certificate_for_phase c view h ph threshold = Some qc"
  shows "\<exists>vs. vc_votes c (view, h, ph) = Some vs \<and> threshold \<le> length vs
     \<and> qc_block_hash qc = h \<and> qc_view qc = view \<and> qc_phase qc = ph
     \<and> qc_validators qc = map vote_validator vs
     \<and> qc_signatures qc = map (\<lambda>v. be_bytes 64 (vote_signature v)) vs"
  using assms
  by (auto simp: build_quorum_certificate_for_phase_def has_quorum_for_phase_def
      vote_count_for_phase_def split: if_splits option.splits)

section \<open>Properties\<close>

lemma qcs_intersect:
  assumes inv: "vs_inv cx vs" and fits: "power_sum (active_validators vs) < 2 ^ 64"
    and pos: "0 < power_sum (active_validators vs)"
    and qc1: "verify_bls_with_voting_power cx qc1 (active_validators vs) (vs_quorum_threshold vs)
                (required_quorum_voting_power vs) = Ok True"
    and qc2: "verify_bls_with_voting_power cx qc2 (active_validators vs) (vs_quorum_threshold vs)
                (required_quorum_voting_power vs) = Ok True"
  shows "active_validator_count vs < 3 * card (set (qc_validators qc1) \<inter> set (qc_validators qc2))
    \<and> power_sum (active_validators vs)
        < 3 * (\<Sum>a \<in> set (qc_validators qc1) \<inter> set (qc_validators qc2). unat (vs_voting_power vs a))"
proof
  let ?S = "val_address ` set (active_validators vs)"
  note s1 = accepted_signers [OF inv fits qc1] and s2 = accepted_signers [OF inv fits qc2]
  have card: "card ?S = length (active_validators vs)"
    using active_validators_distinct [OF inv] by (simp add: distinct_card flip: set_map)
  have "?S \<noteq> {}"
    using pos by auto
  then show "active_validator_count vs < 3 * card (set (qc_validators qc1) \<inter> set (qc_validators qc2))"
    using two_thirds_plus_one.intersection_card [of ?S "set (qc_validators qc1)" "set (qc_validators qc2)"]
      s1 s2 card by (simp add: active_validator_count_def)
  show "power_sum (active_validators vs)
      < 3 * (\<Sum>a \<in> set (qc_validators qc1) \<inter> set (qc_validators qc2). unat (vs_voting_power vs a))"
    using two_thirds_plus_one.intersection_weight [of ?S "set (qc_validators qc1)"
        "set (qc_validators qc2)" "\<lambda>a. unat (vs_voting_power vs a)"]
      s1 s2 pos active_power_sum [OF inv] by simp
qed

text \<open>
  C10: quorum intersection, the base of consensus safety. Any two certificates accepted against the
  same active validators with the node's thresholds (whether verified by Ed25519 signatures or by a
  BLS aggregate) share signers that are more than a third of the active validators in number and
  hold more than a third of the active voting power. So two conflicting certificates of one view and
  phase need that many validators to sign twice.
\<close>

theorem accepted_qcs_intersect:
  assumes inv: "vs_inv cx vs" and fits: "power_sum (active_validators vs) < 2 ^ 64"
    and pos: "0 < power_sum (active_validators vs)"
    and qc1: "verify_bls_with_voting_power cx qc1 (active_validators vs) (vs_quorum_threshold vs)
                (required_quorum_voting_power vs) = Ok True"
    and qc2: "verify_bls_with_voting_power cx qc2 (active_validators vs) (vs_quorum_threshold vs)
                (required_quorum_voting_power vs) = Ok True"
  shows "active_validator_count vs < 3 * card (set (qc_validators qc1) \<inter> set (qc_validators qc2))
    \<and> power_sum (active_validators vs)
        < 3 * (\<Sum>a \<in> set (qc_validators qc1) \<inter> set (qc_validators qc2). unat (vs_voting_power vs a))"
  using assms by (rule qcs_intersect)

definition sample_qc :: "hash32 \<Rightarrow> vote_phase \<Rightarrow> quorum_certificate" where
  "sample_qc h ph = qc_new_with_phase h 1 ph [replicate 64 0, replicate 64 0]
     [from_public_key toy_crypto 1, from_public_key toy_crypto 2]"

lemma toy_verify: "verify_signature toy_crypto v m sg = Ok True"
  by (simp add: verify_signature_def toy_crypto_def)

lemma sample_find:
  "find_validator (active_validators sample_set) (from_public_key toy_crypto 1) = Some (sample_member 1 1 5)"
  "find_validator (active_validators sample_set) (from_public_key toy_crypto 2) = Some (sample_member 2 2 3)"
  using find_validator_distinct [OF active_validators_distinct [OF sample_set_inv]] sample_active(1)
    sample_member_fields(1) by (metis insertCI)+

lemma sample_count: "length (active_validators sample_set) = 2"
  by (simp add: active_validators_def sample_set_def sample_member_fields)

lemma sample_qc_accepted:
  "verify_bls_with_voting_power toy_crypto (sample_qc h ph) (active_validators sample_set)
     (vs_quorum_threshold sample_set) (required_quorum_voting_power sample_set) = Ok True"
proof -
  let ?act = "active_validators sample_set"
  have v: "qc_verify toy_crypto (sample_qc h ph) ?act (vs_quorum_threshold sample_set)"
    using sample_addresses
    by (simp add: qc_verify_def sample_qc_def qc_new_with_phase_def vs_quorum_threshold_eq
        sample_count quorum_of_def sample_find toy_verify)
  obtain p where p: "signer_power ?act (qc_validators (sample_qc h ph)) 0 = Some p"
    by (simp add: sample_qc_def qc_new_with_phase_def sample_find)
  then have "unat p = 8"
    using signer_power_sum [OF p] sample_powers
    by (simp add: sample_qc_def qc_new_with_phase_def sample_find)
  moreover have "unat (required_quorum_voting_power sample_set) = 6"
    using unat_required_power [of sample_set] total_power_exact [of sample_set] sample_active(2)
    by (simp add: quorum_of_def)
  ultimately have "required_quorum_voting_power sample_set \<le> p"
    by (simp add: word_le_nat_alt)
  then have "qc_verify_with_voting_power toy_crypto (sample_qc h ph) ?act
      (vs_quorum_threshold sample_set) (required_quorum_voting_power sample_set)"
    using v p by (simp add: qc_verify_with_voting_power_def)
  then show ?thesis
    by (simp add: verify_bls_with_voting_power_def sample_qc_def qc_new_with_phase_def)
qed

theorem accepted_qcs_intersect_witness:
  "2 < 3 * card (set (qc_validators (sample_qc 10 Prepare)) \<inter> set (qc_validators (sample_qc 20 Prepare)))
   \<and> qc_block_hash (sample_qc 10 Prepare) \<noteq> qc_block_hash (sample_qc 20 Prepare)"
  using accepted_qcs_intersect [OF sample_set_inv _ _ sample_qc_accepted [of 10 Prepare] sample_qc_accepted [of 20 Prepare]]
    sample_active(2) sample_count
  by (simp add: active_validator_count_def) (simp add: sample_qc_def qc_new_with_phase_def)

text \<open>
  C18: one vote per validator, view and phase. In every collector reached by adding votes (duplicate,
  conflicting or with bad reveals, rejected as the code rejects them) and pruning, a validator is
  never counted for two blocks in the same view and phase, and never twice for one block.
\<close>

theorem collector_counts_once:
  assumes "(vc_step cx)\<^sup>*\<^sup>* vc_new c"
    and "vc_votes c (view, h1, ph) = Some vs1" "vc_votes c (view, h2, ph) = Some vs2" "h1 \<noteq> h2"
  shows "set (map vote_validator vs1) \<inter> set (map vote_validator vs2) = {}
    \<and> distinct (map vote_validator vs1) \<and> distinct (map vote_validator vs2)"
proof -
  have b: "bucket_ok c (view, h1, ph) vs1" "bucket_ok c (view, h2, ph) vs2"
    using vc_reachable_inv [OF assms(1)] assms(2,3) by (auto simp: vc_inv_def)
  then show ?thesis
    using assms(4) by (fastforce simp: bucket_ok_def)
qed

definition sample_vote :: "hash32 \<Rightarrow> hash32 \<Rightarrow> vote" where
  "sample_vote pk h = vote_new_with_phase (from_public_key toy_crypto pk) h 1 Prepare"

definition sample_collector :: vote_collector where
  "sample_collector = \<lparr>vc_votes = [(1, 10, Prepare) \<mapsto> [sample_vote 1 10], (1, 20, Prepare) \<mapsto> [sample_vote 2 20]],
     vc_validator_votes = [(1, Prepare, from_public_key toy_crypto 1) \<mapsto> 10,
                           (1, Prepare, from_public_key toy_crypto 2) \<mapsto> 20]\<rparr>"

lemmas vote_example_simps =
  add_vote_def check_reveal_def vc_new_def sample_vote_def sample_collector_def
  vote_new_with_phase_def

lemma sample_collector_reached: "(vc_step toy_crypto)\<^sup>*\<^sup>* vc_new sample_collector"
proof -
  obtain c where c: "add_vote toy_crypto vc_new (sample_vote 1 10) = Ok c"
      "add_vote toy_crypto c (sample_vote 2 20) = Ok sample_collector"
    using sample_addresses by (simp add: vote_example_simps)
  have "vc_step toy_crypto vc_new c" "vc_step toy_crypto c sample_collector"
    using c by (auto intro: vc_step_add)
  then show ?thesis by simp
qed

text \<open>The same validator voting for the second block is refused.\<close>

lemma sample_double_vote:
  "add_vote toy_crypto sample_collector (sample_vote 1 20)
   = Err (DoubleVoting (from_public_key toy_crypto 1) 1 Prepare)"
  using sample_addresses by (simp add: vote_example_simps)

theorem collector_counts_once_witness:
  "(10 :: hash32) \<noteq> 20
   \<and> set (map vote_validator [sample_vote 1 10]) \<inter> set (map vote_validator [sample_vote 2 20]) = {}"
  using collector_counts_once [OF sample_collector_reached, of 1 10 Prepare "[sample_vote 1 10]" 20
      "[sample_vote 2 20]"]
  by (simp add: sample_collector_def)

text \<open>
  C19: a certificate built from verified votes is accepted. When the votes collected for a block, view
  and phase come from known validators and their signatures verify (which is what the engine checks
  before it adds a vote), the certificate that the collector builds at its threshold passes
  \<open>QuorumCertificate::verify\<close> against those validators.
\<close>

theorem built_qc_verifies:
  assumes reach: "(vc_step cx)\<^sup>*\<^sup>* vc_new c"
    and qc: "build_quorum_certificate_for_phase c view h ph threshold = Some qc"
    and votes: "vc_votes c (view, h, ph) = Some vs"
    and ok: "\<And>v. v \<in> set vs \<Longrightarrow> \<exists>w. find_validator vals (vote_validator v) = Some w
                \<and> vote_verify_signature cx v w = Ok True"
  shows "qc_verify cx qc vals threshold"
proof -
  have b: "bucket_ok c (view, h, ph) vs"
    using vc_reachable_inv [OF reach] votes by (auto simp: vc_inv_def)
  have f: "threshold \<le> length vs" "qc_block_hash qc = h" "qc_view qc = view" "qc_phase qc = ph"
      "qc_validators qc = map vote_validator vs"
      "qc_signatures qc = map (\<lambda>v. be_bytes 64 (vote_signature v)) vs"
    using build_qc_fields [OF qc] votes by auto
  have z: "zip (qc_validators qc) (qc_signatures qc)
      = map (\<lambda>v. (vote_validator v, be_bytes 64 (vote_signature v))) vs"
    unfolding f by (induction vs) auto
  have "qc_verify_loop cx qc vals (zip (qc_validators qc) (qc_signatures qc)) []"
  proof (rule qc_verify_loop_complete)
    show "distinct (map fst (zip (qc_validators qc) (qc_signatures qc)))"
      using b by (simp add: z bucket_ok_def comp_def)
    fix a sig
    assume "(a, sig) \<in> set (zip (qc_validators qc) (qc_signatures qc))"
    then obtain v where v: "v \<in> set vs" "a = vote_validator v" "sig = be_bytes 64 (vote_signature v)"
      unfolding z by auto
    then obtain w where "find_validator vals a = Some w" "vote_verify_signature cx v w = Ok True"
      using ok by blast
    moreover have "vote_view v = view" "vote_block_hash v = h" "vote_phase_of v = ph"
      using b v(1) by (auto simp: bucket_ok_def)
    ultimately show "length sig = 64 \<and> (\<exists>w. find_validator vals a = Some w \<and> verify_signature cx w
        (be_bytes 32 (vote_signing_message cx a (qc_block_hash qc) (qc_view qc) (qc_phase qc)))
        (of_be_bytes sig) = Ok True)"
      using v by (auto simp: vote_verify_signature_def signing_message_def f of_be_bytes_be_bytes)
  qed simp
  then show ?thesis
    using f by (simp add: qc_verify_def)
qed

theorem built_qc_verifies_witness:
  "\<exists>qc. build_quorum_certificate_for_phase sample_collector 1 10 Prepare 1 = Some qc
        \<and> qc_verify toy_crypto qc [sample_member 1 1 5] 1"
proof -
  obtain qc where qc: "build_quorum_certificate_for_phase sample_collector 1 10 Prepare 1 = Some qc"
    by (simp add: build_quorum_certificate_for_phase_def has_quorum_for_phase_def
        vote_count_for_phase_def sample_collector_def)
  have "qc_verify toy_crypto qc [sample_member 1 1 5] 1"
    by (rule built_qc_verifies [OF sample_collector_reached qc, of "[sample_vote 1 10]"])
       (simp_all add: sample_collector_def sample_vote_def vote_new_with_phase_def find_validator_def
         sample_member_fields vote_verify_signature_def toy_verify)
  with qc show ?thesis by blast
qed

end
