(* ===== verification/Transactions.thy ===== *)
theory Transactions
  imports Validator
begin

text \<open>
  Transactions, logs and receipts (\<open>crates/types/src/transaction.rs\<close>). The bincode encoder, the RLP
  decoder of a raw Ethereum envelope and the secp256k1 key recovery are parameters, gathered in the
  record \<open>tx_env\<close>.
\<close>

unbundle bit_operations_syntax

section \<open>Model\<close>

definition SXIAUM_CHAIN_ID :: u64 where
  "SXIAUM_CHAIN_ID = 13689"

definition SECP256K1_N_DIV_2 :: u256 where
  "SECP256K1_N_DIV_2 = 0x7fffffffffffffffffffffffffffffff5d576e7357a4501ddfe92f46681b20a0"

definition MAX_TX_DATA_SIZE :: nat where
  "MAX_TX_DATA_SIZE = 131072"

definition MAX_TX_GAS_LIMIT :: u64 where
  "MAX_TX_GAS_LIMIT = 30000000"

definition MAX_LOG_TOPICS :: nat where
  "MAX_LOG_TOPICS = 4"

definition MAX_LOG_DATA_SIZE :: nat where
  "MAX_LOG_DATA_SIZE = 131072"

definition MAX_RECEIPT_LOGS :: nat where
  "MAX_RECEIPT_LOGS = 256"

record transaction =
  tx_from :: address
  tx_to :: "address option"
  tx_signer_pubkey :: "hash32 option"
  tx_value :: u256
  tx_nonce :: u64
  tx_gas_limit :: u64
  tx_gas_price :: u256
  tx_data :: bytes
  tx_signature :: "sig64 option"
  tx_chain_id :: "u64 option"
  tx_eth_y_parity :: "u8 option"
  tx_eth_sighash :: "hash32 option"
  tx_eth_tx_hash :: "hash32 option"
  tx_eth_raw :: "bytes option"

record eth_envelope =
  env_to :: "address option"
  env_value :: u256
  env_nonce :: u64
  env_gas_limit :: u64
  env_gas_price :: u256
  env_data :: bytes
  env_chain_id :: u64
  env_y_parity :: u8
  env_signature :: sig64
  env_sighash :: hash32
  env_tx_hash :: hash32

record tx_env =
  te_crypto :: crypto
  te_encode :: "transaction \<Rightarrow> bytes option"
  te_decode_eth :: "bytes \<Rightarrow> eth_envelope option"
  te_recover :: "sig64 \<Rightarrow> u8 \<Rightarrow> hash32 \<Rightarrow> bytes option"

datatype tx_error =
    BadRawEnvelope
  | EnvelopeFieldMismatch
  | EthChainIdMismatch
  | BadRecoveryId u8
  | MalleableSignature
  | RecoveryFailed
  | EncodeFailed
  | NoSignature
  | NoSignerKey
  | SenderMismatch address address
  | BadTxPublicKey
  | TxSignatureInvalid
  | ZeroGasLimit
  | GasLimitTooHigh
  | GasBelowIntrinsic
  | BadNonce u64 u64
  | ZeroGasPrice
  | DataTooLarge
  | EmptyDeployCode
  | BadChainId "u64 option"
  | PartialEthereumFields
  | MixedSignatureFields
  | MissingNativeSignature

definition unsigned_tx :: "address \<Rightarrow> address option \<Rightarrow> u256 \<Rightarrow> u64 \<Rightarrow> u64 \<Rightarrow> bytes \<Rightarrow> transaction" where
  "unsigned_tx from to value nonce gas data =
     \<lparr>tx_from = from, tx_to = to, tx_signer_pubkey = None, tx_value = value, tx_nonce = nonce,
      tx_gas_limit = gas, tx_gas_price = 1, tx_data = data, tx_signature = None,
      tx_chain_id = Some SXIAUM_CHAIN_ID, tx_eth_y_parity = None, tx_eth_sighash = None,
      tx_eth_tx_hash = None, tx_eth_raw = None\<rparr>"

definition new_transfer :: "address \<Rightarrow> address \<Rightarrow> u256 \<Rightarrow> u64 \<Rightarrow> transaction" where
  "new_transfer from to value nonce = unsigned_tx from (Some to) value nonce 210 []"

definition new_contract_call ::
  "address \<Rightarrow> address \<Rightarrow> u256 \<Rightarrow> u64 \<Rightarrow> bytes \<Rightarrow> transaction" where
  "new_contract_call from to value nonce data = unsigned_tx from (Some to) value nonce 1000 data"

definition new_contract_deploy :: "address \<Rightarrow> u256 \<Rightarrow> u64 \<Rightarrow> bytes \<Rightarrow> transaction" where
  "new_contract_deploy from value nonce code = unsigned_tx from None value nonce 10000 code"

definition is_evm_compatible :: "address \<Rightarrow> bool" where
  "is_evm_compatible a = (drop_bit 160 a = 0)"

definition recover_ethereum_sender_from_parts ::
  "tx_env \<Rightarrow> sig64 \<Rightarrow> u8 \<Rightarrow> hash32 \<Rightarrow> (address, tx_error) result" where
  "recover_ethereum_sender_from_parts te sg y sighash =
     (if 1 < y then Err (BadRecoveryId y)
      else if SECP256K1_N_DIV_2 < ucast sg then Err MalleableSignature
      else case te_recover te sg y sighash of
          None \<Rightarrow> Err RecoveryFailed
        | Some pk \<Rightarrow> Ok (take_bit 160 (cx_keccak (te_crypto te) pk)))"

definition recover_sender :: "tx_env \<Rightarrow> eth_envelope \<Rightarrow> (address, tx_error) result" where
  "recover_sender te e =
     recover_ethereum_sender_from_parts te (env_signature e) (env_y_parity e) (env_sighash e)"

definition is_ethereum_transaction :: "transaction \<Rightarrow> bool" where
  "is_ethereum_transaction t = (tx_eth_raw t \<noteq> None)"

definition envelope_matches :: "transaction \<Rightarrow> eth_envelope \<Rightarrow> address \<Rightarrow> bool" where
  "envelope_matches t e sender \<longleftrightarrow>
     tx_from t = sender \<and> tx_to t = env_to e \<and> tx_value t = env_value e \<and> tx_nonce t = env_nonce e
   \<and> tx_gas_limit t = env_gas_limit e \<and> tx_gas_price t = env_gas_price e \<and> tx_data t = env_data e
   \<and> tx_chain_id t = Some (env_chain_id e) \<and> tx_signature t = Some (env_signature e)
   \<and> tx_eth_y_parity t = Some (env_y_parity e) \<and> tx_eth_sighash t = Some (env_sighash e)
   \<and> tx_eth_tx_hash t = Some (env_tx_hash e) \<and> tx_signer_pubkey t = None"

definition verified_ethereum_envelope ::
  "tx_env \<Rightarrow> transaction \<Rightarrow> (eth_envelope, tx_error) result" where
  "verified_ethereum_envelope te t =
     (case tx_eth_raw t of
        None \<Rightarrow> Err BadRawEnvelope
      | Some raw \<Rightarrow>
          (case te_decode_eth te raw of
             None \<Rightarrow> Err BadRawEnvelope
           | Some e \<Rightarrow>
               (if env_chain_id e \<noteq> SXIAUM_CHAIN_ID then Err EthChainIdMismatch
                else case recover_sender te e of
                    Err x \<Rightarrow> Err x
                  | Ok sender \<Rightarrow>
                      (if envelope_matches t e sender then Ok e else Err EnvelopeFieldMismatch))))"

definition tx_hash :: "tx_env \<Rightarrow> transaction \<Rightarrow> (hash32, tx_error) result" where
  "tx_hash te t =
     (if is_ethereum_transaction t then
        (case verified_ethereum_envelope te t of Err x \<Rightarrow> Err x | Ok e \<Rightarrow> Ok (env_tx_hash e))
      else case te_encode te (t\<lparr>tx_signature := None\<rparr>) of
          None \<Rightarrow> Err EncodeFailed
        | Some bs \<Rightarrow> Ok (cx_sha256 (te_crypto te) bs))"

definition tx_verify_signature :: "tx_env \<Rightarrow> transaction \<Rightarrow> (bool, tx_error) result" where
  "tx_verify_signature te t =
     (if is_ethereum_transaction t then
        (case verified_ethereum_envelope te t of
           Err x \<Rightarrow> Err x
         | Ok e \<Rightarrow> (case recover_sender te e of Err x \<Rightarrow> Err x | Ok a \<Rightarrow> Ok (a = tx_from t)))
      else case tx_signature t of
          None \<Rightarrow> Err NoSignature
        | Some sg \<Rightarrow>
            (case tx_signer_pubkey t of
               None \<Rightarrow> Err NoSignerKey
             | Some pk \<Rightarrow>
                 (if from_public_key (te_crypto te) pk \<noteq> tx_from t
                  then Err (SenderMismatch (tx_from t) (from_public_key (te_crypto te) pk))
                  else if \<not> cx_vk_ok (te_crypto te) pk then Err BadTxPublicKey
                  else case tx_hash te t of
                      Err x \<Rightarrow> Err x
                    | Ok h \<Rightarrow>
                        (if cx_ed_verify (te_crypto te) pk (be_bytes 32 h) sg then Ok True
                         else Err TxSignatureInvalid))))"

definition tx_sender :: "tx_env \<Rightarrow> transaction \<Rightarrow> (address, tx_error) result" where
  "tx_sender te t =
     (if is_ethereum_transaction t then
        (case verified_ethereum_envelope te t of Err x \<Rightarrow> Err x | Ok e \<Rightarrow> recover_sender te e)
      else case tx_signer_pubkey t of
          None \<Rightarrow> Err NoSignerKey
        | Some pk \<Rightarrow>
            (let derived = from_public_key (te_crypto te) pk in
             if derived \<noteq> tx_from t then Err (SenderMismatch (tx_from t) derived) else Ok derived))"

definition gas_cost :: "transaction \<Rightarrow> u256" where
  "gas_cost t = sat_mul (tx_gas_price t) (u256_of_u64 (tx_gas_limit t))"

definition is_contract_creation :: "transaction \<Rightarrow> bool" where
  "is_contract_creation t = (tx_to t = None)"

definition is_contract_call :: "transaction \<Rightarrow> bool" where
  "is_contract_call t = (tx_to t \<noteq> None \<and> tx_data t \<noteq> [])"

definition data_gas :: "u64 \<Rightarrow> u64 \<Rightarrow> bytes \<Rightarrow> u64 \<Rightarrow> u64" where
  "data_gas zero_cost other_cost data gas =
     fold (\<lambda>b g. sat_add g (if b = 0 then zero_cost else other_cost)) data gas"

definition intrinsic_gas :: "transaction \<Rightarrow> u64" where
  "intrinsic_gas t =
     (if is_ethereum_transaction t then
        data_gas 4 16 (tx_data t)
          (if is_contract_creation t
           then sat_add 53000 (sat_mul (word_of_nat ((length (tx_data t) + 31) div 32)) 2)
           else 21000)
      else data_gas 4 1 (tx_data t) (if is_contract_creation t then 530 else 210))"

definition validate_gas_limit :: "transaction \<Rightarrow> (unit, tx_error) result" where
  "validate_gas_limit t =
     (if tx_gas_limit t = 0 then Err ZeroGasLimit
      else if MAX_TX_GAS_LIMIT < tx_gas_limit t then Err GasLimitTooHigh
      else if tx_gas_limit t < intrinsic_gas t then Err GasBelowIntrinsic
      else Ok ())"

definition validate_nonce :: "transaction \<Rightarrow> u64 \<Rightarrow> (unit, tx_error) result" where
  "validate_nonce t expected =
     (if tx_nonce t \<noteq> expected then Err (BadNonce expected (tx_nonce t)) else Ok ())"

definition tx_validate_basic :: "tx_env \<Rightarrow> transaction \<Rightarrow> (unit, tx_error) result" where
  "tx_validate_basic te t =
     (case validate_gas_limit t of Err x \<Rightarrow> Err x | Ok _ \<Rightarrow>
      if tx_gas_price t = 0 then Err ZeroGasPrice
      else if MAX_TX_DATA_SIZE < length (tx_data t) then Err DataTooLarge
      else if is_contract_creation t \<and> tx_data t = [] then Err EmptyDeployCode
      else if tx_chain_id t \<noteq> Some SXIAUM_CHAIN_ID then Err (BadChainId (tx_chain_id t))
      else if tx_eth_raw t = None
              \<and> (tx_eth_y_parity t \<noteq> None \<or> tx_eth_sighash t \<noteq> None \<or> tx_eth_tx_hash t \<noteq> None)
        then Err PartialEthereumFields
      else if tx_eth_raw t \<noteq> None \<and> tx_signer_pubkey t \<noteq> None then Err MixedSignatureFields
      else if tx_eth_raw t = None \<and> (tx_signature t = None \<or> tx_signer_pubkey t = None)
        then Err MissingNativeSignature
      else if tx_eth_raw t \<noteq> None then
        (case verified_ethereum_envelope te t of
           Err x \<Rightarrow> Err x
         | Ok e \<Rightarrow> (if env_chain_id e \<noteq> SXIAUM_CHAIN_ID then Err EthChainIdMismatch else Ok ()))
      else case tx_signer_pubkey t of
          None \<Rightarrow> Ok ()
        | Some pk \<Rightarrow>
            (let derived = from_public_key (te_crypto te) pk in
             if derived \<noteq> tx_from t then Err (SenderMismatch (tx_from t) derived) else Ok ()))"

definition into_transaction ::
  "tx_env \<Rightarrow> eth_envelope \<Rightarrow> bytes \<Rightarrow> (transaction, tx_error) result" where
  "into_transaction te e raw =
     (case recover_sender te e of Err x \<Rightarrow> Err x | Ok sender \<Rightarrow>
      let t = \<lparr>tx_from = sender, tx_to = env_to e, tx_signer_pubkey = None, tx_value = env_value e,
               tx_nonce = env_nonce e, tx_gas_limit = env_gas_limit e, tx_gas_price = env_gas_price e,
               tx_data = env_data e, tx_signature = Some (env_signature e),
               tx_chain_id = Some (env_chain_id e), tx_eth_y_parity = Some (env_y_parity e),
               tx_eth_sighash = Some (env_sighash e), tx_eth_tx_hash = Some (env_tx_hash e),
               tx_eth_raw = Some raw\<rparr> in
      case verified_ethereum_envelope te t of Err x \<Rightarrow> Err x | Ok _ \<Rightarrow>
      case validate_gas_limit t of Err x \<Rightarrow> Err x | Ok _ \<Rightarrow> Ok t)"

definition from_ethereum_raw :: "tx_env \<Rightarrow> bytes \<Rightarrow> (transaction, tx_error) result" where
  "from_ethereum_raw te raw =
     (case te_decode_eth te raw of None \<Rightarrow> Err BadRawEnvelope | Some e \<Rightarrow> into_transaction te e raw)"

text \<open>Logs, their bloom filter, and receipts.\<close>

record log =
  log_address :: address
  log_topics :: "hash32 list"
  log_data :: bytes

record receipt =
  rc_tx_hash :: hash32
  rc_status :: bool
  rc_gas_used :: u64
  rc_logs :: "log list"
  rc_state_root :: "hash32 option"
  rc_cumulative_gas_used :: u64

datatype receipt_error =
    TooManyTopics
  | LogDataTooLarge
  | TooManyLogs
  | FailedWithStateRoot
  | CumulativeBelowGas

definition log_validate :: "log \<Rightarrow> (unit, receipt_error) result" where
  "log_validate l =
     (if MAX_LOG_TOPICS < length (log_topics l) then Err TooManyTopics
      else if MAX_LOG_DATA_SIZE < length (log_data l) then Err LogDataTooLarge
      else Ok ())"

definition topic_hash :: "crypto \<Rightarrow> log \<Rightarrow> hash32" where
  "topic_hash cx l = cx_keccak cx (concat (map (be_bytes 32) (log_topics l)))"

text \<open>The bit positions that an item sets, and the update of the 256-byte filter.\<close>

definition bloom_bit :: "hash32 \<Rightarrow> nat \<Rightarrow> nat" where
  "bloom_bit h i =
     (let bs = be_bytes 32 h;
          high = unat (bs ! (2 * i)); low = unat (bs ! (2 * i + 1)) in
      ((high mod 8) * 256 + low) mod 2048)"

definition add_to_bloom :: "crypto \<Rightarrow> bytes \<Rightarrow> bytes \<Rightarrow> bytes" where
  "add_to_bloom cx bloom item =
     fold (\<lambda>i bl. let bit_index = bloom_bit (cx_keccak cx item) i;
                      byte_pos = 255 - bit_index div 8; bit_pos = bit_index mod 8 in
                  bl[byte_pos := bl ! byte_pos OR push_bit bit_pos 1]) [0..<3] bloom"

definition bloom_has :: "crypto \<Rightarrow> bytes \<Rightarrow> bytes \<Rightarrow> bool" where
  "bloom_has cx bloom item =
     list_all (\<lambda>i. let bit_index = bloom_bit (cx_keccak cx item) i in
                    bit (bloom ! (255 - bit_index div 8)) (bit_index mod 8)) [0..<3]"

definition address_bloom_bytes :: "address \<Rightarrow> bytes" where
  "address_bloom_bytes a = (if is_evm_compatible a then drop 12 (be_bytes 32 a) else be_bytes 32 a)"

definition log_bloom :: "crypto \<Rightarrow> log \<Rightarrow> bytes" where
  "log_bloom cx l =
     fold (\<lambda>t bl. add_to_bloom cx bl (be_bytes 32 t)) (log_topics l)
       (add_to_bloom cx (replicate 256 0) (address_bloom_bytes (log_address l)))"

definition receipt_bloom :: "crypto \<Rightarrow> receipt \<Rightarrow> bytes" where
  "receipt_bloom cx r =
     fold (\<lambda>l comp. map2 (OR) comp (log_bloom cx l)) (rc_logs r) (replicate 256 0)"

definition new_success :: "hash32 \<Rightarrow> u64 \<Rightarrow> hash32 option \<Rightarrow> receipt" where
  "new_success h gas root =
     \<lparr>rc_tx_hash = h, rc_status = True, rc_gas_used = gas, rc_logs = [], rc_state_root = root,
      rc_cumulative_gas_used = gas\<rparr>"

definition new_failure :: "hash32 \<Rightarrow> u64 \<Rightarrow> receipt" where
  "new_failure h gas =
     \<lparr>rc_tx_hash = h, rc_status = False, rc_gas_used = gas, rc_logs = [], rc_state_root = None,
      rc_cumulative_gas_used = gas\<rparr>"

definition add_log :: "receipt \<Rightarrow> log \<Rightarrow> (receipt, receipt_error) result" where
  "add_log r l =
     (case log_validate l of Err e \<Rightarrow> Err e | Ok _ \<Rightarrow>
      if MAX_RECEIPT_LOGS \<le> length (rc_logs r) then Err TooManyLogs
      else Ok (r\<lparr>rc_logs := rc_logs r @ [l]\<rparr>))"

fun logs_validate :: "log list \<Rightarrow> (unit, receipt_error) result" where
  "logs_validate [] = Ok ()"
| "logs_validate (l # ls) = (case log_validate l of Err e \<Rightarrow> Err e | Ok _ \<Rightarrow> logs_validate ls)"

definition receipt_validate :: "receipt \<Rightarrow> (unit, receipt_error) result" where
  "receipt_validate r =
     (if MAX_RECEIPT_LOGS < length (rc_logs r) then Err TooManyLogs
      else case logs_validate (rc_logs r) of Err e \<Rightarrow> Err e | Ok _ \<Rightarrow>
      if \<not> rc_status r \<and> rc_state_root r \<noteq> None then Err FailedWithStateRoot
      else if rc_cumulative_gas_used r < rc_gas_used r then Err CumulativeBelowGas
      else Ok ())"

section \<open>Ethereum envelopes\<close>

lemma verified_envelope_OkD:
  assumes "verified_ethereum_envelope te t = Ok e"
  shows "\<exists>raw sender. tx_eth_raw t = Some raw \<and> te_decode_eth te raw = Some e
    \<and> env_chain_id e = SXIAUM_CHAIN_ID \<and> recover_sender te e = Ok sender \<and> envelope_matches t e sender"
  using assms
  by (auto simp: verified_ethereum_envelope_def split: option.splits if_splits result.splits)

lemma recover_sender_low_s:
  "recover_sender te e = Ok a \<Longrightarrow> env_y_parity e \<le> 1 \<and> ucast (env_signature e) \<le> SECP256K1_N_DIV_2
     \<and> is_evm_compatible a"
  by (auto simp: recover_sender_def recover_ethereum_sender_from_parts_def is_evm_compatible_def
      drop_bit_take_bit split: if_splits option.splits)

lemma validate_basic_ethereum:
  "tx_validate_basic te t = Ok () \<Longrightarrow> tx_eth_raw t \<noteq> None \<Longrightarrow>
     \<exists>e. verified_ethereum_envelope te t = Ok e"
  by (auto simp: tx_validate_basic_def split: result.splits if_splits option.splits)

lemma envelope_matches_unique:
  "envelope_matches t e a \<Longrightarrow> envelope_matches u e a \<Longrightarrow> tx_eth_raw t = tx_eth_raw u \<Longrightarrow> t = (u :: transaction)"
  by (simp add: envelope_matches_def)

section \<open>Bloom filters\<close>

definition bloom_le :: "bytes \<Rightarrow> bytes \<Rightarrow> bool" where
  "bloom_le a b \<longleftrightarrow> length a = length b \<and> (\<forall>p < length a. \<forall>n. bit (a ! p) n \<longrightarrow> bit (b ! p) n)"

lemma bloom_le_refl: "bloom_le a a"
  by (simp add: bloom_le_def)

lemma bloom_le_trans: "bloom_le a b \<Longrightarrow> bloom_le b c \<Longrightarrow> bloom_le a c"
  by (simp add: bloom_le_def)

lemma bloom_le_set: "bloom_le a (a[p := a ! p OR x])"
  unfolding bloom_le_def
proof (intro conjI allI impI)
  fix q n
  assume "q < length a" "bit (a ! q) n"
  then show "bit (a[p := a ! p OR x] ! q) n"
    by (cases "q = p") (simp_all add: bit_or_iff)
qed simp

lemma bloom_has_mono:
  assumes "bloom_has cx a item" "bloom_le a b" "length a = 256"
  shows "bloom_has cx b item"
  using assms unfolding bloom_has_def bloom_le_def list_all_iff Let_def by simp

lemma fold_bloom_le:
  "(\<And>x a. x \<in> set xs \<Longrightarrow> bloom_le a (f x a)) \<Longrightarrow> bloom_le a (fold f xs a)"
proof (induction xs arbitrary: a)
  case (Cons x xs)
  have "bloom_le (f x a) (fold f xs (f x a))"
    using Cons.prems by (intro Cons.IH) simp
  then show ?case
    using bloom_le_trans Cons.prems [of x a] by simp
qed (simp add: bloom_le_refl)

lemma add_to_bloom_le: "bloom_le bl (add_to_bloom cx bl item)"
  unfolding add_to_bloom_def by (rule fold_bloom_le) (simp add: Let_def bloom_le_set)

lemma bloom_le_length: "bloom_le a b \<Longrightarrow> length b = length a"
  by (simp add: bloom_le_def)

lemma set_bit_present:
  "p < length bl \<Longrightarrow> n < 8 \<Longrightarrow> bit ((bl[p := bl ! p OR push_bit n (1 :: u8)]) ! p) n"
  by (simp only: nth_list_update_eq bit_or_iff bit_push_bit_iff) simp

lemma add_to_bloom_has:
  assumes "length bl = 256"
  shows "bloom_has cx (add_to_bloom cx bl item) item"
proof -
  let ?b = "bloom_bit (cx_keccak cx item)"
  define f where "f = (\<lambda>i bl. bl[255 - ?b i div 8 := bl ! (255 - ?b i div 8) OR push_bit (?b i mod 8) (1 :: u8)])"
  have eq: "add_to_bloom cx bl item = fold f [0..<3] bl"
    by (simp add: add_to_bloom_def f_def Let_def)
  have le: "bloom_le a (f i a)" for i a
    by (simp add: f_def bloom_le_set)
  have now: "bit (f i a ! (255 - ?b i div 8)) (?b i mod 8)" if "length a = 256" for i a
    unfolding f_def using that by (intro set_bit_present) auto
  have "bit (fold f [0..<3] bl ! (255 - ?b i div 8)) (?b i mod 8)" if i: "i < 3" for i
  proof -
    have split: "[0..<3] = [0..<i] @ i # [Suc i..<3]"
      using i upt_add_eq_append [of 0 i "3 - i"] upt_conv_Cons [of i 3] by simp
    let ?a = "fold f [0..<i] bl"
    have len: "length ?a = 256"
      using bloom_le_length [OF fold_bloom_le [of "[0..<i]" f bl]] le assms by simp
    have "bloom_le (f i ?a) (fold f [Suc i..<3] (f i ?a))"
      by (rule fold_bloom_le) (rule le)
    then have "bit (fold f [Suc i..<3] (f i ?a) ! (255 - ?b i div 8)) (?b i mod 8)"
      using now [OF len, of i] len unfolding bloom_le_def f_def by simp
    then show ?thesis
      by (simp add: split)
  qed
  then show ?thesis
    unfolding bloom_has_def eq list_all_iff Let_def by simp
qed

lemma log_bloom_items:
  assumes "item = address_bloom_bytes (log_address l) \<or> item \<in> be_bytes 32 ` set (log_topics l)"
  shows "bloom_has cx (log_bloom cx l) item" "length (log_bloom cx l) = 256"
proof -
  let ?start = "add_to_bloom cx (replicate 256 0) (address_bloom_bytes (log_address l))"
  let ?f = "\<lambda>t bl. add_to_bloom cx bl (be_bytes 32 t)"
  have len: "length ?start = 256"
    using bloom_le_length [OF add_to_bloom_le] by simp
  have step: "bloom_le bl (fold ?f ts bl)" for ts :: "hash32 list" and bl
    by (rule fold_bloom_le) (rule add_to_bloom_le)
  show "length (log_bloom cx l) = 256"
    unfolding log_bloom_def using bloom_le_length [OF step] len by simp
  show "bloom_has cx (log_bloom cx l) item"
    using assms
  proof
    assume "item = address_bloom_bytes (log_address l)"
    then show ?thesis
      unfolding log_bloom_def
      using bloom_has_mono [OF add_to_bloom_has step] len by simp
  next
    assume "item \<in> be_bytes 32 ` set (log_topics l)"
    then obtain t xs ys where t: "item = be_bytes 32 t" "log_topics l = xs @ t # ys"
      by (auto dest: split_list)
    let ?mid = "fold ?f xs ?start"
    have mid: "length ?mid = 256"
      using bloom_le_length [OF step] len by simp
    have "bloom_has cx (add_to_bloom cx ?mid item) item"
      using mid by (rule add_to_bloom_has)
    moreover have "length (add_to_bloom cx ?mid item) = 256"
      using mid bloom_le_length [OF add_to_bloom_le] by simp
    ultimately have "bloom_has cx (fold ?f ys (add_to_bloom cx ?mid item)) item"
      using step bloom_has_mono by blast
    then show ?thesis
      by (simp add: log_bloom_def t)
  qed
qed

lemma map2_or_le:
  assumes "length a = length b"
  shows "bloom_le a (map2 (OR) a b)" "bloom_le b (map2 (OR) a b)"
  using assms by (auto simp: bloom_le_def bit_or_iff)

lemma receipt_bloom_contains:
  "l \<in> set ls \<Longrightarrow> length acc = 256 \<Longrightarrow>
     bloom_le (log_bloom cx l) (fold (\<lambda>l comp. map2 (OR) comp (log_bloom cx l)) ls acc)"
proof (induction ls arbitrary: acc)
  case (Cons x xs)
  let ?g = "\<lambda>l comp. map2 (OR) comp (log_bloom cx l)"
  have len: "length (log_bloom cx k) = 256" for k
    using log_bloom_items(2) by blast
  have acc: "length (?g x acc) = 256"
    using Cons.prems len by simp
  show ?case
  proof (cases "l \<in> set xs")
    case True
    then show ?thesis using Cons.IH [of "?g x acc"] acc by simp
  next
    case False
    have grow: "length a = 256 \<Longrightarrow> bloom_le a (fold ?g ys a)" for ys a
    proof (induction ys arbitrary: a)
      case (Cons y ys)
      then show ?case
        using bloom_le_trans [OF map2_or_le(1) [of a "log_bloom cx y"]] len by simp
    qed (simp add: bloom_le_refl)
    have "bloom_le (log_bloom cx x) (?g x acc)"
      using Cons.prems len by (intro map2_or_le) simp
    then show ?thesis
      using False Cons.prems grow [OF acc, of xs] bloom_le_trans by auto
  qed
qed simp

section \<open>Properties\<close>

text \<open>
  C23: a raw Ethereum envelope determines its transaction. Two transactions that pass basic validation
  and carry the same raw bytes agree in every field: sender, recipient, amount, nonce, gas, data and
  signature are those of the signed envelope, so none can be altered in transit. The signature has
  the low-s form, and the sender is the recovered Ethereum address.
\<close>

theorem ethereum_tx_determined_by_raw:
  assumes "tx_validate_basic te t = Ok ()" "tx_validate_basic te u = Ok ()"
    and "tx_eth_raw t = Some raw" "tx_eth_raw u = Some raw"
  shows "t = u \<and> (\<exists>sg. tx_signature t = Some sg \<and> ucast sg \<le> SECP256K1_N_DIV_2)
    \<and> is_evm_compatible (tx_from t) \<and> tx_sender te t = Ok (tx_from t)"
proof -
  obtain e f where e: "verified_ethereum_envelope te t = Ok e" and f: "verified_ethereum_envelope te u = Ok f"
    using validate_basic_ethereum assms by blast
  obtain a b where a: "te_decode_eth te raw = Some e" "recover_sender te e = Ok a" "envelope_matches t e a"
    and b: "te_decode_eth te raw = Some f" "recover_sender te f = Ok b" "envelope_matches u f b"
    using verified_envelope_OkD [OF e] verified_envelope_OkD [OF f] assms(3,4) by auto
  have "f = e" "b = a"
    using a b by auto
  then have "t = u"
    using a(3) b(3) assms(3,4) envelope_matches_unique by metis
  moreover have "tx_signature t = Some (env_signature e)" "tx_from t = a"
    using a(3) by (simp_all add: envelope_matches_def)
  moreover have "tx_sender te t = Ok a"
    using e a(2) assms(3) by (simp add: tx_sender_def is_ethereum_transaction_def)
  ultimately show ?thesis
    using recover_sender_low_s [OF a(2)] by auto
qed

definition toy_envelope :: eth_envelope where
  "toy_envelope = \<lparr>env_to = Some 7, env_value = 5, env_nonce = 0, env_gas_limit = 21000,
     env_gas_price = 1, env_data = [], env_chain_id = SXIAUM_CHAIN_ID, env_y_parity = 1,
     env_signature = 99, env_sighash = 3, env_tx_hash = 4\<rparr>"

definition toy_tx_env :: tx_env where
  "toy_tx_env = \<lparr>te_crypto = toy_crypto, te_encode = (\<lambda>t. Some (be_bytes 32 (tx_from t) @ tx_data t)),
     te_decode_eth = (\<lambda>raw. if raw = [1] then Some toy_envelope else None),
     te_recover = (\<lambda>_ _ _. Some [5, 6])\<rparr>"

definition toy_eth_tx :: transaction where
  "toy_eth_tx = (case from_ethereum_raw toy_tx_env [1] of Ok t \<Rightarrow> t | Err _ \<Rightarrow> new_transfer 0 0 0 0)"

lemmas toy_eth_simps =
  toy_eth_tx_def toy_tx_env_def toy_envelope_def from_ethereum_raw_def into_transaction_def
  recover_sender_def recover_ethereum_sender_from_parts_def SECP256K1_N_DIV_2_def
  verified_ethereum_envelope_def envelope_matches_def validate_gas_limit_def intrinsic_gas_def
  data_gas_def is_ethereum_transaction_def is_contract_creation_def MAX_TX_GAS_LIMIT_def
  tx_validate_basic_def MAX_TX_DATA_SIZE_def

theorem ethereum_tx_determined_by_raw_witness:
  "tx_validate_basic toy_tx_env toy_eth_tx = Ok () \<and> tx_sender toy_tx_env toy_eth_tx = Ok (tx_from toy_eth_tx)"
proof -
  have v: "tx_validate_basic toy_tx_env toy_eth_tx = Ok ()" and r: "tx_eth_raw toy_eth_tx = Some [1]"
    by (simp_all add: toy_eth_simps)
  show ?thesis
    using v ethereum_tx_determined_by_raw [OF v v r r] by blast
qed

text \<open>
  C30: receipt bloom filters have no false negatives. Every log of a receipt is found: the three bits
  of its emitting address and of each of its topics are set in the receipt's filter.
\<close>

theorem receipt_bloom_no_false_negative:
  assumes "l \<in> set (rc_logs r)"
    and "item = address_bloom_bytes (log_address l) \<or> item \<in> be_bytes 32 ` set (log_topics l)"
  shows "bloom_has cx (receipt_bloom cx r) item"
proof -
  have "bloom_le (log_bloom cx l) (receipt_bloom cx r)"
    unfolding receipt_bloom_def using assms(1) by (intro receipt_bloom_contains) simp_all
  then show ?thesis
    using log_bloom_items [OF assms(2)] bloom_has_mono by blast
qed

definition toy_log :: log where
  "toy_log = \<lparr>log_address = 77, log_topics = [3, 4], log_data = []\<rparr>"

theorem receipt_bloom_no_false_negative_witness:
  "bloom_has toy_crypto (receipt_bloom toy_crypto ((new_success 1 21000 None)\<lparr>rc_logs := [toy_log]\<rparr>)) (be_bytes 32 (4 :: hash32))"
  by (rule receipt_bloom_no_false_negative [of toy_log]) (simp_all add: toy_log_def)

end
