(* ===== verification/MerkleTrees.thy ===== *)
theory MerkleTrees
  imports Prelude
begin

text \<open>
  The two Merkle trees of the node: the transaction, receipt and validator commitments of a block
  body (\<open>crates/block/src/body.rs\<close>, with tagged leaves and nodes) and the generic tree of the crypto
  crate (\<open>crates/crypto/src/merkle.rs\<close>, which stores its layers). Both are shown to compute one
  reference construction, on which completeness of inclusion proofs and injectivity are proved.
\<close>

section \<open>Reference construction\<close>

text \<open>One level: neighbours in pairs, the last one paired with the padding node.\<close>

fun pairs_of :: "'h \<Rightarrow> 'h list \<Rightarrow> ('h \<times> 'h) list" where
  "pairs_of pad [] = []"
| "pairs_of pad [a] = [(a, pad)]"
| "pairs_of pad (a # b # xs) = (a, b) # pairs_of pad xs"

definition level_up :: "('h \<Rightarrow> 'h \<Rightarrow> 'h) \<Rightarrow> 'h \<Rightarrow> 'h list \<Rightarrow> 'h list" where
  "level_up node pad xs = map (\<lambda>(l, r). node l r) (pairs_of pad xs)"

lemma length_pairs_of: "length (pairs_of pad xs) = (length xs + 1) div 2"
  by (induction pad xs rule: pairs_of.induct) auto

lemma length_level_up [simp]: "length (level_up node pad xs) = (length xs + 1) div 2"
  by (simp add: level_up_def length_pairs_of)

lemma level_up_simps [simp]:
  "level_up node pad [] = []" "level_up node pad [a] = [node a pad]"
  "level_up node pad (a # b # xs) = node a b # level_up node pad xs"
  by (simp_all add: level_up_def)

function root_of :: "('h \<Rightarrow> 'h \<Rightarrow> 'h) \<Rightarrow> 'h \<Rightarrow> 'h list \<Rightarrow> 'h" where
  "root_of node pad xs =
     (if length xs \<le> 1 then (case xs of [] \<Rightarrow> pad | x # _ \<Rightarrow> x)
      else root_of node pad (level_up node pad xs))"
  by pat_completeness auto
termination
  by (relation "measure (\<lambda>(node, pad, xs). length xs)") auto

declare root_of.simps [simp del]

text \<open>The siblings on the way up, and the climb with a given path.\<close>

definition sibling :: "'h \<Rightarrow> 'h list \<Rightarrow> nat \<Rightarrow> 'h" where
  "sibling pad xs i =
     (if odd i then xs ! (i - 1) else if i + 1 < length xs then xs ! (i + 1) else pad)"

function path_of :: "('h \<Rightarrow> 'h \<Rightarrow> 'h) \<Rightarrow> 'h \<Rightarrow> 'h list \<Rightarrow> nat \<Rightarrow> 'h list" where
  "path_of node pad xs i =
     (if length xs \<le> 1 then []
      else sibling pad xs i # path_of node pad (level_up node pad xs) (i div 2))"
  by pat_completeness auto
termination
  by (relation "measure (\<lambda>(node, pad, xs, i). length xs)") auto

declare path_of.simps [simp del]

fun climb :: "('h \<Rightarrow> 'h \<Rightarrow> 'h) \<Rightarrow> 'h \<Rightarrow> nat \<Rightarrow> 'h list \<Rightarrow> 'h" where
  "climb node x i [] = x"
| "climb node x i (s # ss) = climb node (if even i then node x s else node s x) (i div 2) ss"

lemma nth_level_up:
  "i < length xs \<Longrightarrow> level_up node pad xs ! (i div 2)
     = (if even i then node (xs ! i) (sibling pad xs i) else node (sibling pad xs i) (xs ! i))"
proof (induction pad xs arbitrary: i rule: pairs_of.induct)
  case (3 pad a b xs)
  show ?case
  proof (cases "i < 2")
    case True
    then have "i = 0 \<or> i = 1" by auto
    then show ?thesis by (auto simp: sibling_def)
  next
    case False
    then obtain j where j: "i = j + 2"
      by (metis add.commute le_add_diff_inverse not_less)
    then have "sibling pad (a # b # xs) i = sibling pad xs j"
      by (cases j) (auto simp: sibling_def)
    then show ?thesis
      using 3 j by simp
  qed
qed (auto simp: sibling_def)

text \<open>Completeness: the path of a leaf leads from the leaf to the root.\<close>

lemma climb_path_root:
  "i < length xs \<Longrightarrow> climb node (xs ! i) i (path_of node pad xs i) = root_of node pad xs"
proof (induction node pad xs i rule: path_of.induct)
  case (1 node pad xs i)
  show ?case
  proof (cases "length xs \<le> 1")
    case True
    with "1.prems" obtain x where "xs = [x]" "i = 0"
      by (cases xs) auto
    then show ?thesis by (simp add: path_of.simps root_of.simps)
  next
    case False
    have "i div 2 < length (level_up node pad xs)"
      using "1.prems" by auto
    then have "climb node (level_up node pad xs ! (i div 2)) (i div 2)
        (path_of node pad (level_up node pad xs) (i div 2)) = root_of node pad (level_up node pad xs)"
      using "1.IH" False by blast
    then show ?thesis
      using False "1.prems" nth_level_up [of i xs node pad]
      by (simp add: path_of.simps [of node pad xs i] root_of.simps [of node pad xs])
  qed
qed

text \<open>All pairs that are hashed on the way to the root.\<close>

function all_pairs :: "('h \<Rightarrow> 'h \<Rightarrow> 'h) \<Rightarrow> 'h \<Rightarrow> 'h list \<Rightarrow> ('h \<times> 'h) list" where
  "all_pairs node pad xs =
     (if length xs \<le> 1 then []
      else pairs_of pad xs @ all_pairs node pad (level_up node pad xs))"
  by pat_completeness auto
termination
  by (relation "measure (\<lambda>(node, pad, xs). length xs)") auto

declare all_pairs.simps [simp del]

lemma pairs_of_inj:
  "pairs_of pad xs = pairs_of pad ys \<Longrightarrow> pad \<notin> set xs \<Longrightarrow> pad \<notin> set ys \<Longrightarrow> xs = ys"
proof (induction pad xs arbitrary: ys rule: pairs_of.induct)
  case (1 pad)
  then show ?case by (cases "(pad, ys)" rule: pairs_of.cases) auto
next
  case (2 pad a)
  then show ?case by (cases "(pad, ys)" rule: pairs_of.cases) auto
next
  case (3 pad a b xs)
  then show ?case by (cases "(pad, ys)" rule: pairs_of.cases) auto
qed

text \<open>
  Two lists with the same root, when no two of the hashed pairs collide and the padding node is
  neither a leaf nor a hash: one of the lists is a level of the tree over the other.
\<close>

lemma level_up_inj:
  assumes "inj_on (\<lambda>(l, r). node l r) P" "set (pairs_of pad xs) \<subseteq> P" "set (pairs_of pad ys) \<subseteq> P"
    and "pad \<notin> set xs" "pad \<notin> set ys" "level_up node pad xs = level_up node pad ys"
  shows "xs = ys"
proof (rule pairs_of_inj [of pad])
  show "pairs_of pad xs = pairs_of pad ys"
    using assms(6) unfolding level_up_def
    by (rule map_inj_on) (rule inj_on_subset [OF assms(1)], use assms(2,3) in simp)
qed (use assms(4,5) in simp_all)

inductive tree_level :: "('h \<Rightarrow> 'h \<Rightarrow> 'h) \<Rightarrow> 'h \<Rightarrow> 'h list \<Rightarrow> 'h list \<Rightarrow> bool" for node pad xs where
  level_base: "tree_level node pad xs xs"
| level_step: "tree_level node pad xs zs \<Longrightarrow> 1 < length zs \<Longrightarrow> tree_level node pad xs (level_up node pad zs)"

lemma tree_level_below:
  "tree_level node pad (level_up node pad xs) zs \<Longrightarrow> 1 < length xs \<Longrightarrow> tree_level node pad xs zs"
  by (induction rule: tree_level.induct) (auto intro: tree_level.intros)

lemma tree_level_pred:
  assumes "tree_level node pad (level_up node pad ys) zs" "1 < length ys"
  shows "\<exists>w. tree_level node pad ys w \<and> 1 < length w \<and> zs = level_up node pad w"
  using assms
proof (cases rule: tree_level.cases)
  case level_base
  then show ?thesis using assms(2) by (auto intro: tree_level.level_base)
next
  case (level_step zs')
  then show ?thesis using assms(2) tree_level_below [of node pad ys zs'] by auto
qed

lemma tree_level_root: "xs \<noteq> [] \<Longrightarrow> tree_level node pad xs [root_of node pad xs]"
proof (induction node pad xs rule: root_of.induct)
  case (1 node pad xs)
  show ?case
  proof (cases "length xs \<le> 1")
    case True
    with "1.prems" obtain x where "xs = [x]" by (cases xs) auto
    then show ?thesis by (simp add: root_of.simps level_base)
  next
    case False
    then have "level_up node pad xs \<noteq> []"
      by (cases "(pad, xs)" rule: pairs_of.cases) auto
    then have "tree_level node pad (level_up node pad xs) [root_of node pad (level_up node pad xs)]"
      using "1.IH" False by blast
    then show ?thesis
      using False tree_level_below [of node pad xs] by (simp add: root_of.simps [of node pad xs])
  qed
qed

lemma tree_level_pairs:
  "tree_level node pad xs zs \<Longrightarrow> set (all_pairs node pad zs) \<subseteq> set (all_pairs node pad xs)"
proof (induction rule: tree_level.induct)
  case (level_step zs)
  then show ?case by (simp add: all_pairs.simps [of node pad zs])
qed simp

lemma pairs_subset: "1 < length zs \<Longrightarrow> set (pairs_of pad zs) \<subseteq> set (all_pairs node pad zs)"
  by (simp add: all_pairs.simps [of node pad zs])

lemma tree_level_elems:
  "tree_level node pad xs zs \<Longrightarrow>
     zs = xs \<or> set zs \<subseteq> (\<lambda>(l, r). node l r) ` set (all_pairs node pad xs)"
proof (induction rule: tree_level.induct)
  case (level_step zs)
  have "set (pairs_of pad zs) \<subseteq> set (all_pairs node pad xs)"
    using pairs_subset [of zs pad node] level_step.hyps tree_level_pairs [of node pad xs zs] by simp
  then show ?case
    by (auto simp: level_up_def)
qed simp

lemma tree_level_up: "1 < length zs \<Longrightarrow> tree_level node pad zs (level_up node pad zs)"
  by (intro level_step level_base)

lemma level_up_nonempty: "1 < length zs \<Longrightarrow> level_up node pad zs \<noteq> []"
  by (cases "(pad, zs)" rule: pairs_of.cases) auto

lemma tree_level_no_pad:
  assumes "pad \<notin> (\<lambda>(l, r). node l r) ` P" "set (all_pairs node pad zs) \<subseteq> P" "pad \<notin> set zs"
    and "tree_level node pad zs w"
  shows "pad \<notin> set w"
  using tree_level_elems [OF assms(4)] assms by blast

lemma tree_level_descend:
  assumes inj: "inj_on (\<lambda>(l, r). node l r) P" and pad: "pad \<notin> (\<lambda>(l, r). node l r) ` P"
    and P: "set (all_pairs node pad xs) \<subseteq> P" "set (all_pairs node pad ys) \<subseteq> P"
    and np: "pad \<notin> set xs" "pad \<notin> set ys" and len: "1 < length xs" "1 < length ys"
    and lvl: "tree_level node pad (level_up node pad ys) (level_up node pad xs)"
  shows "tree_level node pad ys xs"
proof -
  obtain w where w: "tree_level node pad ys w" "1 < length w" "level_up node pad xs = level_up node pad w"
    using tree_level_pred [OF lvl len(2)] by blast
  have "set (all_pairs node pad w) \<subseteq> P"
    using tree_level_pairs [OF w(1)] P(2) by simp
  then have "set (pairs_of pad w) \<subseteq> P" "set (pairs_of pad xs) \<subseteq> P"
    using pairs_subset [of w pad node] pairs_subset [of xs pad node] w(2) len(1) P(1) by simp_all
  then have "xs = w"
    using level_up_inj [OF inj _ _ np(1) tree_level_no_pad [OF pad P(2) np(2) w(1)] w(3)] by simp
  then show ?thesis using w(1) by simp
qed

lemma same_root_levels:
  assumes inj: "inj_on (\<lambda>(l, r). node l r) P" and pad: "pad \<notin> (\<lambda>(l, r). node l r) ` P"
  shows "set (all_pairs node pad xs) \<subseteq> P \<Longrightarrow> set (all_pairs node pad ys) \<subseteq> P \<Longrightarrow> xs \<noteq> [] \<Longrightarrow> ys \<noteq> []
    \<Longrightarrow> pad \<notin> set xs \<Longrightarrow> pad \<notin> set ys \<Longrightarrow> root_of node pad xs = root_of node pad ys
    \<Longrightarrow> tree_level node pad ys xs \<or> tree_level node pad xs ys"
proof (induction "length xs" arbitrary: xs ys rule: less_induct)
  case less
  let ?up = "level_up node pad"
  have single: "tree_level node pad ws zs"
    if "zs \<noteq> []" "ws \<noteq> []" "length zs \<le> 1" "root_of node pad zs = root_of node pad ws" for zs ws
  proof -
    have "zs = [root_of node pad zs]"
      using that by (cases zs) (auto simp: root_of.simps)
    then show ?thesis using that tree_level_root [of ws node pad] by simp
  qed
  show ?case
  proof (cases "length xs \<le> 1 \<or> length ys \<le> 1")
    case True
    then show ?thesis
      using single [of xs ys] single [of ys xs] less.prems by auto
  next
    case False
    then have len: "1 < length xs" "1 < length ys" by auto
    have "tree_level node pad (?up ys) (?up xs) \<or> tree_level node pad (?up xs) (?up ys)"
    proof (rule less.hyps)
      show "set (all_pairs node pad (?up xs)) \<subseteq> P" "set (all_pairs node pad (?up ys)) \<subseteq> P"
        using tree_level_pairs [OF tree_level_up [OF len(1), of node pad]]
          tree_level_pairs [OF tree_level_up [OF len(2), of node pad]] less.prems by simp_all
      show "pad \<notin> set (?up xs)" "pad \<notin> set (?up ys)"
        using tree_level_no_pad [OF pad _ _ tree_level_up] len less.prems by simp_all
      show "root_of node pad (?up xs) = root_of node pad (?up ys)"
        using less.prems(7) len by (simp add: root_of.simps [of node pad xs] root_of.simps [of node pad ys])
    qed (use len level_up_nonempty [OF len(1)] level_up_nonempty [OF len(2)] in auto)
    then show ?thesis
      using tree_level_descend [OF inj pad] less.prems len by blast
  qed
qed

text \<open>If, in addition, no leaf is the hash of a pair, the root determines the leaves.\<close>

lemma root_of_inj:
  assumes "inj_on (\<lambda>(l, r). node l r) (set (all_pairs node pad xs) \<union> set (all_pairs node pad ys))"
    and "pad \<notin> (\<lambda>(l, r). node l r) ` (set (all_pairs node pad xs) \<union> set (all_pairs node pad ys))"
    and "pad \<notin> set xs \<union> set ys"
    and "(set xs \<union> set ys) \<inter> (\<lambda>(l, r). node l r) ` (set (all_pairs node pad xs) \<union> set (all_pairs node pad ys)) = {}"
    and "xs \<noteq> []" "ys \<noteq> []" "root_of node pad xs = root_of node pad ys"
  shows "xs = ys"
proof -
  have "tree_level node pad ys xs \<or> tree_level node pad xs ys"
    using same_root_levels [OF assms(1,2)] assms by auto
  then show ?thesis
    using tree_level_elems [of node pad ys xs] tree_level_elems [of node pad xs ys] assms(4-6)
    by (cases xs; cases ys) auto
qed

section \<open>The tree of a block body\<close>

definition tx_merkle_leaf :: "crypto \<Rightarrow> hash32 \<Rightarrow> hash32" where
  "tx_merkle_leaf cx leaf = cx_sha256 cx (0 # be_bytes 32 leaf)"

definition tx_merkle_pair :: "crypto \<Rightarrow> hash32 \<Rightarrow> hash32 \<Rightarrow> hash32" where
  "tx_merkle_pair cx left right = cx_sha256 cx (1 # be_bytes 32 left @ be_bytes 32 right)"

definition MERKLE_PAD_NODE :: hash32 where
  "MERKLE_PAD_NODE = 0"

definition pad_level_to_even :: "hash32 list \<Rightarrow> hash32 list" where
  "pad_level_to_even level = (if odd (length level) then level @ [MERKLE_PAD_NODE] else level)"

text \<open>\<open>chunks_exact(2)\<close>.\<close>

fun chunks2 :: "'h list \<Rightarrow> ('h \<times> 'h) list" where
  "chunks2 (a # b # xs) = (a, b) # chunks2 xs"
| "chunks2 _ = []"

definition build_next_level :: "crypto \<Rightarrow> hash32 list \<Rightarrow> bool \<Rightarrow> hash32 list" where
  "build_next_level cx values first =
     (let level = (if first then map (tx_merkle_leaf cx) values else values) in
      map (\<lambda>(l, r). tx_merkle_pair cx l r) (chunks2 (pad_level_to_even level)))"

lemma chunks2_padded: "chunks2 (pad_level_to_even xs) = pairs_of MERKLE_PAD_NODE xs"
proof (induction "MERKLE_PAD_NODE" xs rule: pairs_of.induct)
  case (3 a b xs)
  have "pad_level_to_even (a # b # xs) = a # b # pad_level_to_even xs"
    by (simp add: pad_level_to_even_def)
  with 3 show ?case by simp
qed (simp_all add: pad_level_to_even_def)

lemma build_next_level_eq:
  "build_next_level cx values first = level_up (tx_merkle_pair cx) MERKLE_PAD_NODE
     (if first then map (tx_merkle_leaf cx) values else values)"
  by (simp add: build_next_level_def level_up_def chunks2_padded Let_def)

function root_loop :: "crypto \<Rightarrow> hash32 list \<Rightarrow> bool \<Rightarrow> hash32 list \<times> bool" where
  "root_loop cx level first =
     (if 1 < length level then root_loop cx (build_next_level cx level first) False
      else (level, first))"
  by pat_completeness auto
termination
  by (relation "measure (\<lambda>(cx, level, first). length level)") (auto simp: build_next_level_eq)

declare root_loop.simps [simp del]

definition calculate_merkle_root :: "crypto \<Rightarrow> hash32 list \<Rightarrow> hash32" where
  "calculate_merkle_root cx leaves =
     (if leaves = [] then 0
      else case root_loop cx leaves True of
          (level, first) \<Rightarrow> if first then tx_merkle_leaf cx (level ! 0) else level ! 0)"

datatype body_proof_error = EmptyLeaves | IndexOutOfBounds nat nat

text \<open>
  One pass over the chunks of a level: the chunk that holds the current index contributes the
  sibling, and the index is halved at that point of the pass.
\<close>

fun scan_chunk :: "hash32 list \<Rightarrow> nat \<Rightarrow> nat \<times> hash32 list \<Rightarrow> nat \<times> hash32 list" where
  "scan_chunk level chunk_index (cur, acc) =
     (let left_idx = chunk_index * 2; right_idx = left_idx + 1 in
      if left_idx = cur \<or> right_idx = cur
      then (cur div 2, acc @ [level ! (if left_idx = cur then right_idx else left_idx)])
      else (cur, acc))"

definition scan_level :: "hash32 list \<Rightarrow> nat \<Rightarrow> hash32 list \<Rightarrow> nat \<times> hash32 list" where
  "scan_level level current proof' =
     fold (scan_chunk level) [0..<length level div 2] (current, proof')"

function proof_loop ::
  "crypto \<Rightarrow> hash32 list \<Rightarrow> bool \<Rightarrow> nat \<Rightarrow> hash32 list \<Rightarrow> hash32 list" where
  "proof_loop cx level first current proof' =
     (if 1 < length level then
        (let padded = pad_level_to_even (if first then map (tx_merkle_leaf cx) level else level) in
         case scan_level padded current proof' of
           (cur, acc) \<Rightarrow> proof_loop cx (map (\<lambda>(l, r). tx_merkle_pair cx l r) (chunks2 padded)) False cur acc)
      else proof')"
  by pat_completeness auto
termination
  by (relation "measure (\<lambda>(cx, level, first, current, proof'). length level)")
     (auto simp: chunks2_padded length_pairs_of)

declare proof_loop.simps [simp del]

definition generate_merkle_proof ::
  "crypto \<Rightarrow> hash32 list \<Rightarrow> nat \<Rightarrow> (hash32 list, body_proof_error) result" where
  "generate_merkle_proof cx leaves index =
     (if leaves = [] then Err EmptyLeaves
      else if length leaves \<le> index then Err (IndexOutOfBounds index (length leaves))
      else Ok (proof_loop cx leaves True index []))"

fun verify_merkle_walk :: "crypto \<Rightarrow> hash32 \<Rightarrow> nat \<Rightarrow> hash32 list \<Rightarrow> hash32" where
  "verify_merkle_walk cx current idx [] = current"
| "verify_merkle_walk cx current idx (sibling' # rest) =
     verify_merkle_walk cx
       (if idx mod 2 = 0 then tx_merkle_pair cx current sibling' else tx_merkle_pair cx sibling' current)
       (idx div 2) rest"

definition verify_merkle_proof :: "crypto \<Rightarrow> hash32 \<Rightarrow> nat \<Rightarrow> hash32 list \<Rightarrow> hash32 \<Rightarrow> bool" where
  "verify_merkle_proof cx leaf index proof' root =
     (verify_merkle_walk cx (tx_merkle_leaf cx leaf) index proof' = root)"

section \<open>The tree of the crypto crate\<close>

definition DOMAIN_MERKLE_NODE :: string where
  "DOMAIN_MERKLE_NODE = ''SXIAUM_MERKLE''"

record merkle_tree =
  mt_leaves :: "hash32 list"
  mt_layers :: "hash32 list list"

definition mt_pad_node :: "crypto \<Rightarrow> hash32" where
  "mt_pad_node cx = cx_sha256 cx (ascii DOMAIN_MERKLE_NODE @ ascii ''::PAD_NODE_V1'')"

definition mt_hash_pair :: "crypto \<Rightarrow> hash32 \<Rightarrow> hash32 \<Rightarrow> hash32" where
  "mt_hash_pair cx left right =
     cx_sha256 cx (ascii DOMAIN_MERKLE_NODE @ be_bytes 32 left @ be_bytes 32 right)"

fun build_next_layer :: "crypto \<Rightarrow> hash32 \<Rightarrow> hash32 list \<Rightarrow> hash32 list" where
  "build_next_layer cx pad [] = []"
| "build_next_layer cx pad [left] = [mt_hash_pair cx left pad]"
| "build_next_layer cx pad (left # right # rest) =
     mt_hash_pair cx left right # build_next_layer cx pad rest"

text \<open>The parallel version fills each slot of the next layer from its own index.\<close>

definition build_next_layer_parallel :: "crypto \<Rightarrow> hash32 \<Rightarrow> hash32 list \<Rightarrow> hash32 list" where
  "build_next_layer_parallel cx pad layer =
     map (\<lambda>index. let pair_index = index * 2 in
            mt_hash_pair cx (layer ! pair_index)
              (if pair_index + 1 < length layer then layer ! (pair_index + 1) else pad))
       [0..<(length layer + 1) div 2]"

lemma build_next_layer_eq: "build_next_layer cx pad xs = level_up (mt_hash_pair cx) pad xs"
  by (induction cx pad xs rule: build_next_layer.induct) auto

function layers_loop :: "crypto \<Rightarrow> hash32 list \<Rightarrow> hash32 list list" where
  "layers_loop cx current =
     (if length current \<le> 1 then [current]
      else current # layers_loop cx (build_next_layer cx (mt_pad_node cx) current))"
  by pat_completeness auto
termination
  by (relation "measure (\<lambda>(cx, current). length current)") (auto simp: build_next_layer_eq)

declare layers_loop.simps [simp del]

definition build_layers :: "crypto \<Rightarrow> merkle_tree \<Rightarrow> merkle_tree" where
  "build_layers cx t =
     (if mt_leaves t = [] then t\<lparr>mt_layers := []\<rparr> else t\<lparr>mt_layers := layers_loop cx (mt_leaves t)\<rparr>)"

definition mt_new :: "crypto \<Rightarrow> hash32 list \<Rightarrow> merkle_tree" where
  "mt_new cx leaves = build_layers cx \<lparr>mt_leaves = leaves, mt_layers = []\<rparr>"

definition mt_root :: "merkle_tree \<Rightarrow> hash32" where
  "mt_root t = (if mt_layers t = [] then 0
                else case last (mt_layers t) of [] \<Rightarrow> 0 | h # _ \<Rightarrow> h)"

definition append_leaf :: "crypto \<Rightarrow> merkle_tree \<Rightarrow> hash32 \<Rightarrow> merkle_tree" where
  "append_leaf cx t h = build_layers cx (t\<lparr>mt_leaves := mt_leaves t @ [h]\<rparr>)"

function parallel_loop :: "crypto \<Rightarrow> hash32 list \<Rightarrow> hash32 list" where
  "parallel_loop cx current =
     (if 1 < length current then parallel_loop cx (build_next_layer_parallel cx (mt_pad_node cx) current)
      else current)"
  by pat_completeness auto
termination
  by (relation "measure (\<lambda>(cx, current). length current)") (auto simp: build_next_layer_parallel_def)

declare parallel_loop.simps [simp del]

definition parallel_root :: "crypto \<Rightarrow> merkle_tree \<Rightarrow> hash32" where
  "parallel_root cx t =
     (if mt_leaves t = [] then 0
      else if length (mt_leaves t) = 1 then mt_leaves t ! 0
      else parallel_loop cx (mt_leaves t) ! 0)"

definition batch_build :: "crypto \<Rightarrow> hash32 list list \<Rightarrow> merkle_tree list" where
  "batch_build cx batches = map (mt_new cx) batches"

definition parallel_roots :: "crypto \<Rightarrow> hash32 list list \<Rightarrow> hash32 list" where
  "parallel_roots cx batches = map (\<lambda>leaves. parallel_root cx (mt_new cx leaves)) batches"

fun proof_layers :: "crypto \<Rightarrow> hash32 list list \<Rightarrow> nat \<Rightarrow> hash32 list" where
  "proof_layers cx [] current = []"
| "proof_layers cx (layer # rest) current =
     (if odd current then layer ! (current - 1)
      else if current + 1 < length layer then layer ! (current + 1)
      else mt_pad_node cx) # proof_layers cx rest (current div 2)"

definition mt_generate_proof :: "crypto \<Rightarrow> merkle_tree \<Rightarrow> nat \<Rightarrow> (hash32 list, unit) result" where
  "mt_generate_proof cx t index =
     (if length (mt_leaves t) \<le> index then Err ()
      else Ok (proof_layers cx (butlast (mt_layers t)) index))"

fun mt_verify_walk :: "crypto \<Rightarrow> hash32 \<Rightarrow> hash32 list \<Rightarrow> nat \<Rightarrow> hash32" where
  "mt_verify_walk cx current [] index = current"
| "mt_verify_walk cx current (sibling' # rest) index =
     mt_verify_walk cx
       (if index mod 2 = 1 then mt_hash_pair cx sibling' current else mt_hash_pair cx current sibling')
       rest (index div 2)"

definition mt_verify_proof :: "crypto \<Rightarrow> hash32 \<Rightarrow> hash32 list \<Rightarrow> hash32 \<Rightarrow> nat \<Rightarrow> bool" where
  "mt_verify_proof cx leaf proof' root index = (mt_verify_walk cx leaf proof' index = root)"

datatype proof_structure_error = ProofOfEmptyTree | InconsistentLayers | BadDepth nat nat

definition validate_proof_structure ::
  "merkle_tree \<Rightarrow> hash32 list \<Rightarrow> (unit, proof_structure_error) result" where
  "validate_proof_structure t proof' =
     (if mt_leaves t = [] then (if proof' = [] then Ok () else Err ProofOfEmptyTree)
      else if mt_layers t = [] \<or> length (mt_layers t ! 0) \<noteq> length (mt_leaves t)
        then Err InconsistentLayers
      else if length proof' \<noteq> length (mt_layers t) - 1
        then Err (BadDepth (length (mt_layers t) - 1) (length proof'))
      else Ok ())"

section \<open>Both implementations follow the reference\<close>

lemma root_loop_root:
  "level \<noteq> [] \<Longrightarrow> \<not> first \<Longrightarrow>
     root_loop cx level first = ([root_of (tx_merkle_pair cx) MERKLE_PAD_NODE level], False)"
proof (induction cx level first rule: root_loop.induct)
  case (1 cx level first)
  let ?root = "root_of (tx_merkle_pair cx) MERKLE_PAD_NODE"
  show ?case
  proof (cases "1 < length level")
    case True
    then have "build_next_level cx level first \<noteq> []"
      using level_up_nonempty [OF True] "1.prems" by (simp add: build_next_level_eq)
    then have "root_loop cx (build_next_level cx level first) False
        = ([?root (build_next_level cx level first)], False)"
      using "1.IH" True by simp
    then show ?thesis
      using True "1.prems"
      by (simp add: root_loop.simps [of cx level False] root_of.simps [of "tx_merkle_pair cx" _ level]
          build_next_level_eq)
  next
    case False
    then obtain x where "level = [x]"
      using "1.prems" by (cases level) auto
    then show ?thesis
      using "1.prems" by (simp add: root_loop.simps root_of.simps)
  qed
qed

lemma calculate_merkle_root_eq:
  "leaves \<noteq> [] \<Longrightarrow> calculate_merkle_root cx leaves
     = root_of (tx_merkle_pair cx) MERKLE_PAD_NODE (map (tx_merkle_leaf cx) leaves)"
proof (cases "1 < length leaves")
  case True
  moreover assume "leaves \<noteq> []"
  moreover have "build_next_level cx leaves True \<noteq> []"
    using True level_up_nonempty [of "map (tx_merkle_leaf cx) leaves"] by (simp add: build_next_level_eq)
  ultimately show ?thesis
    using root_loop_root [of "build_next_level cx leaves True" False cx]
    by (simp add: calculate_merkle_root_def root_loop.simps [of cx leaves]
        root_of.simps [of "tx_merkle_pair cx" _ "map (tx_merkle_leaf cx) leaves"] build_next_level_eq)
next
  case False
  moreover assume "leaves \<noteq> []"
  ultimately obtain x where "leaves = [x]"
    by (cases leaves) auto
  then show ?thesis
    by (simp add: calculate_merkle_root_def root_loop.simps root_of.simps)
qed

lemma verify_walk_climb: "verify_merkle_walk cx x i p = climb (tx_merkle_pair cx) x i p"
  by (induction cx x i p rule: verify_merkle_walk.induct) (auto simp: even_iff_mod_2_eq_zero)

lemma mt_walk_climb: "mt_verify_walk cx x p i = climb (mt_hash_pair cx) x i p"
  by (induction cx x p i rule: mt_verify_walk.induct) (auto simp: odd_iff_mod_2_eq_one)

lemma scan_chunk_skip:
  "(\<And>c. c \<in> set cs \<Longrightarrow> c * 2 \<noteq> cur \<and> c * 2 + 1 \<noteq> cur) \<Longrightarrow>
     fold (scan_chunk level) cs (cur, acc) = (cur, acc)"
  by (induction cs) (auto simp: Let_def)

lemma scan_level_eq:
  assumes "cur < length level" "even (length level)"
  shows "scan_level level cur acc = (cur div 2, acc @ [level ! (if even cur then cur + 1 else cur - 1)])"
proof -
  let ?k = "cur div 2" and ?n = "length level div 2"
  have k: "?k < ?n" using assms by auto
  have split: "[0..<?n] = [0..<?k] @ ?k # [Suc ?k..<?n]"
    using k upt_add_eq_append [of 0 ?k "?n - ?k"] upt_conv_Cons [of ?k ?n] by simp
  have "fold (scan_chunk level) [0..<?k] (cur, acc) = (cur, acc)"
    by (rule scan_chunk_skip) auto
  moreover have "scan_chunk level ?k (cur, acc)
      = (?k, acc @ [level ! (if even cur then cur + 1 else cur - 1)])"
    by (cases "even cur") (auto simp: Let_def mult.commute elim!: oddE)
  moreover have "fold (scan_chunk level) [Suc ?k..<?n] (?k, acc') = (?k, acc')" for acc'
    by (rule scan_chunk_skip) auto
  ultimately show ?thesis
    by (simp add: scan_level_def split)
qed

lemma padded_sibling:
  assumes "i < length xs"
  shows "pad_level_to_even xs ! (if even i then i + 1 else i - 1) = sibling MERKLE_PAD_NODE xs i"
    and "i < length (pad_level_to_even xs)" "even (length (pad_level_to_even xs))"
proof -
  show "i < length (pad_level_to_even xs)" "even (length (pad_level_to_even xs))"
    using assms by (auto simp: pad_level_to_even_def)
  show "pad_level_to_even xs ! (if even i then i + 1 else i - 1) = sibling MERKLE_PAD_NODE xs i"
  proof (cases "odd i \<or> i + 1 < length xs")
    case True
    then show ?thesis
      using assms by (auto simp: pad_level_to_even_def sibling_def nth_append)
  next
    case False
    then have "length xs = i + 1" "even i"
      using assms by auto
    then show ?thesis
      by (simp add: pad_level_to_even_def sibling_def nth_append)
  qed
qed

lemma proof_loop_path:
  "i < length level \<Longrightarrow> proof_loop cx level first i acc
     = acc @ path_of (tx_merkle_pair cx) MERKLE_PAD_NODE
               (if first then map (tx_merkle_leaf cx) level else level) i"
proof (induction cx level first i acc rule: proof_loop.induct)
  case (1 cx level first i acc)
  let ?xs = "if first then map (tx_merkle_leaf cx) level else level"
  let ?up = "level_up (tx_merkle_pair cx) MERKLE_PAD_NODE ?xs"
  have up: "map (\<lambda>(l, r). tx_merkle_pair cx l r) (chunks2 (pad_level_to_even ?xs)) = ?up"
    by (simp only: chunks2_padded level_up_def)
  show ?case
  proof (cases "1 < length level")
    case True
    have i: "i < length ?xs" using "1.prems" by simp
    have scan: "scan_level (pad_level_to_even ?xs) i acc
        = (i div 2, acc @ [sibling MERKLE_PAD_NODE ?xs i])"
      using scan_level_eq padded_sibling [OF i] by simp
    have "i div 2 < length ?up"
      using i by simp
    then have "proof_loop cx ?up False (i div 2) (acc @ [sibling MERKLE_PAD_NODE ?xs i])
        = (acc @ [sibling MERKLE_PAD_NODE ?xs i]) @ path_of (tx_merkle_pair cx) MERKLE_PAD_NODE ?up (i div 2)"
      using "1.IH" [OF True refl scan [symmetric]] by (simp only: up if_False)
    then show ?thesis
      using True scan
      by (simp only: proof_loop.simps [of cx level first i acc] Let_def if_True up prod.case
          path_of.simps [of "tx_merkle_pair cx" MERKLE_PAD_NODE ?xs i]) simp
  next
    case False
    then show ?thesis
      by (simp add: proof_loop.simps [of cx level first i acc] path_of.simps [of _ _ ?xs i])
  qed
qed

lemma build_next_layer_parallel_eq: "build_next_layer_parallel cx pad xs = build_next_layer cx pad xs"
proof (rule nth_equalityI)
  show "length (build_next_layer_parallel cx pad xs) = length (build_next_layer cx pad xs)"
    by (simp add: build_next_layer_parallel_def build_next_layer_eq)
  fix k
  assume "k < length (build_next_layer_parallel cx pad xs)"
  then have k: "k < (length xs + 1) div 2" "2 * k < length xs"
    by (auto simp: build_next_layer_parallel_def)
  then show "build_next_layer_parallel cx pad xs ! k = build_next_layer cx pad xs ! k"
    using nth_level_up [of "2 * k" xs "mt_hash_pair cx" pad]
    by (simp add: build_next_layer_parallel_def build_next_layer_eq sibling_def Let_def mult.commute)
qed

lemma parallel_loop_root:
  "xs \<noteq> [] \<Longrightarrow> parallel_loop cx xs = [root_of (mt_hash_pair cx) (mt_pad_node cx) xs]"
proof (induction cx xs rule: parallel_loop.induct)
  case (1 cx xs)
  show ?case
  proof (cases "1 < length xs")
    case True
    then have "build_next_layer_parallel cx (mt_pad_node cx) xs \<noteq> []"
      using level_up_nonempty by (simp add: build_next_layer_parallel_eq build_next_layer_eq)
    then show ?thesis
      using "1.IH" True
      by (simp add: parallel_loop.simps [of cx xs] root_of.simps [of "mt_hash_pair cx" _ xs]
          build_next_layer_parallel_eq build_next_layer_eq)
  next
    case False
    then obtain x where "xs = [x]" using "1.prems" by (cases xs) auto
    then show ?thesis by (simp add: parallel_loop.simps root_of.simps)
  qed
qed

lemma layers_loop_last:
  "xs \<noteq> [] \<Longrightarrow> layers_loop cx xs \<noteq> [] \<and> hd (layers_loop cx xs) = xs
     \<and> last (layers_loop cx xs) = [root_of (mt_hash_pair cx) (mt_pad_node cx) xs]"
proof (induction cx xs rule: layers_loop.induct)
  case (1 cx xs)
  show ?case
  proof (cases "length xs \<le> 1")
    case True
    then obtain x where "xs = [x]" using "1.prems" by (cases xs) auto
    then show ?thesis by (simp add: layers_loop.simps root_of.simps)
  next
    case False
    then have "build_next_layer cx (mt_pad_node cx) xs \<noteq> []"
      using level_up_nonempty [of xs "mt_hash_pair cx" "mt_pad_node cx"] by (simp add: build_next_layer_eq)
    then show ?thesis
      using "1.IH" False
      by (simp add: layers_loop.simps [of cx xs] root_of.simps [of "mt_hash_pair cx" _ xs]
          build_next_layer_eq)
  qed
qed

lemma proof_layers_path:
  "proof_layers cx (butlast (layers_loop cx xs)) i = path_of (mt_hash_pair cx) (mt_pad_node cx) xs i
   \<and> length (path_of (mt_hash_pair cx) (mt_pad_node cx) xs i) = length (layers_loop cx xs) - 1"
proof (induction cx xs arbitrary: i rule: layers_loop.induct)
  case (1 cx xs)
  show ?case
  proof (cases "length xs \<le> 1")
    case True
    then show ?thesis by (simp add: layers_loop.simps [of cx xs] path_of.simps [of _ _ xs])
  next
    case False
    let ?up = "build_next_layer cx (mt_pad_node cx) xs"
    have ne: "layers_loop cx ?up \<noteq> []"
      using layers_loop.simps [of cx ?up] by (metis list.distinct(1))
    show ?thesis
      using "1.IH" [OF False, of "i div 2"] False ne
      by (simp add: layers_loop.simps [of cx xs] path_of.simps [of _ _ xs i] sibling_def
          build_next_layer_eq)
  qed
qed

section \<open>The interface of inclusion proofs\<close>

text \<open>
  What a client of a Merkle commitment relies on: a proof can be generated for each position of the
  committed list, and it verifies against the root.
\<close>

locale inclusion_proofs =
  fixes root :: "'h list \<Rightarrow> 'h" and prove :: "'h list \<Rightarrow> nat \<Rightarrow> 'h list option"
    and verify :: "'h \<Rightarrow> nat \<Rightarrow> 'h list \<Rightarrow> 'h \<Rightarrow> bool"
  assumes complete: "i < length xs \<Longrightarrow> \<exists>p. prove xs i = Some p \<and> verify (xs ! i) i p (root xs)"
    and bounds: "length xs \<le> i \<Longrightarrow> prove xs i = None"
begin

lemma member_provable: "x \<in> set xs \<Longrightarrow> \<exists>i p. prove xs i = Some p \<and> verify x i p (root xs)"
  using complete by (metis in_set_conv_nth)

lemma prove_iff: "(\<exists>p. prove xs i = Some p) \<longleftrightarrow> i < length xs"
  using complete bounds by (metis linorder_not_less option.distinct(1))

end

lemma body_proof_complete:
  "i < length xs \<Longrightarrow> \<exists>p. generate_merkle_proof cx xs i = Ok p
     \<and> verify_merkle_proof cx (xs ! i) i p (calculate_merkle_root cx xs)"
  using climb_path_root [of i "map (tx_merkle_leaf cx) xs" "tx_merkle_pair cx" MERKLE_PAD_NODE]
  by (cases "xs = []")
     (auto simp: generate_merkle_proof_def verify_merkle_proof_def proof_loop_path verify_walk_climb
        calculate_merkle_root_eq)

interpretation body_proofs: inclusion_proofs
  "calculate_merkle_root cx" "\<lambda>xs i. ok_of (generate_merkle_proof cx xs i)" "verify_merkle_proof cx"
  for cx
proof
  fix i and xs :: "hash32 list"
  show "i < length xs \<Longrightarrow> \<exists>p. ok_of (generate_merkle_proof cx xs i) = Some p
      \<and> verify_merkle_proof cx (xs ! i) i p (calculate_merkle_root cx xs)"
    using body_proof_complete [of i xs cx] by auto
  show "length xs \<le> i \<Longrightarrow> ok_of (generate_merkle_proof cx xs i) = None"
    by (simp add: generate_merkle_proof_def)
qed

lemma mt_root_eq:
  "xs \<noteq> [] \<Longrightarrow> mt_root (mt_new cx xs) = root_of (mt_hash_pair cx) (mt_pad_node cx) xs"
  using layers_loop_last [of xs cx] by (simp add: mt_root_def mt_new_def build_layers_def)

lemma mt_new_fields [simp]:
  "mt_leaves (mt_new cx xs) = xs"
  "mt_layers (mt_new cx xs) = (if xs = [] then [] else layers_loop cx xs)"
  by (simp_all add: mt_new_def build_layers_def)

lemma mt_generate_path:
  "i < length xs \<Longrightarrow> mt_generate_proof cx (mt_new cx xs) i
     = Ok (path_of (mt_hash_pair cx) (mt_pad_node cx) xs i)"
  using proof_layers_path [of cx xs i] by (auto simp: mt_generate_proof_def)

interpretation tree_proofs: inclusion_proofs
  "\<lambda>xs. mt_root (mt_new cx xs)" "\<lambda>xs i. ok_of (mt_generate_proof cx (mt_new cx xs) i)"
  "\<lambda>x i p r. mt_verify_proof cx x p r i" for cx
proof
  fix i and xs :: "hash32 list"
  show "i < length xs \<Longrightarrow> \<exists>p. ok_of (mt_generate_proof cx (mt_new cx xs) i) = Some p
      \<and> mt_verify_proof cx (xs ! i) p (mt_root (mt_new cx xs)) i"
    using climb_path_root [of i xs "mt_hash_pair cx" "mt_pad_node cx"]
    by (cases "xs = []") (auto simp: mt_generate_path mt_verify_proof_def mt_walk_climb mt_root_eq)
  show "length xs \<le> i \<Longrightarrow> ok_of (mt_generate_proof cx (mt_new cx xs) i) = None"
    by (simp add: mt_generate_proof_def)
qed

section \<open>Properties\<close>

text \<open>The byte strings that are hashed to commit to a list of leaves.\<close>

definition body_hash_inputs :: "crypto \<Rightarrow> hash32 list \<Rightarrow> bytes set" where
  "body_hash_inputs cx xs = (\<lambda>x. 0 # be_bytes 32 x) ` set xs
     \<union> (\<lambda>(l, r). 1 # be_bytes 32 l @ be_bytes 32 r)
         ` set (all_pairs (tx_merkle_pair cx) MERKLE_PAD_NODE (map (tx_merkle_leaf cx) xs))"

lemma body_leaf_input: "x \<in> set xs \<Longrightarrow> 0 # be_bytes 32 x \<in> body_hash_inputs cx xs"
  by (simp add: body_hash_inputs_def)

lemma body_pair_input:
  "(l, r) \<in> set (all_pairs (tx_merkle_pair cx) MERKLE_PAD_NODE (map (tx_merkle_leaf cx) xs))
     \<Longrightarrow> 1 # be_bytes 32 l @ be_bytes 32 r \<in> body_hash_inputs cx xs"
  by (force simp: body_hash_inputs_def)

abbreviation body_pairs :: "crypto \<Rightarrow> hash32 list \<Rightarrow> (hash32 \<times> hash32) set" where
  "body_pairs cx xs \<equiv> set (all_pairs (tx_merkle_pair cx) MERKLE_PAD_NODE (map (tx_merkle_leaf cx) xs))"

lemma body_pair_nonpad:
  assumes "0 \<notin> cx_sha256 cx ` body_hash_inputs cx zs" "(l, r) \<in> body_pairs cx zs"
  shows "tx_merkle_pair cx l r \<noteq> MERKLE_PAD_NODE"
  using assms body_pair_input [OF assms(2)] unfolding tx_merkle_pair_def MERKLE_PAD_NODE_def
  by (metis image_eqI)

lemma body_leaf_nonpad:
  assumes "0 \<notin> cx_sha256 cx ` body_hash_inputs cx zs" "x \<in> set zs"
  shows "tx_merkle_leaf cx x \<noteq> MERKLE_PAD_NODE"
  using assms body_leaf_input [OF assms(2)] unfolding tx_merkle_leaf_def MERKLE_PAD_NODE_def
  by (metis image_eqI)

lemma body_root_nonzero:
  assumes "zs \<noteq> []" "0 \<notin> cx_sha256 cx ` body_hash_inputs cx zs"
  shows "calculate_merkle_root cx zs \<noteq> 0"
proof -
  let ?l = "map (tx_merkle_leaf cx) zs" and ?n = "\<lambda>(l, r). tx_merkle_pair cx l r"
  let ?r = "root_of (tx_merkle_pair cx) MERKLE_PAD_NODE ?l"
  have "MERKLE_PAD_NODE \<notin> set ?l"
    using body_leaf_nonpad [OF assms(2)] by fastforce
  moreover have "MERKLE_PAD_NODE \<notin> ?n ` body_pairs cx zs"
    using body_pair_nonpad [OF assms(2)] by fastforce
  moreover have "[?r] = ?l \<or> set [?r] \<subseteq> ?n ` body_pairs cx zs"
    using assms(1) by (intro tree_level_elems tree_level_root) simp
  ultimately have "?r \<noteq> MERKLE_PAD_NODE"
    by (metis insert_subset list.set_intros(1) list.simps(15))
  then show ?thesis
    using assms(1) by (simp add: calculate_merkle_root_eq MERKLE_PAD_NODE_def)
qed

lemma body_pair_inj:
  assumes inj: "inj_on (cx_sha256 cx) I" and sub: "body_hash_inputs cx xs \<subseteq> I" "body_hash_inputs cx ys \<subseteq> I"
  shows "inj_on (\<lambda>(l, r). tx_merkle_pair cx l r) (body_pairs cx xs \<union> body_pairs cx ys)"
proof (rule inj_onI, clarify)
  fix l r l' r'
  assume "(l, r) \<in> body_pairs cx xs \<union> body_pairs cx ys" "(l', r') \<in> body_pairs cx xs \<union> body_pairs cx ys"
    and eq: "tx_merkle_pair cx l r = tx_merkle_pair cx l' r'"
  then have "1 # be_bytes 32 l @ be_bytes 32 r \<in> I" "1 # be_bytes 32 l' @ be_bytes 32 r' \<in> I"
    using body_pair_input sub by blast+
  then have "be_bytes 32 l @ be_bytes 32 r = be_bytes 32 l' @ be_bytes 32 r'"
    using inj eq by (auto simp: tx_merkle_pair_def dest: inj_onD)
  then show "l = l' \<and> r = r'" by (simp add: append_eq_append_conv)
qed

lemma body_leaf_inj:
  assumes inj: "inj_on (cx_sha256 cx) I" and sub: "body_hash_inputs cx xs \<subseteq> I" "body_hash_inputs cx ys \<subseteq> I"
  shows "inj_on (tx_merkle_leaf cx) (set xs \<union> set ys)"
proof (rule inj_onI)
  fix x y
  assume "x \<in> set xs \<union> set ys" "y \<in> set xs \<union> set ys" and eq: "tx_merkle_leaf cx x = tx_merkle_leaf cx y"
  then have "0 # be_bytes 32 x \<in> I" "0 # be_bytes 32 y \<in> I"
    using body_leaf_input sub by blast+
  then show "x = y"
    using inj_onD [OF inj] eq unfolding tx_merkle_leaf_def by (metis be32_inj list.inject)
qed

lemma body_leaf_pair_distinct:
  assumes inj: "inj_on (cx_sha256 cx) I" and sub: "body_hash_inputs cx xs \<subseteq> I" "body_hash_inputs cx ys \<subseteq> I"
    and "x \<in> set xs \<union> set ys" "(l, r) \<in> body_pairs cx xs \<union> body_pairs cx ys"
  shows "tx_merkle_leaf cx x \<noteq> tx_merkle_pair cx l r"
proof -
  have "0 # be_bytes 32 x \<in> I" "1 # be_bytes 32 l @ be_bytes 32 r \<in> I"
    using assms body_leaf_input body_pair_input by blast+
  then show ?thesis
    using inj by (auto simp: tx_merkle_leaf_def tx_merkle_pair_def dest: inj_onD)
qed

lemma body_root_inj:
  assumes inj: "inj_on (cx_sha256 cx) (body_hash_inputs cx xs \<union> body_hash_inputs cx ys)"
    and nz: "0 \<notin> cx_sha256 cx ` (body_hash_inputs cx xs \<union> body_hash_inputs cx ys)"
    and root: "calculate_merkle_root cx xs = calculate_merkle_root cx ys"
  shows "xs = ys"
proof (cases "xs = [] \<or> ys = []")
  case True
  then show ?thesis
    using root nz body_root_nonzero [of xs cx] body_root_nonzero [of ys cx]
    by (auto simp: calculate_merkle_root_def image_Un)
next
  case False
  let ?lx = "map (tx_merkle_leaf cx) xs" and ?ly = "map (tx_merkle_leaf cx) ys"
  let ?n = "\<lambda>(l, r). tx_merkle_pair cx l r"
  have "MERKLE_PAD_NODE \<notin> ?n ` (body_pairs cx xs \<union> body_pairs cx ys)"
    using body_pair_nonpad [of cx xs] body_pair_nonpad [of cx ys] nz by (fastforce simp: image_Un)
  moreover have "MERKLE_PAD_NODE \<notin> set ?lx \<union> set ?ly"
    using body_leaf_nonpad [of cx xs] body_leaf_nonpad [of cx ys] nz by (fastforce simp: image_Un)
  moreover have "(set ?lx \<union> set ?ly) \<inter> ?n ` (body_pairs cx xs \<union> body_pairs cx ys) = {}"
    using body_leaf_pair_distinct [OF inj, of xs ys] by fastforce
  ultimately have "?lx = ?ly"
    using root_of_inj [OF body_pair_inj [OF inj, of xs ys]] root False
    by (simp add: calculate_merkle_root_eq)
  moreover have "inj_on (tx_merkle_leaf cx) (set xs \<union> set ys)"
    by (rule body_leaf_inj [OF inj]) simp_all
  ultimately show ?thesis by (rule map_inj_on)
qed

text \<open>
  C17: the Merkle commitment of a block body binds the whole ordered list. If SHA-256 has no
  collision among the strings hashed for the two lists, and maps none of them to the all-zero padding
  node, then two lists of any lengths (empty included) with the same root are equal. This is what the
  leaf and node tags and the constant padding are for; the two hypotheses name exactly the inputs
  used, so a failure would exhibit a SHA-256 collision or a preimage of zero.
\<close>

theorem body_merkle_root_binding:
  assumes inj: "inj_on (cx_sha256 cx) (body_hash_inputs cx xs \<union> body_hash_inputs cx ys)"
    and nz: "0 \<notin> cx_sha256 cx ` (body_hash_inputs cx xs \<union> body_hash_inputs cx ys)"
    and root: "calculate_merkle_root cx xs = calculate_merkle_root cx ys"
  shows "xs = ys"
  using assms by (rule body_root_inj)

lemma toy_hashes:
  "cx_sha256 toy_crypto (0 # be_bytes 32 (1 :: hash32)) = 2"
  "cx_sha256 toy_crypto (0 # be_bytes 32 (2 :: hash32)) = 3"
  "cx_sha256 toy_crypto (0 # be_bytes 32 (5 :: hash32)) = 6"
  "cx_sha256 toy_crypto (1 # be_bytes 32 (2 :: hash32) @ be_bytes 32 (3 :: hash32)) = 4"
  by code_simp+

lemma toy_inputs:
  "body_hash_inputs toy_crypto [1, 2] \<union> body_hash_inputs toy_crypto [5]
   = {0 # be_bytes 32 (1 :: hash32), 0 # be_bytes 32 (2 :: hash32), 0 # be_bytes 32 (5 :: hash32),
      1 # be_bytes 32 (2 :: hash32) @ be_bytes 32 (3 :: hash32)}"
  by (simp add: body_hash_inputs_def all_pairs.simps tx_merkle_leaf_def toy_hashes insert_commute)

theorem body_merkle_root_binding_witness:
  "inj_on (cx_sha256 toy_crypto) (body_hash_inputs toy_crypto [1, 2] \<union> body_hash_inputs toy_crypto [5])
   \<and> calculate_merkle_root toy_crypto [1, 2] \<noteq> calculate_merkle_root toy_crypto [5]"
proof -
  have inj: "inj_on (cx_sha256 toy_crypto) (body_hash_inputs toy_crypto [1, 2] \<union> body_hash_inputs toy_crypto [5])"
    unfolding toy_inputs by (simp add: toy_hashes)
  moreover have "0 \<notin> cx_sha256 toy_crypto ` (body_hash_inputs toy_crypto [1, 2] \<union> body_hash_inputs toy_crypto [5])"
    unfolding toy_inputs by (simp add: toy_hashes)
  ultimately show ?thesis
    using body_merkle_root_binding [of toy_crypto "[1, 2]" "[5]"] by auto
qed

text \<open>
  C26: inclusion proofs of a block body are complete. For every position of the list a proof is
  generated, and it verifies the leaf at that position against the committed root, whatever the
  length of the list; positions beyond the end and the empty list are refused.
\<close>

theorem body_inclusion_proofs:
  "(i < length xs \<longleftrightarrow> is_ok (generate_merkle_proof cx xs i))
   \<and> (case generate_merkle_proof cx xs i of
        Ok p \<Rightarrow> verify_merkle_proof cx (xs ! i) i p (calculate_merkle_root cx xs)
      | Err _ \<Rightarrow> length xs \<le> i)"
proof (cases "i < length xs")
  case True
  then show ?thesis
    using body_proof_complete [OF True, of cx] by auto
next
  case False
  then show ?thesis
    using body_proofs.bounds [of xs i cx] by (cases "generate_merkle_proof cx xs i") auto
qed

text \<open>
  C28: the three ways of the crypto crate agree. The root of the stored layers, the parallel root and
  the root reached by any generated proof are the same hash, and every generated proof has the depth
  that the structural check asks for.
\<close>

theorem merkle_tree_agreement:
  assumes "i < length xs"
  shows "\<exists>p. mt_generate_proof cx (mt_new cx xs) i = Ok p
    \<and> mt_verify_proof cx (xs ! i) p (mt_root (mt_new cx xs)) i
    \<and> validate_proof_structure (mt_new cx xs) p = Ok ()
    \<and> parallel_root cx (mt_new cx xs) = mt_root (mt_new cx xs)"
proof -
  let ?p = "path_of (mt_hash_pair cx) (mt_pad_node cx) xs i"
  have ne: "xs \<noteq> []" using assms by auto
  have "mt_generate_proof cx (mt_new cx xs) i = Ok ?p"
    using assms by (rule mt_generate_path)
  moreover have "mt_verify_proof cx (xs ! i) ?p (mt_root (mt_new cx xs)) i"
    using climb_path_root [OF assms] ne by (simp add: mt_verify_proof_def mt_walk_climb mt_root_eq)
  moreover have "layers_loop cx xs \<noteq> []" "layers_loop cx xs ! 0 = xs"
    using layers_loop_last [OF ne, of cx] by (auto simp: hd_conv_nth)
  then have "validate_proof_structure (mt_new cx xs) ?p = Ok ()"
    using ne proof_layers_path [of cx xs i] by (simp add: validate_proof_structure_def)
  moreover have "parallel_root cx (mt_new cx xs) = mt_root (mt_new cx xs)"
  proof (cases "length xs = 1")
    case True
    then obtain x where "xs = [x]" by (cases xs) auto
    then show ?thesis by (simp add: parallel_root_def mt_root_eq root_of.simps)
  next
    case False
    then show ?thesis
      using ne parallel_loop_root [OF ne, of cx] by (simp add: parallel_root_def mt_root_eq)
  qed
  ultimately show ?thesis by blast
qed

theorem merkle_tree_agreement_witness:
  "\<exists>p. mt_generate_proof toy_crypto (mt_new toy_crypto [1, 2, 3]) 2 = Ok p
     \<and> mt_verify_proof toy_crypto 3 p (mt_root (mt_new toy_crypto [1, 2, 3])) 2"
  using merkle_tree_agreement [of 2 "[1, 2, 3]" toy_crypto] by auto

text \<open>
  The root of the crypto crate's tree does not determine the leaf list. For every hash function,
  three leaves and the same three leaves followed by the public padding node have the same root, so
  the padding alone does not give the uniqueness that its comment promises; only tagged leaves do, as
  in the block body.
\<close>

theorem merkle_tree_pad_collision:
  "mt_root (mt_new cx [a, b, c]) = mt_root (mt_new cx [a, b, c, mt_pad_node cx])
   \<and> [a, b, c] \<noteq> [a, b, c, mt_pad_node cx]"
  by (simp add: mt_root_eq root_of.simps)

end
