(* ===== verification/Block.thy ===== *)
theory Block
  imports Transactions MerkleTrees
begin

text \<open>
  Block headers, bodies and blocks (\<open>crates/block/src/header.rs\<close>, \<open>body.rs\<close>, \<open>block.rs\<close>): hashing,
  proposer signatures, validation of a header, of a body and of a block, parent links, and the
  block builder. The bincode encoders are parameters, gathered in the record \<open>block_env\<close>.
\<close>

section \<open>Headers\<close>

definition MAX_BLOCK_SIZE_BYTES :: nat where
  "MAX_BLOCK_SIZE_BYTES = 2 * 1024 * 1024"

definition MAX_TRANSACTIONS_PER_BLOCK :: nat where
  "MAX_TRANSACTIONS_PER_BLOCK = 10000"

definition BLOCK_VERSION_CURRENT :: u32 where
  "BLOCK_VERSION_CURRENT = 1"

definition MAX_BLOCK_GAS_LIMIT :: u64 where
  "MAX_BLOCK_GAS_LIMIT = 30000000"

definition DEFAULT_BLOCK_GAS_LIMIT :: u64 where
  "DEFAULT_BLOCK_GAS_LIMIT = 15000000"

definition MIN_BLOCK_GAS_LIMIT :: u64 where
  "MIN_BLOCK_GAS_LIMIT = 5000"

definition MAX_FUTURE_BLOCK_TIME_SECS :: u64 where
  "MAX_FUTURE_BLOCK_TIME_SECS = 5"

definition MIN_TIMESTAMP_GAP :: u64 where
  "MIN_TIMESTAMP_GAP = 1"

definition GENESIS_TIMESTAMP :: u64 where
  "GENESIS_TIMESTAMP = 1704067200"

definition MAX_EXTRA_DATA_SIZE :: nat where
  "MAX_EXTRA_DATA_SIZE = 32"

definition MAX_ZK_PROOF_SIZE :: nat where
  "MAX_ZK_PROOF_SIZE = 256 * 1024"

record block_header =
  bh_parent_hash :: hash32
  bh_state_root :: hash32
  bh_tx_root :: hash32
  bh_receipts_root :: hash32
  bh_validator_root :: hash32
  bh_zk_proof :: "bytes option"
  bh_height :: u64
  bh_timestamp :: u64
  bh_proposer :: address
  bh_randomness_beacon :: hash32
  bh_version :: u32
  bh_gas_limit :: u64
  bh_gas_used :: u64
  bh_extra_data :: bytes
  bh_chain_id :: u64
  bh_signature :: "sig64 option"

record block_body =
  bb_transactions :: "transaction list"
  bb_receipts :: "receipt list"

record block =
  blk_header :: block_header
  blk_body :: block_body

record block_env =
  be_tx :: tx_env
  be_header_bytes :: "block_header \<Rightarrow> bytes option"
  be_receipt_bytes :: "receipt \<Rightarrow> bytes option"
  be_validator_bytes :: "validator \<Rightarrow> bytes option"
  be_block_bytes :: "block \<Rightarrow> bytes option"

abbreviation be_crypto :: "block_env \<Rightarrow> crypto" where
  "be_crypto be \<equiv> te_crypto (be_tx be)"

datatype header_error =
    ZeroTimestamp
  | GenesisParentNonZero
  | NonGenesisParentZero u64
  | NonGenesisZeroProposer
  | GenesisNonZeroProposer
  | InvalidVersion u32 u32
  | InvalidChainId u64 u64
  | GasLimitExceeded u64 u64
  | GasLimitTooLow u64 u64
  | GasUsedExceedsLimit u64 u64
  | ExtraDataTooLarge nat nat
  | ZkProofTooLarge nat nat
  | FutureTimestamp u64 u64 u64
  | TimestampBeforeGenesis u64 u64
  | MissingSignature
  | ProposerKeyMismatch address address
  | InvalidHeaderKey
  | HeaderSignatureFailed
  | ParentHashMismatch hash32 hash32
  | HeightMismatch u64 u64
  | HeightOverflow u64
  | TimestampOverflow u64
  | TimestampRegression u64 u64
  | HeaderEncodeFailed

definition header_new :: "hash32 \<Rightarrow> u64 \<Rightarrow> u64 \<Rightarrow> block_header" where
  "header_new parent height ts =
     \<lparr>bh_parent_hash = parent, bh_state_root = 0, bh_tx_root = 0, bh_receipts_root = 0,
      bh_validator_root = 0, bh_zk_proof = None, bh_height = height, bh_timestamp = ts,
      bh_proposer = 0, bh_randomness_beacon = 0, bh_version = BLOCK_VERSION_CURRENT,
      bh_gas_limit = DEFAULT_BLOCK_GAS_LIMIT, bh_gas_used = 0, bh_extra_data = [],
      bh_chain_id = SXIAUM_CHAIN_ID, bh_signature = None\<rparr>"

definition header_genesis :: block_header where
  "header_genesis = header_new 0 0 GENESIS_TIMESTAMP"

definition header_hash :: "block_env \<Rightarrow> block_header \<Rightarrow> (hash32, header_error) result" where
  "header_hash be h =
     then_ok (ok_or (be_header_bytes be (h\<lparr>bh_signature := None\<rparr>)) HeaderEncodeFailed)
       (\<lambda>bs. Ok (cx_sha256 (be_crypto be) bs))"

text \<open>Signing with an abstract signer: its public key and its signature of the header hash.\<close>

definition header_sign ::
  "block_env \<Rightarrow> hash32 \<Rightarrow> (hash32 \<Rightarrow> (sig64, header_error) result) \<Rightarrow> block_header
     \<Rightarrow> (block_header, header_error) result" where
  "header_sign be pubkey sign_hash h =
     (let derived = from_public_key (be_crypto be) pubkey in
      then_ok (if bh_proposer h = 0 then Ok (h\<lparr>bh_proposer := derived\<rparr>)
               else if bh_proposer h \<noteq> derived then Err (ProposerKeyMismatch (bh_proposer h) derived)
               else Ok h)
        (\<lambda>h. then_ok (header_hash be h) (\<lambda>hash. then_ok (sign_hash hash)
               (\<lambda>sg. Ok (h\<lparr>bh_signature := Some sg\<rparr>)))))"

definition header_verify_signature :: "block_env \<Rightarrow> block_header \<Rightarrow> hash32 \<Rightarrow> (bool, header_error) result" where
  "header_verify_signature be h pk =
     then_ok (ok_or (bh_signature h) MissingSignature) (\<lambda>sg.
     (let derived = from_public_key (be_crypto be) pk in
      if derived \<noteq> bh_proposer h then Err (ProposerKeyMismatch (bh_proposer h) derived)
      else if \<not> cx_vk_ok (be_crypto be) pk then Err InvalidHeaderKey
      else then_ok (header_hash be h) (\<lambda>hash.
        if cx_ed_verify (be_crypto be) pk (be_bytes 32 hash) sg then Ok True
        else Err HeaderSignatureFailed)))"

definition header_validate_basic :: "block_header \<Rightarrow> (unit, header_error) result" where
  "header_validate_basic h =
     (if bh_timestamp h = 0 then Err ZeroTimestamp
      else if bh_height h = 0 \<and> bh_parent_hash h \<noteq> 0 then Err GenesisParentNonZero
      else if MAX_EXTRA_DATA_SIZE < length (bh_extra_data h)
        then Err (ExtraDataTooLarge (length (bh_extra_data h)) MAX_EXTRA_DATA_SIZE)
      else case bh_zk_proof h of
          Some p \<Rightarrow> (if MAX_ZK_PROOF_SIZE < length p then Err (ZkProofTooLarge (length p) MAX_ZK_PROOF_SIZE)
                    else Ok ())
        | None \<Rightarrow> Ok ())"

definition header_validate_mainnet :: "block_header \<Rightarrow> u64 \<Rightarrow> (unit, header_error) result" where
  "header_validate_mainnet h local_time =
     then_ok (header_validate_basic h) (\<lambda>_.
      if bh_version h \<noteq> BLOCK_VERSION_CURRENT
        then Err (InvalidVersion BLOCK_VERSION_CURRENT (bh_version h))
      else if bh_chain_id h \<noteq> SXIAUM_CHAIN_ID then Err (InvalidChainId SXIAUM_CHAIN_ID (bh_chain_id h))
      else if MAX_BLOCK_GAS_LIMIT < bh_gas_limit h
        then Err (GasLimitExceeded (bh_gas_limit h) MAX_BLOCK_GAS_LIMIT)
      else if bh_gas_limit h < MIN_BLOCK_GAS_LIMIT
        then Err (GasLimitTooLow (bh_gas_limit h) MIN_BLOCK_GAS_LIMIT)
      else if bh_gas_limit h < bh_gas_used h
        then Err (GasUsedExceedsLimit (bh_gas_used h) (bh_gas_limit h))
      else if 0 < bh_height h \<and> bh_parent_hash h = 0 then Err (NonGenesisParentZero (bh_height h))
      else if 0 < bh_height h \<and> bh_proposer h = 0 then Err NonGenesisZeroProposer
      else if \<not> 0 < bh_height h \<and> bh_proposer h \<noteq> 0 then Err GenesisNonZeroProposer
      else if bh_timestamp h < GENESIS_TIMESTAMP
        then Err (TimestampBeforeGenesis (bh_timestamp h) GENESIS_TIMESTAMP)
      else if sat_add local_time MAX_FUTURE_BLOCK_TIME_SECS < bh_timestamp h
        then Err (FutureTimestamp (bh_timestamp h) local_time MAX_FUTURE_BLOCK_TIME_SECS)
      else Ok ())"

definition header_validate_parent_child ::
  "block_env \<Rightarrow> block_header \<Rightarrow> block_header \<Rightarrow> u64 \<Rightarrow> (unit, header_error) result" where
  "header_validate_parent_child be h parent local_time =
     then_ok (header_validate_mainnet h local_time) (\<lambda>_.
     then_ok (header_hash be parent) (\<lambda>parent_hash.
      if bh_parent_hash h \<noteq> parent_hash then Err (ParentHashMismatch parent_hash (bh_parent_hash h))
      else then_ok (ok_or (checked_add (bh_height parent) 1) (HeightOverflow (bh_height parent))) (\<lambda>expected.
        if bh_height h \<noteq> expected then Err (HeightMismatch expected (bh_height h))
        else if bh_timestamp h \<le> bh_timestamp parent
          then Err (TimestampRegression (bh_timestamp h) (bh_timestamp parent))
        else Ok ())))"

section \<open>Bodies\<close>

datatype body_error =
    TooManyTransactions nat nat
  | InvalidTransaction nat tx_error
  | TxHashFailed tx_error
  | DuplicateTransaction hash32
  | TooManyReceipts nat nat
  | ReceiptCountMismatch nat nat
  | ReceiptTxHashMismatch nat hash32 hash32
  | ReceiptGasExceedsTxLimit nat u64 u64
  | GasOverflow
  | TotalGasUsedExceedsBlockLimit u64 u64
  | TotalTxGasLimitExceedsBlockLimit u64 u64
  | ReceiptInvalid receipt_error
  | ReceiptEncodeFailed
  | ValidatorEncodeFailed
  | ProofFailed body_proof_error

definition body_empty :: block_body where
  "body_empty = \<lparr>bb_transactions = [], bb_receipts = []\<rparr>"

definition add_transaction :: "block_body \<Rightarrow> transaction \<Rightarrow> block_body" where
  "add_transaction b t = b\<lparr>bb_transactions := bb_transactions b @ [t]\<rparr>"

definition add_transactions :: "block_body \<Rightarrow> transaction list \<Rightarrow> block_body" where
  "add_transactions b ts = b\<lparr>bb_transactions := bb_transactions b @ ts\<rparr>"

definition add_receipt :: "block_body \<Rightarrow> receipt \<Rightarrow> block_body" where
  "add_receipt b r = b\<lparr>bb_receipts := bb_receipts b @ [r]\<rparr>"

definition add_receipts :: "block_body \<Rightarrow> receipt list \<Rightarrow> block_body" where
  "add_receipts b rs = b\<lparr>bb_receipts := bb_receipts b @ rs\<rparr>"

definition receipt_hash :: "block_env \<Rightarrow> receipt \<Rightarrow> (hash32, body_error) result" where
  "receipt_hash be r =
     then_ok (map_err ReceiptInvalid (receipt_validate r)) (\<lambda>_.
     then_ok (ok_or (be_receipt_bytes be r) ReceiptEncodeFailed) (\<lambda>bs. Ok (cx_sha256 (be_crypto be) bs)))"

fun map_result :: "('a \<Rightarrow> ('b, 'e) result) \<Rightarrow> 'a list \<Rightarrow> ('b list, 'e) result" where
  "map_result f [] = Ok []"
| "map_result f (x # xs) = then_ok (f x) (\<lambda>y. then_ok (map_result f xs) (\<lambda>ys. Ok (y # ys)))"

definition tx_hashes :: "block_env \<Rightarrow> transaction list \<Rightarrow> (hash32 list, body_error) result" where
  "tx_hashes be ts = map_result (\<lambda>t. map_err TxHashFailed (tx_hash (be_tx be) t)) ts"

definition compute_tx_root :: "block_env \<Rightarrow> block_body \<Rightarrow> (hash32, body_error) result" where
  "compute_tx_root be b =
     (if bb_transactions b = [] then Ok 0
      else then_ok (tx_hashes be (bb_transactions b)) (\<lambda>hs. Ok (calculate_merkle_root (be_crypto be) hs)))"

definition compute_receipt_root :: "block_env \<Rightarrow> block_body \<Rightarrow> (hash32, body_error) result" where
  "compute_receipt_root be b =
     (if bb_receipts b = [] then Ok 0
      else then_ok (map_result (receipt_hash be) (bb_receipts b))
        (\<lambda>hs. Ok (calculate_merkle_root (be_crypto be) hs)))"

definition validator_hash :: "block_env \<Rightarrow> validator \<Rightarrow> (hash32, body_error) result" where
  "validator_hash be v =
     then_ok (ok_or (be_validator_bytes be v) ValidatorEncodeFailed) (\<lambda>bs. Ok (cx_sha256 (be_crypto be) bs))"

definition compute_validator_root :: "block_env \<Rightarrow> validator list \<Rightarrow> (hash32, body_error) result" where
  "compute_validator_root be vs =
     (if vs = [] then Ok 0
      else then_ok (map_result (validator_hash be) vs) (\<lambda>hs. Ok (calculate_merkle_root (be_crypto be) hs)))"

definition generate_tx_merkle_proof ::
  "block_env \<Rightarrow> block_body \<Rightarrow> nat \<Rightarrow> (hash32 list, body_error) result" where
  "generate_tx_merkle_proof be b index =
     (if length (bb_transactions b) \<le> index
      then Err (ProofFailed (IndexOutOfBounds index (length (bb_transactions b))))
      else then_ok (tx_hashes be (bb_transactions b)) (\<lambda>leaves.
        map_err ProofFailed (generate_merkle_proof (be_crypto be) leaves index)))"

definition verify_tx_merkle_proof :: "block_env \<Rightarrow> hash32 \<Rightarrow> nat \<Rightarrow> hash32 list \<Rightarrow> hash32 \<Rightarrow> bool" where
  "verify_tx_merkle_proof be h index proof' root = verify_merkle_proof (be_crypto be) h index proof' root"

definition generate_receipt_merkle_proof ::
  "block_env \<Rightarrow> block_body \<Rightarrow> nat \<Rightarrow> (hash32 list, body_error) result" where
  "generate_receipt_merkle_proof be b index =
     (if length (bb_receipts b) \<le> index
      then Err (ProofFailed (IndexOutOfBounds index (length (bb_receipts b))))
      else then_ok (map_result (receipt_hash be) (bb_receipts b)) (\<lambda>leaves.
        map_err ProofFailed (generate_merkle_proof (be_crypto be) leaves index)))"

definition generate_validator_merkle_proof ::
  "block_env \<Rightarrow> validator list \<Rightarrow> nat \<Rightarrow> (hash32 list, body_error) result" where
  "generate_validator_merkle_proof be vs index =
     (if length vs \<le> index then Err (ProofFailed (IndexOutOfBounds index (length vs)))
      else then_ok (map_result (validator_hash be) vs) (\<lambda>leaves.
        map_err ProofFailed (generate_merkle_proof (be_crypto be) leaves index)))"

fun validate_tx_loop ::
  "block_env \<Rightarrow> nat \<Rightarrow> transaction list \<Rightarrow> hash32 list \<Rightarrow> (unit, body_error) result" where
  "validate_tx_loop be i [] seen = Ok ()"
| "validate_tx_loop be i (t # ts) seen =
     then_ok (map_err (InvalidTransaction i) (tx_validate_basic (be_tx be) t)) (\<lambda>_.
     then_ok (map_err TxHashFailed (tx_hash (be_tx be) t)) (\<lambda>h.
      if h \<in> set seen then Err (DuplicateTransaction h)
      else validate_tx_loop be (i + 1) ts (h # seen)))"

definition validate_transactions :: "block_env \<Rightarrow> block_body \<Rightarrow> (unit, body_error) result" where
  "validate_transactions be b =
     (if MAX_TRANSACTIONS_PER_BLOCK < length (bb_transactions b)
      then Err (TooManyTransactions (length (bb_transactions b)) MAX_TRANSACTIONS_PER_BLOCK)
      else validate_tx_loop be 0 (bb_transactions b) [])"

fun validate_receipt_loop ::
  "block_env \<Rightarrow> nat \<Rightarrow> (transaction \<times> receipt) list \<Rightarrow> (unit, body_error) result" where
  "validate_receipt_loop be i [] = Ok ()"
| "validate_receipt_loop be i ((t, r) # rest) =
     then_ok (map_err TxHashFailed (tx_hash (be_tx be) t)) (\<lambda>h.
      if rc_tx_hash r \<noteq> h then Err (ReceiptTxHashMismatch i h (rc_tx_hash r))
      else if tx_gas_limit t < rc_gas_used r
        then Err (ReceiptGasExceedsTxLimit i (rc_gas_used r) (tx_gas_limit t))
      else validate_receipt_loop be (i + 1) rest)"

definition validate_receipts :: "block_env \<Rightarrow> block_body \<Rightarrow> (unit, body_error) result" where
  "validate_receipts be b =
     (if MAX_TRANSACTIONS_PER_BLOCK < length (bb_receipts b)
      then Err (TooManyReceipts (length (bb_receipts b)) MAX_TRANSACTIONS_PER_BLOCK)
      else if length (bb_receipts b) \<noteq> length (bb_transactions b)
      then Err (ReceiptCountMismatch (length (bb_transactions b)) (length (bb_receipts b)))
      else validate_receipt_loop be 0 (zip (bb_transactions b) (bb_receipts b)))"

fun sum_checked :: "u64 list \<Rightarrow> u64 \<Rightarrow> (u64, body_error) result" where
  "sum_checked [] acc = Ok acc"
| "sum_checked (x # xs) acc = then_ok (ok_or (checked_add acc x) GasOverflow) (sum_checked xs)"

definition total_gas_used :: "block_body \<Rightarrow> u64" where
  "total_gas_used b = fold (\<lambda>r acc. sat_add acc (rc_gas_used r)) (bb_receipts b) 0"

definition total_gas_limit :: "block_body \<Rightarrow> u64" where
  "total_gas_limit b = fold (\<lambda>t acc. sat_add acc (tx_gas_limit t)) (bb_transactions b) 0"

definition total_gas_used_checked :: "block_body \<Rightarrow> (u64, body_error) result" where
  "total_gas_used_checked b = sum_checked (map rc_gas_used (bb_receipts b)) 0"

definition total_gas_limit_checked :: "block_body \<Rightarrow> (u64, body_error) result" where
  "total_gas_limit_checked b = sum_checked (map tx_gas_limit (bb_transactions b)) 0"

definition body_validate_gas_limit :: "block_body \<Rightarrow> u64 \<Rightarrow> (unit, body_error) result" where
  "body_validate_gas_limit b limit =
     then_ok (total_gas_used_checked b) (\<lambda>t.
      if limit < t then Err (TotalGasUsedExceedsBlockLimit t limit) else Ok ())"

definition body_validate_mainnet :: "block_env \<Rightarrow> block_body \<Rightarrow> u64 \<Rightarrow> (unit, body_error) result" where
  "body_validate_mainnet be b limit =
     then_ok (validate_transactions be b) (\<lambda>_.
     then_ok (validate_receipts be b) (\<lambda>_.
     then_ok (body_validate_gas_limit b limit) (\<lambda>_.
     then_ok (total_gas_limit_checked b) (\<lambda>t.
      if limit < t then Err (TotalTxGasLimitExceedsBlockLimit t limit)
      else if MAX_TRANSACTIONS_PER_BLOCK < length (bb_transactions b)
        then Err (TooManyTransactions (length (bb_transactions b)) MAX_TRANSACTIONS_PER_BLOCK)
      else Ok ()))))"

section \<open>Blocks\<close>

datatype block_error =
    HeaderErr header_error
  | BodyErr body_error
  | MerkleRootMismatch hash32 hash32
  | BlockTooManyTransactions nat nat
  | BlockTooManyReceipts nat nat
  | BlockSizeExceeded nat nat
  | BlockEncodeFailed
  | GasUsedMismatch u64 u64
  | GenesisNonEmptyBody

definition block_genesis :: "hash32 \<Rightarrow> block" where
  "block_genesis state_root =
     \<lparr>blk_header = header_genesis\<lparr>bh_state_root := state_root\<rparr>, blk_body = body_empty\<rparr>"

definition block_hash :: "block_env \<Rightarrow> block \<Rightarrow> (hash32, header_error) result" where
  "block_hash be b = header_hash be (blk_header b)"

definition try_compute_roots :: "block_env \<Rightarrow> block \<Rightarrow> (block, body_error) result" where
  "try_compute_roots be b =
     then_ok (compute_tx_root be (blk_body b)) (\<lambda>tx_root.
     then_ok (compute_receipt_root be (blk_body b)) (\<lambda>receipt_root.
     then_ok (total_gas_used_checked (blk_body b)) (\<lambda>gas.
      Ok (b\<lparr>blk_header := (blk_header b)\<lparr>bh_tx_root := tx_root, bh_receipts_root := receipt_root,
                                             bh_gas_used := gas\<rparr>\<rparr>))))"

definition try_verify_merkle_roots :: "block_env \<Rightarrow> block \<Rightarrow> (bool, body_error) result" where
  "try_verify_merkle_roots be b =
     then_ok (compute_tx_root be (blk_body b)) (\<lambda>tx_root.
     then_ok (compute_receipt_root be (blk_body b)) (\<lambda>receipt_root.
      Ok (bh_tx_root (blk_header b) = tx_root \<and> bh_receipts_root (blk_header b) = receipt_root)))"

definition verify_block_structure :: "block_env \<Rightarrow> block \<Rightarrow> bool" where
  "verify_block_structure be b = (try_verify_merkle_roots be b = Ok True)"

definition verify_block_timestamp_drift :: "block \<Rightarrow> u64 \<Rightarrow> u64 \<Rightarrow> bool" where
  "verify_block_timestamp_drift b local_time max_drift =
     (let t = bh_timestamp (blk_header b) in
      (if local_time \<le> t then t - local_time else local_time - t) \<le> max_drift)"

definition verify_full :: "block_env \<Rightarrow> block \<Rightarrow> hash32 \<Rightarrow> (bool, block_error) result" where
  "verify_full be b pk =
     then_ok (map_err HeaderErr (header_verify_signature be (blk_header b) pk)) (\<lambda>ok.
      if \<not> ok then Ok False else map_err BodyErr (try_verify_merkle_roots be b))"

definition try_verify_parent_link :: "block_env \<Rightarrow> block \<Rightarrow> block \<Rightarrow> (bool, header_error) result" where
  "try_verify_parent_link be b previous =
     (case checked_add (bh_height (blk_header previous)) 1 of
        None \<Rightarrow> Ok False
      | Some expected \<Rightarrow>
          then_ok (block_hash be previous) (\<lambda>ph.
            Ok (bh_parent_hash (blk_header b) = ph \<and> bh_height (blk_header b) = expected)))"

definition block_validate_basic :: "block_env \<Rightarrow> block \<Rightarrow> (unit, block_error) result" where
  "block_validate_basic be b =
     then_ok (map_err HeaderErr (header_validate_basic (blk_header b))) (\<lambda>_.
     then_ok (ensure (length (bb_transactions (blk_body b)) \<le> MAX_TRANSACTIONS_PER_BLOCK)
               (BlockTooManyTransactions (length (bb_transactions (blk_body b))) MAX_TRANSACTIONS_PER_BLOCK)) (\<lambda>_.
     then_ok (ensure (length (bb_receipts (blk_body b)) \<le> MAX_TRANSACTIONS_PER_BLOCK)
               (BlockTooManyReceipts (length (bb_receipts (blk_body b))) MAX_TRANSACTIONS_PER_BLOCK)) (\<lambda>_.
     then_ok (ok_or (be_block_bytes be b) BlockEncodeFailed) (\<lambda>bs.
     then_ok (ensure (length bs \<le> MAX_BLOCK_SIZE_BYTES) (BlockSizeExceeded (length bs) MAX_BLOCK_SIZE_BYTES)) (\<lambda>_.
     then_ok (map_err BodyErr (validate_transactions be (blk_body b))) (\<lambda>_.
     then_ok (map_err BodyErr (validate_receipts be (blk_body b))) (\<lambda>_.
     then_ok (map_err BodyErr (compute_tx_root be (blk_body b))) (\<lambda>tx_root.
     then_ok (ensure (bh_tx_root (blk_header b) = tx_root)
               (MerkleRootMismatch (bh_tx_root (blk_header b)) tx_root)) (\<lambda>_.
     then_ok (map_err BodyErr (compute_receipt_root be (blk_body b))) (\<lambda>receipt_root.
      ensure (bh_receipts_root (blk_header b) = receipt_root)
        (MerkleRootMismatch (bh_receipts_root (blk_header b)) receipt_root)))))))))))"

definition block_validate_mainnet :: "block_env \<Rightarrow> block \<Rightarrow> u64 \<Rightarrow> (unit, block_error) result" where
  "block_validate_mainnet be b local_time =
     then_ok (block_validate_basic be b) (\<lambda>_.
     then_ok (map_err HeaderErr (header_validate_mainnet (blk_header b) local_time)) (\<lambda>_.
     then_ok (map_err BodyErr (body_validate_mainnet be (blk_body b) (bh_gas_limit (blk_header b)))) (\<lambda>_.
     then_ok (ensure (bh_height (blk_header b) = 0 \<longrightarrow>
                        bb_transactions (blk_body b) = [] \<and> bb_receipts (blk_body b) = []) GenesisNonEmptyBody) (\<lambda>_.
     then_ok (ensure (bh_height (blk_header b) = 0 \<longrightarrow> bh_gas_used (blk_header b) = 0)
               (GasUsedMismatch (bh_gas_used (blk_header b)) 0)) (\<lambda>_.
     then_ok (map_err BodyErr (total_gas_used_checked (blk_body b))) (\<lambda>gas.
      ensure (bh_gas_used (blk_header b) = gas) (GasUsedMismatch (bh_gas_used (blk_header b)) gas)))))))"

definition block_validate_parent_child ::
  "block_env \<Rightarrow> block \<Rightarrow> block \<Rightarrow> u64 \<Rightarrow> (unit, block_error) result" where
  "block_validate_parent_child be b previous local_time =
     then_ok (block_validate_mainnet be b local_time) (\<lambda>_.
      map_err HeaderErr (header_validate_parent_child be (blk_header b) (blk_header previous) local_time))"

definition try_quorum_cert_hash :: "block_env \<Rightarrow> block \<Rightarrow> (hash32, header_error) result" where
  "try_quorum_cert_hash be b =
     then_ok (block_hash be b) (\<lambda>h. Ok (cx_sha256 (be_crypto be)
       (ascii ''SXIAUM_QC_HASH'' @ le_bytes 8 (bh_height (blk_header b)) @ be_bytes 32 h)))"

text \<open>The builder starts from the parent's header, and fills in roots and gas when it builds.\<close>

definition builder_try_new :: "block_env \<Rightarrow> block_header \<Rightarrow> (block, header_error) result" where
  "builder_try_new be parent =
     then_ok (ok_or (checked_add (bh_height parent) 1) (HeightOverflow (bh_height parent))) (\<lambda>height.
     then_ok (ok_or (checked_add (bh_timestamp parent) MIN_TIMESTAMP_GAP)
               (TimestampOverflow (bh_timestamp parent))) (\<lambda>time.
     then_ok (header_hash be parent) (\<lambda>ph.
      Ok \<lparr>blk_header = header_new ph height time, blk_body = body_empty\<rparr>)))"

definition validate_before_commit :: "block_env \<Rightarrow> block \<Rightarrow> (unit, block_error) result" where
  "validate_before_commit be b =
     then_ok (map_err HeaderErr (header_validate_basic (blk_header b))) (\<lambda>_.
     then_ok (map_err BodyErr (validate_transactions be (blk_body b))) (\<lambda>_.
     then_ok (map_err BodyErr (validate_receipts be (blk_body b))) (\<lambda>_.
      map_err BodyErr (body_validate_gas_limit (blk_body b) (bh_gas_limit (blk_header b))))))"

definition builder_try_build :: "block_env \<Rightarrow> block \<Rightarrow> (block, body_error) result" where
  "builder_try_build be b =
     then_ok (compute_tx_root be (blk_body b)) (\<lambda>tx_root.
     then_ok (compute_receipt_root be (blk_body b)) (\<lambda>receipt_root.
     then_ok (total_gas_used_checked (blk_body b)) (\<lambda>gas.
      Ok \<lparr>blk_header = (blk_header b)\<lparr>bh_tx_root := tx_root, bh_receipts_root := receipt_root,
                                           bh_gas_used := gas\<rparr>,
          blk_body = blk_body b\<rparr>)))"

definition try_sign_and_build ::
  "block_env \<Rightarrow> hash32 \<Rightarrow> (hash32 \<Rightarrow> (sig64, header_error) result) \<Rightarrow> block
     \<Rightarrow> (block, block_error) result" where
  "try_sign_and_build be pubkey sign_hash b =
     then_ok (map_err BodyErr (builder_try_build be b)) (\<lambda>blk.
     then_ok (map_err HeaderErr (header_sign be pubkey sign_hash (blk_header blk))) (\<lambda>h.
      Ok (blk\<lparr>blk_header := h\<rparr>)))"

section \<open>What validation establishes\<close>

lemma map_result_Ok:
  "map_result f xs = Ok ys \<longleftrightarrow> length ys = length xs \<and> (\<forall>i < length xs. f (xs ! i) = Ok (ys ! i))"
proof (induction xs arbitrary: ys)
  case (Cons x xs)
  show ?case
    by (cases ys) (auto simp: Cons.IH less_Suc_eq_0_disj)
qed auto

lemma sum_checked_Ok:
  "sum_checked xs acc = Ok t \<Longrightarrow> unat t = unat acc + sum_list (map unat xs)"
  by (induction xs arbitrary: acc) (auto dest!: checked_add_SomeD)

lemma total_gas_used_Ok:
  "total_gas_used_checked b = Ok t \<Longrightarrow> unat t = (\<Sum>r\<leftarrow>bb_receipts b. unat (rc_gas_used r))"
  unfolding total_gas_used_checked_def by (drule sum_checked_Ok) (simp add: comp_def)

lemma total_gas_limit_Ok:
  "total_gas_limit_checked b = Ok t \<Longrightarrow> unat t = (\<Sum>x\<leftarrow>bb_transactions b. unat (tx_gas_limit x))"
  unfolding total_gas_limit_checked_def by (drule sum_checked_Ok) (simp add: comp_def)

lemma validate_tx_loop_Ok:
  "validate_tx_loop be i ts seen = Ok () \<Longrightarrow>
     \<exists>hs. tx_hashes be ts = Ok hs \<and> distinct hs \<and> set hs \<inter> set seen = {}
        \<and> (\<forall>t \<in> set ts. tx_validate_basic (be_tx be) t = Ok ())"
proof (induction be i ts seen rule: validate_tx_loop.induct)
  case (2 be i t ts seen)
  then obtain h where h: "tx_hash (be_tx be) t = Ok h" "h \<notin> set seen" "tx_validate_basic (be_tx be) t = Ok ()"
    and rest: "validate_tx_loop be (i + 1) ts (h # seen) = Ok ()"
    by (auto split: if_splits)
  obtain hs where "tx_hashes be ts = Ok hs" "distinct hs" "set hs \<inter> set (h # seen) = {}"
    "\<forall>t \<in> set ts. tx_validate_basic (be_tx be) t = Ok ()"
    using "2.IH" h rest by force
  with h show ?case
    by (intro exI [of _ "h # hs"]) (auto simp: tx_hashes_def)
qed (simp add: tx_hashes_def)

lemma validate_receipt_loop_Ok:
  "validate_receipt_loop be i ps = Ok () \<Longrightarrow>
     \<forall>(t, r) \<in> set ps. tx_hash (be_tx be) t = Ok (rc_tx_hash r) \<and> rc_gas_used r \<le> tx_gas_limit t"
  by (induction be i ps rule: validate_receipt_loop.induct) (auto split: if_splits)

lemma sum_receipts_le:
  "length rs = length ts \<Longrightarrow> \<forall>(t, r) \<in> set (zip ts rs). rc_gas_used r \<le> tx_gas_limit t \<Longrightarrow>
     (\<Sum>r\<leftarrow>rs. unat (rc_gas_used r)) \<le> (\<Sum>t\<leftarrow>ts. unat (tx_gas_limit t))"
  by (induction rs ts rule: list_induct2) (auto simp: word_le_nat_alt add_mono)

lemma compute_tx_root_Ok:
  "compute_tx_root be b = Ok r \<longleftrightarrow>
     (\<exists>hs. tx_hashes be (bb_transactions b) = Ok hs \<and> r = calculate_merkle_root (be_crypto be) hs)"
  by (auto simp: compute_tx_root_def tx_hashes_def calculate_merkle_root_def)

lemma compute_receipt_root_Ok:
  "compute_receipt_root be b = Ok r \<longleftrightarrow>
     (\<exists>hs. map_result (receipt_hash be) (bb_receipts b) = Ok hs \<and> r = calculate_merkle_root (be_crypto be) hs)"
  by (auto simp: compute_receipt_root_def calculate_merkle_root_def)

lemma validate_transactions_Ok:
  "validate_transactions be b = Ok () \<Longrightarrow>
     length (bb_transactions b) \<le> MAX_TRANSACTIONS_PER_BLOCK
     \<and> (\<exists>hs. tx_hashes be (bb_transactions b) = Ok hs \<and> distinct hs)
     \<and> (\<forall>t \<in> set (bb_transactions b). tx_validate_basic (be_tx be) t = Ok ())"
  by (fastforce simp: validate_transactions_def split: if_splits dest: validate_tx_loop_Ok)

lemma validate_receipts_Ok:
  assumes "validate_receipts be b = Ok ()"
  shows "length (bb_receipts b) = length (bb_transactions b)"
    and "i < length (bb_transactions b) \<Longrightarrow>
           tx_hash (be_tx be) (bb_transactions b ! i) = Ok (rc_tx_hash (bb_receipts b ! i))
           \<and> rc_gas_used (bb_receipts b ! i) \<le> tx_gas_limit (bb_transactions b ! i)"
    and "(\<Sum>r\<leftarrow>bb_receipts b. unat (rc_gas_used r)) \<le> (\<Sum>t\<leftarrow>bb_transactions b. unat (tx_gas_limit t))"
proof -
  show len: "length (bb_receipts b) = length (bb_transactions b)"
    using assms by (simp add: validate_receipts_def split: if_splits)
  have all: "\<forall>(t, r) \<in> set (zip (bb_transactions b) (bb_receipts b)).
      tx_hash (be_tx be) t = Ok (rc_tx_hash r) \<and> rc_gas_used r \<le> tx_gas_limit t"
    using assms by (intro validate_receipt_loop_Ok) (simp add: validate_receipts_def split: if_splits)
  show "i < length (bb_transactions b) \<Longrightarrow>
      tx_hash (be_tx be) (bb_transactions b ! i) = Ok (rc_tx_hash (bb_receipts b ! i))
      \<and> rc_gas_used (bb_receipts b ! i) \<le> tx_gas_limit (bb_transactions b ! i)"
    using all len by (fastforce simp: set_zip)
  show "(\<Sum>r\<leftarrow>bb_receipts b. unat (rc_gas_used r)) \<le> (\<Sum>t\<leftarrow>bb_transactions b. unat (tx_gas_limit t))"
    using all len by (intro sum_receipts_le) auto
qed

lemma receipts_list_tx_hashes:
  assumes "validate_receipts be b = Ok ()"
  shows "tx_hashes be (bb_transactions b) = Ok (map rc_tx_hash (bb_receipts b))"
  using validate_receipts_Ok [OF assms] by (simp add: tx_hashes_def map_result_Ok)

lemma block_validate_basicD:
  assumes "block_validate_basic be b = Ok ()"
  shows "validate_transactions be (blk_body b) = Ok ()" "validate_receipts be (blk_body b) = Ok ()"
    "compute_tx_root be (blk_body b) = Ok (bh_tx_root (blk_header b))"
    "compute_receipt_root be (blk_body b) = Ok (bh_receipts_root (blk_header b))"
    "header_validate_basic (blk_header b) = Ok ()"
  using assms by (auto simp: block_validate_basic_def)

lemma header_validate_mainnetD:
  assumes "header_validate_mainnet h now = Ok ()"
  shows "bh_gas_limit h \<le> MAX_BLOCK_GAS_LIMIT" "bh_gas_used h \<le> bh_gas_limit h"
    "bh_height h \<noteq> 0 \<Longrightarrow> bh_parent_hash h \<noteq> 0 \<and> bh_proposer h \<noteq> 0"
    "GENESIS_TIMESTAMP \<le> bh_timestamp h" "bh_chain_id h = SXIAUM_CHAIN_ID"
  using assms by (auto simp: header_validate_mainnet_def word_neq_0_conv split: if_splits)

lemma parent_childD:
  assumes "header_validate_parent_child be h p now = Ok ()"
  shows "header_hash be p = Ok (bh_parent_hash h)" "unat (bh_height h) = unat (bh_height p) + 1"
    "bh_timestamp p < bh_timestamp h" "header_validate_mainnet h now = Ok ()"
  using assms by (auto simp: header_validate_parent_child_def split: if_splits dest!: checked_add_SomeD)

text \<open>
  C11: what an accepted block guarantees. A block that passes the mainnet check has as many receipts as
  transactions, at most 10,000, every one naming the hash of its transaction; no transaction hash
  occurs twice, and the header commits to those hashes. The gas in the header is the exact sum of the
  gas of the receipts, without wrap-around, no receipt exceeds the limit of its transaction, and the
  declared limits together stay within the block limit, which is at most 30,000,000. The genesis block
  is empty.
\<close>

theorem validated_block_sound:
  assumes "block_validate_mainnet be b now = Ok ()"
  shows "let ts = bb_transactions (blk_body b); rs = bb_receipts (blk_body b); h = blk_header b in
    length rs = length ts \<and> length ts \<le> 10000
    \<and> tx_hashes be ts = Ok (map rc_tx_hash rs) \<and> distinct (map rc_tx_hash rs)
    \<and> bh_tx_root h = calculate_merkle_root (be_crypto be) (map rc_tx_hash rs)
    \<and> list_all (\<lambda>(t, r). rc_gas_used r \<le> tx_gas_limit t) (zip ts rs)
    \<and> unat (bh_gas_used h) = (\<Sum>r\<leftarrow>rs. unat (rc_gas_used r))
    \<and> unat (bh_gas_used h) \<le> (\<Sum>t\<leftarrow>ts. unat (tx_gas_limit t))
    \<and> (\<Sum>t\<leftarrow>ts. unat (tx_gas_limit t)) \<le> unat (bh_gas_limit h) \<and> bh_gas_limit h \<le> 30000000
    \<and> (if bh_height h = 0 then ts = [] else bh_parent_hash h \<noteq> 0 \<and> bh_proposer h \<noteq> 0)"
proof -
  have basic: "block_validate_basic be b = Ok ()" and main: "header_validate_mainnet (blk_header b) now = Ok ()"
    and body: "body_validate_mainnet be (blk_body b) (bh_gas_limit (blk_header b)) = Ok ()"
    and gas: "total_gas_used_checked (blk_body b) = Ok (bh_gas_used (blk_header b))"
    and gen: "bh_height (blk_header b) = 0 \<Longrightarrow> bb_transactions (blk_body b) = []"
    using assms by (auto simp: block_validate_mainnet_def)
  obtain t where t: "total_gas_limit_checked (blk_body b) = Ok t" "t \<le> bh_gas_limit (blk_header b)"
    using body by (auto simp: body_validate_mainnet_def not_less split: if_splits)
  note rec = validate_receipts_Ok [OF block_validate_basicD(2) [OF basic]]
  note hashes = receipts_list_tx_hashes [OF block_validate_basicD(2) [OF basic]]
  have zipped: "list_all (\<lambda>(t, r). rc_gas_used r \<le> tx_gas_limit t)
      (zip (bb_transactions (blk_body b)) (bb_receipts (blk_body b)))"
    using rec(1,2) by (auto simp: list_all_length)
  have limit: "(\<Sum>t\<leftarrow>bb_transactions (blk_body b). unat (tx_gas_limit t)) \<le> unat (bh_gas_limit (blk_header b))"
    using total_gas_limit_Ok [OF t(1)] t(2) by (simp add: word_le_nat_alt)
  have "distinct (map rc_tx_hash (bb_receipts (blk_body b)))"
    using validate_transactions_Ok [OF block_validate_basicD(1) [OF basic]] hashes by auto
  moreover have "length (bb_transactions (blk_body b)) \<le> 10000"
    using validate_transactions_Ok [OF block_validate_basicD(1) [OF basic]]
    by (simp add: MAX_TRANSACTIONS_PER_BLOCK_def)
  moreover have "bh_tx_root (blk_header b)
      = calculate_merkle_root (be_crypto be) (map rc_tx_hash (bb_receipts (blk_body b)))"
    using block_validate_basicD(3) [OF basic] hashes by (auto simp: compute_tx_root_Ok)
  moreover have "unat (bh_gas_used (blk_header b)) \<le> (\<Sum>t\<leftarrow>bb_transactions (blk_body b). unat (tx_gas_limit t))"
    using rec(3) total_gas_used_Ok [OF gas] by simp
  ultimately show ?thesis
    using rec(1) hashes zipped limit total_gas_used_Ok [OF gas] gen header_validate_mainnetD [OF main]
    by (simp add: Let_def MAX_BLOCK_GAS_LIMIT_def)
qed

text \<open>A block with one Ethereum transaction and its receipt, on top of the genesis block.\<close>

definition toy_block_env :: block_env where
  "toy_block_env = \<lparr>be_tx = toy_tx_env, be_header_bytes = (\<lambda>h. Some [ucast (bh_height h)]),
     be_receipt_bytes = (\<lambda>r. Some [ucast (rc_gas_used r)]),
     be_validator_bytes = (\<lambda>v. Some (be_bytes 32 (val_address v))), be_block_bytes = (\<lambda>b. Some [1])\<rparr>"

definition toy_body :: block_body where
  "toy_body = \<lparr>bb_transactions = [toy_eth_tx], bb_receipts = [new_success 4 21000 None]\<rparr>"

definition toy_header :: block_header where
  "toy_header = (header_new 9 1 (GENESIS_TIMESTAMP + 1))\<lparr>bh_proposer := 6, bh_gas_used := 21000,
     bh_tx_root := calculate_merkle_root toy_crypto [4],
     bh_receipts_root := calculate_merkle_root toy_crypto [cx_sha256 toy_crypto [ucast (21000 :: u64)]]\<rparr>"

definition toy_block :: block where
  "toy_block = \<lparr>blk_header = toy_header, blk_body = toy_body\<rparr>"

lemma toy_eth_tx_facts:
  "tx_validate_basic toy_tx_env toy_eth_tx = Ok ()" "tx_hash toy_tx_env toy_eth_tx = Ok 4"
  "tx_gas_limit toy_eth_tx = 21000"
  by (simp_all add: toy_eth_simps tx_hash_def)

lemma toy_receipt_ok: "receipt_validate (new_success 4 21000 None) = Ok ()"
  by (simp add: receipt_validate_def new_success_def MAX_RECEIPT_LOGS_def)

lemma toy_body_facts:
  "validate_transactions toy_block_env toy_body = Ok ()" "validate_receipts toy_block_env toy_body = Ok ()"
  "compute_tx_root toy_block_env toy_body = Ok (calculate_merkle_root toy_crypto [4])"
  "compute_receipt_root toy_block_env toy_body
     = Ok (calculate_merkle_root toy_crypto [cx_sha256 toy_crypto [ucast (21000 :: u64)]])"
  "total_gas_used_checked toy_body = Ok 21000" "total_gas_limit_checked toy_body = Ok 21000"
proof -
  have env: "be_tx toy_block_env = toy_tx_env" "te_crypto toy_tx_env = toy_crypto"
    by (simp_all add: toy_block_env_def toy_tx_env_def)
  show "validate_transactions toy_block_env toy_body = Ok ()"
    by (simp add: validate_transactions_def toy_body_def env toy_eth_tx_facts MAX_TRANSACTIONS_PER_BLOCK_def)
  show "validate_receipts toy_block_env toy_body = Ok ()"
    by (simp add: validate_receipts_def toy_body_def env toy_eth_tx_facts MAX_TRANSACTIONS_PER_BLOCK_def new_success_def)
  show "compute_tx_root toy_block_env toy_body = Ok (calculate_merkle_root toy_crypto [4])"
    by (simp add: compute_tx_root_def tx_hashes_def toy_body_def env toy_eth_tx_facts)
  show "compute_receipt_root toy_block_env toy_body
     = Ok (calculate_merkle_root toy_crypto [cx_sha256 toy_crypto [ucast (21000 :: u64)]])"
    using toy_receipt_ok
    by (simp add: compute_receipt_root_def receipt_hash_def toy_body_def env)
       (simp add: toy_block_env_def toy_tx_env_def new_success_def)
  show "total_gas_used_checked toy_body = Ok 21000" "total_gas_limit_checked toy_body = Ok 21000"
    by (simp_all add: total_gas_used_checked_def total_gas_limit_checked_def toy_body_def new_success_def
        toy_eth_tx_facts checked_add_def)
qed

lemma toy_header_ok: "header_validate_basic toy_header = Ok ()" "header_validate_mainnet toy_header GENESIS_TIMESTAMP = Ok ()"
  by (simp_all add: header_validate_mainnet_def header_validate_basic_def toy_header_def header_new_def
      GENESIS_TIMESTAMP_def MAX_EXTRA_DATA_SIZE_def MAX_BLOCK_GAS_LIMIT_def MIN_BLOCK_GAS_LIMIT_def
      DEFAULT_BLOCK_GAS_LIMIT_def MAX_FUTURE_BLOCK_TIME_SECS_def sat_add_def)

lemma toy_block_basic: "block_validate_basic toy_block_env toy_block = Ok ()"
  unfolding block_validate_basic_def toy_block_def
  by (simp add: toy_body_facts toy_header_ok)
     (simp add: toy_body_def toy_header_def MAX_TRANSACTIONS_PER_BLOCK_def toy_block_env_def MAX_BLOCK_SIZE_BYTES_def)

theorem validated_block_sound_witness:
  "block_validate_mainnet toy_block_env toy_block GENESIS_TIMESTAMP = Ok ()
   \<and> unat (bh_gas_used (blk_header toy_block)) = (\<Sum>r\<leftarrow>bb_receipts (blk_body toy_block). unat (rc_gas_used r))"
proof -
  have "bh_gas_limit toy_header = DEFAULT_BLOCK_GAS_LIMIT" "bh_height toy_header = 1" "bh_gas_used toy_header = 21000"
    by (simp_all add: toy_header_def header_new_def)
  then have ok: "block_validate_mainnet toy_block_env toy_block GENESIS_TIMESTAMP = Ok ()"
    using toy_block_basic
    by (simp add: block_validate_mainnet_def body_validate_mainnet_def body_validate_gas_limit_def
        toy_block_def toy_body_facts toy_header_ok DEFAULT_BLOCK_GAS_LIMIT_def MAX_TRANSACTIONS_PER_BLOCK_def)
       (simp add: toy_body_def)
  show ?thesis
    using ok validated_block_sound [OF ok] by (simp add: Let_def)
qed

section \<open>Chains of headers\<close>

abbreviation unsigned_header :: "block_header \<Rightarrow> block_header" where
  "unsigned_header h \<equiv> h\<lparr>bh_signature := None\<rparr>"

text \<open>A chain, newest header first, in which every header was checked against its parent.\<close>

fun header_chain :: "block_env \<Rightarrow> u64 \<Rightarrow> block_header list \<Rightarrow> bool" where
  "header_chain be now [] = False"
| "header_chain be now [g] = (header_validate_mainnet g now = Ok () \<and> bh_height g = 0)"
| "header_chain be now (h # p # hs) =
     (header_validate_parent_child be h p now = Ok () \<and> header_chain be now (p # hs))"

lemma header_chain_heights:
  "header_chain be now (h # hs) \<Longrightarrow> unat (bh_height h) = length hs"
  by (induction be now "h # hs" arbitrary: h hs rule: header_chain.induct)
     (auto dest!: parent_childD(2))

lemma header_chain_times:
  "header_chain be now hs \<Longrightarrow> sorted_wrt (\<lambda>h p. bh_timestamp p < bh_timestamp h) hs"
proof (induction be now hs rule: header_chain.induct)
  case (3 be now h p hs)
  have "bh_timestamp p < bh_timestamp h"
    using 3 parent_childD(3) [of be h p now] by simp
  then show ?case
    using 3 by (auto intro: less_trans)
qed auto

lemma header_hash_inj:
  assumes "header_hash be h = Ok x" "header_hash be g = Ok x"
    and "inj_on (be_header_bytes be) (unsigned_header ` H)"
    and "inj_on (cx_sha256 (be_crypto be)) {bs. \<exists>k \<in> H. be_header_bytes be (unsigned_header k) = Some bs}"
    and "h \<in> H" "g \<in> H"
  shows "unsigned_header h = unsigned_header g"
proof -
  obtain bs cs where b: "be_header_bytes be (unsigned_header h) = Some bs" "cx_sha256 (be_crypto be) bs = x"
    and c: "be_header_bytes be (unsigned_header g) = Some cs" "cx_sha256 (be_crypto be) cs = x"
    using assms(1,2) by (auto simp: header_hash_def)
  have "bs = cs"
  proof (rule inj_onD [OF assms(4)])
    show "cx_sha256 (be_crypto be) bs = cx_sha256 (be_crypto be) cs"
      using b c by simp
  qed (use b(1) c(1) assms(5,6) in auto)
  then have "be_header_bytes be (unsigned_header h) = be_header_bytes be (unsigned_header g)"
    using b c by simp
  then show ?thesis
    by (rule inj_onD [OF assms(3)]) (use assms(5,6) in auto)
qed

lemma unsigned_fields:
  assumes "unsigned_header h = unsigned_header g"
  shows "bh_parent_hash h = bh_parent_hash g" "bh_height h = bh_height g"
    "bh_tx_root h = bh_tx_root g" "bh_receipts_root h = bh_receipts_root g"
  using arg_cong [OF assms, of bh_parent_hash] arg_cong [OF assms, of bh_height]
    arg_cong [OF assms, of bh_tx_root] arg_cong [OF assms, of bh_receipts_root] by simp_all

lemma header_chains_equal:
  "header_chain be now (h # hs) \<Longrightarrow> header_chain be now' (g # gs) \<Longrightarrow>
     header_hash be h = Ok x \<Longrightarrow> header_hash be g = Ok x \<Longrightarrow>
     inj_on (be_header_bytes be) (unsigned_header ` H) \<Longrightarrow>
     inj_on (cx_sha256 (be_crypto be)) {bs. \<exists>k \<in> H. be_header_bytes be (unsigned_header k) = Some bs} \<Longrightarrow>
     set (h # hs) \<subseteq> H \<Longrightarrow> set (g # gs) \<subseteq> H \<Longrightarrow>
     map unsigned_header (h # hs) = map unsigned_header (g # gs)"
proof (induction hs arbitrary: h g gs x)
  case Nil
  have eq: "unsigned_header h = unsigned_header g"
    using Nil.prems(7,8) by (intro header_hash_inj [OF Nil.prems(3-6)]) auto
  then have "length gs = 0"
    using unsigned_fields(2) [OF eq] header_chain_heights [OF Nil.prems(1)] header_chain_heights [OF Nil.prems(2)]
    by simp
  then show ?case using eq by simp
next
  case (Cons p hs)
  have eq: "unsigned_header h = unsigned_header g"
    using Cons.prems(7,8) by (intro header_hash_inj [OF Cons.prems(3-6)]) auto
  then have "length gs = length (p # hs)"
    using unsigned_fields(2) [OF eq] header_chain_heights [OF Cons.prems(1)] header_chain_heights [OF Cons.prems(2)]
    by simp
  then obtain q gs' where gs: "gs = q # gs'" by (cases gs) auto
  have p: "header_hash be p = Ok (bh_parent_hash h)" and q: "header_hash be q = Ok (bh_parent_hash h)"
    using Cons.prems(1,2) gs unsigned_fields(1) [OF eq] by (auto dest!: parent_childD(1))
  have "map unsigned_header (p # hs) = map unsigned_header (q # gs')"
    using Cons.prems(1,2,7,8) gs by (intro Cons.IH [OF _ _ p q Cons.prems(5,6)]) auto
  then show ?case using eq gs by simp
qed

text \<open>
  C12: a header hash commits to the whole chain below it. Take two chains down to genesis, each header
  checked against its parent, on any two local clocks. If their tips have the same hash, and neither
  the header encoding nor SHA-256 collides on the headers involved, then the chains have the same
  length and agree in every field of every header but the proposer signatures. Heights count down to
  zero and timestamps strictly decrease towards genesis.
\<close>

theorem tip_hash_commits_chain:
  assumes "header_chain be now (h # hs)" "header_chain be now' (g # gs)"
    and "header_hash be h = Ok x" "header_hash be g = Ok x"
    and "inj_on (be_header_bytes be) (unsigned_header ` set (h # hs @ g # gs))"
    and "inj_on (cx_sha256 (be_crypto be))
           {bs. \<exists>k \<in> set (h # hs @ g # gs). be_header_bytes be (unsigned_header k) = Some bs}"
  shows "map unsigned_header (h # hs) = map unsigned_header (g # gs)
    \<and> unat (bh_height h) = length hs
    \<and> sorted_wrt (\<lambda>c p. bh_timestamp p < bh_timestamp c) (h # hs)"
proof (intro conjI)
  show "map unsigned_header (h # hs) = map unsigned_header (g # gs)"
    by (rule header_chains_equal [OF assms]) auto
qed (use header_chain_heights [OF assms(1)] header_chain_times [OF assms(1)] in auto)

theorem tip_hash_commits_chain_witness:
  "header_chain toy_block_env GENESIS_TIMESTAMP
     [header_genesis\<lparr>bh_signature := Some 1\<rparr>]
   \<and> map unsigned_header [header_genesis\<lparr>bh_signature := Some 1\<rparr>] = map unsigned_header [header_genesis]"
proof -
  let ?g = "header_genesis\<lparr>bh_signature := Some 1\<rparr>"
  have c: "header_chain toy_block_env GENESIS_TIMESTAMP [?g]" "header_chain toy_block_env GENESIS_TIMESTAMP [header_genesis]"
    by (simp_all add: header_genesis_def header_validate_mainnet_def header_validate_basic_def header_new_def
      GENESIS_TIMESTAMP_def MAX_EXTRA_DATA_SIZE_def MAX_BLOCK_GAS_LIMIT_def MIN_BLOCK_GAS_LIMIT_def
      DEFAULT_BLOCK_GAS_LIMIT_def MAX_FUTURE_BLOCK_TIME_SECS_def sat_add_def)
  have h: "header_hash toy_block_env ?g = Ok (cx_sha256 toy_crypto [0])"
    "header_hash toy_block_env header_genesis = Ok (cx_sha256 toy_crypto [0])"
    by (simp_all add: header_hash_def toy_block_env_def toy_tx_env_def header_genesis_def header_new_def)
  show ?thesis
    using c tip_hash_commits_chain [OF c h] by (auto simp: inj_on_def)
qed

section \<open>Building a block\<close>

lemma header_sign_Ok:
  assumes "header_sign be pk sg h = Ok h'"
  obtains x s where "header_hash be h' = Ok x" "sg x = Ok s" "bh_signature h' = Some s"
    "bh_proposer h' = from_public_key (be_crypto be) pk"
proof -
  have cong: "header_hash be (k\<lparr>bh_signature := s\<rparr>) = header_hash be k" for k s
    by (simp add: header_hash_def)
  show thesis
    using assms that by (auto simp: header_sign_def Let_def cong split: if_splits)
qed

lemma signed_header_verifies:
  assumes "header_sign be pk sg h = Ok h'" "cx_vk_ok (be_crypto be) pk"
    and "\<And>x s. sg x = Ok s \<Longrightarrow> cx_ed_verify (be_crypto be) pk (be_bytes 32 x) s"
  shows "header_verify_signature be h' pk = Ok True"
  using assms(1)
proof (rule header_sign_Ok)
  fix x s
  assume "header_hash be h' = Ok x" "sg x = Ok s" "bh_signature h' = Some s"
    "bh_proposer h' = from_public_key (be_crypto be) pk"
  then show ?thesis
    using assms(2,3) by (simp add: header_verify_signature_def Let_def)
qed

text \<open>
  C14: a block assembled by the builder on top of a parent verifies. Whatever the body, if the builder
  starts, builds and signs without error, and the signer's signatures verify under its key, then the
  signed block carries the given body, its proposer signature and both Merkle roots verify, it links to
  the parent, its height and timestamp are one more than the parent's, without overflow, and its gas is
  the exact sum of the receipts.
\<close>

theorem built_block_verifies:
  assumes new: "builder_try_new be (blk_header prev) = Ok b0"
    and build: "try_sign_and_build be pk sg (b0\<lparr>blk_body := body\<rparr>) = Ok b"
    and key: "cx_vk_ok (be_crypto be) pk"
    and signer: "\<And>x s. sg x = Ok s \<Longrightarrow> cx_ed_verify (be_crypto be) pk (be_bytes 32 x) s"
  shows "blk_body b = body \<and> verify_full be b pk = Ok True \<and> try_verify_parent_link be b prev = Ok True
    \<and> bh_proposer (blk_header b) = from_public_key (be_crypto be) pk
    \<and> unat (bh_height (blk_header b)) = unat (bh_height (blk_header prev)) + 1
    \<and> unat (bh_timestamp (blk_header b)) = unat (bh_timestamp (blk_header prev)) + 1
    \<and> unat (bh_gas_used (blk_header b)) = (\<Sum>r\<leftarrow>bb_receipts body. unat (rc_gas_used r))"
proof -
  obtain ht tm ph where n: "checked_add (bh_height (blk_header prev)) 1 = Some ht"
    "checked_add (bh_timestamp (blk_header prev)) MIN_TIMESTAMP_GAP = Some tm"
    "header_hash be (blk_header prev) = Ok ph" "b0 = \<lparr>blk_header = header_new ph ht tm, blk_body = body_empty\<rparr>"
    using new by (auto simp: builder_try_new_def)
  obtain tr rr gas h where r: "compute_tx_root be body = Ok tr" "compute_receipt_root be body = Ok rr"
    "total_gas_used_checked body = Ok gas"
    and s: "header_sign be pk sg ((header_new ph ht tm)\<lparr>bh_tx_root := tr, bh_receipts_root := rr, bh_gas_used := gas\<rparr>) = Ok h"
    and b: "b = \<lparr>blk_header = h, blk_body = body\<rparr>"
    using build by (auto simp: try_sign_and_build_def builder_try_build_def n(4))
  have f: "bh_tx_root h = tr" "bh_receipts_root h = rr" "bh_gas_used h = gas" "bh_parent_hash h = ph"
    "bh_height h = ht" "bh_timestamp h = tm" "bh_proposer h = from_public_key (be_crypto be) pk"
    using s by (auto simp: header_sign_def Let_def header_new_def split: if_splits)
  have "header_verify_signature be h pk = Ok True"
    using s key signer by (rule signed_header_verifies)
  then show ?thesis
    using n(1-3) r b f total_gas_used_Ok [OF r(3)]
    by (simp add: verify_full_def try_verify_merkle_roots_def try_verify_parent_link_def block_hash_def
        MIN_TIMESTAMP_GAP_def) (auto dest!: checked_add_SomeD)
qed

theorem built_block_verifies_witness:
  "\<exists>b0 b. builder_try_new toy_block_env toy_header = Ok b0
     \<and> try_sign_and_build toy_block_env 7 (\<lambda>_. Ok 1) (b0\<lparr>blk_body := toy_body\<rparr>) = Ok b
     \<and> verify_full toy_block_env b 7 = Ok True"
proof -
  have env: "be_tx toy_block_env = toy_tx_env" "te_crypto toy_tx_env = toy_crypto"
    by (simp_all add: toy_block_env_def toy_tx_env_def)
  have hh: "header_hash toy_block_env h = Ok (cx_sha256 toy_crypto [ucast (bh_height h)])" for h
    by (simp add: header_hash_def toy_block_env_def toy_tx_env_def)
  obtain b0 where b0: "builder_try_new toy_block_env (blk_header toy_block) = Ok b0"
    "bh_proposer (blk_header b0) = 0"
    by (simp add: hh builder_try_new_def toy_block_def toy_header_def header_new_def checked_add_def
        GENESIS_TIMESTAMP_def MIN_TIMESTAMP_GAP_def)
  obtain b where b: "try_sign_and_build toy_block_env 7 (\<lambda>_. Ok 1) (b0\<lparr>blk_body := toy_body\<rparr>) = Ok b"
    using b0(2) by (simp add: try_sign_and_build_def builder_try_build_def toy_body_facts header_sign_def hh)
  have "verify_full toy_block_env b 7 = Ok True"
    using built_block_verifies [OF b0(1) b] by (simp add: env toy_crypto_def)
  then show ?thesis
    using b0(1) b by (auto simp: toy_block_def)
qed

section \<open>A block hash commits to the body\<close>

text \<open>Every string that SHA-256 is applied to when a block is hashed and its roots are computed.\<close>

definition commit_inputs :: "block_env \<Rightarrow> block \<Rightarrow> bytes set" where
  "commit_inputs be b =
     set_option (be_header_bytes be (unsigned_header (blk_header b)))
     \<union> (\<Union>r \<in> set (bb_receipts (blk_body b)). set_option (be_receipt_bytes be r))
     \<union> (\<Union>hs \<in> set_option (ok_of (tx_hashes be (bb_transactions (blk_body b)))). body_hash_inputs (be_crypto be) hs)
     \<union> (\<Union>hs \<in> set_option (ok_of (map_result (receipt_hash be) (bb_receipts (blk_body b)))).
          body_hash_inputs (be_crypto be) hs)"

lemma receipts_determined:
  assumes "map_result (receipt_hash be) rs = Ok hs" "map_result (receipt_hash be) qs = Ok hs"
    and enc: "inj_on (be_receipt_bytes be) (set rs \<union> set qs)"
    and sha: "inj_on (cx_sha256 (be_crypto be)) A"
    and sub: "(\<Union>r \<in> set rs \<union> set qs. set_option (be_receipt_bytes be r)) \<subseteq> A"
  shows "rs = qs"
proof (rule nth_equalityI)
  show len: "length rs = length qs"
    using assms(1,2) by (simp add: map_result_Ok)
  fix i
  assume i: "i < length rs"
  then have "receipt_hash be (rs ! i) = Ok (hs ! i)" "receipt_hash be (qs ! i) = Ok (hs ! i)"
    using assms(1,2) by (auto simp: map_result_Ok)
  then obtain bs cs where bs: "be_receipt_bytes be (rs ! i) = Some bs" "be_receipt_bytes be (qs ! i) = Some cs"
    "cx_sha256 (be_crypto be) bs = cx_sha256 (be_crypto be) cs"
    by (auto simp: receipt_hash_def)
  have mem: "rs ! i \<in> set rs" "qs ! i \<in> set qs"
    using i len by auto
  have "bs \<in> A" "cs \<in> A"
    using bs(1,2) mem by (auto intro!: subsetD [OF sub] bexI)
  then have "be_receipt_bytes be (rs ! i) = be_receipt_bytes be (qs ! i)"
    using bs inj_onD [OF sha bs(3)] by simp
  then show "rs ! i = qs ! i"
    by (rule inj_onD [OF enc]) (use mem in auto)
qed

lemma root_inj_sub:
  assumes "calculate_merkle_root cx xs = calculate_merkle_root cx ys"
    and "inj_on (cx_sha256 cx) A" "0 \<notin> cx_sha256 cx ` A"
    and "body_hash_inputs cx xs \<subseteq> A" "body_hash_inputs cx ys \<subseteq> A"
  shows "xs = ys"
proof (rule body_root_inj [OF _ _ assms(1)])
  show "inj_on (cx_sha256 cx) (body_hash_inputs cx xs \<union> body_hash_inputs cx ys)"
    using assms(2,4,5) by (auto intro: inj_on_subset)
  show "0 \<notin> cx_sha256 cx ` (body_hash_inputs cx xs \<union> body_hash_inputs cx ys)"
    using assms(3-5) by blast
qed

text \<open>
  C13: the block hash that validators vote on commits to the block. Two blocks that pass basic
  validation and have the same hash agree in the whole unsigned header, in the ordered list of
  transaction hashes and in every receipt, provided that SHA-256 has no collision and no zero value
  on the strings hashed for the two blocks, and that the encodings of headers and receipts are
  injective on those of the two blocks.
\<close>

theorem block_hash_commits_body:
  assumes "block_validate_basic be b = Ok ()" "block_validate_basic be c = Ok ()"
    and "block_hash be b = Ok x" "block_hash be c = Ok x"
    and sha: "inj_on (cx_sha256 (be_crypto be)) (commit_inputs be b \<union> commit_inputs be c)"
    and zero: "0 \<notin> cx_sha256 (be_crypto be) ` (commit_inputs be b \<union> commit_inputs be c)"
    and head: "inj_on (be_header_bytes be) (unsigned_header ` {blk_header b, blk_header c})"
    and rec: "inj_on (be_receipt_bytes be) (set (bb_receipts (blk_body b)) \<union> set (bb_receipts (blk_body c)))"
  shows "unsigned_header (blk_header b) = unsigned_header (blk_header c)
    \<and> tx_hashes be (bb_transactions (blk_body b)) = tx_hashes be (bb_transactions (blk_body c))
    \<and> bb_receipts (blk_body b) = bb_receipts (blk_body c)"
proof -
  let ?A = "commit_inputs be b \<union> commit_inputs be c"
  have "{bs. \<exists>k \<in> {blk_header b, blk_header c}. be_header_bytes be (unsigned_header k) = Some bs} \<subseteq> ?A"
    by (auto simp: commit_inputs_def)
  then have hd: "unsigned_header (blk_header b) = unsigned_header (blk_header c)"
    using assms(3,4) by (intro header_hash_inj [OF _ _ head inj_on_subset [OF sha]]) (auto simp: block_hash_def)
  obtain hs hs' where t: "tx_hashes be (bb_transactions (blk_body b)) = Ok hs"
      "tx_hashes be (bb_transactions (blk_body c)) = Ok hs'"
      "calculate_merkle_root (be_crypto be) hs = calculate_merkle_root (be_crypto be) hs'"
    using block_validate_basicD(3) [OF assms(1)] block_validate_basicD(3) [OF assms(2)] unsigned_fields(3) [OF hd]
    by (auto simp: compute_tx_root_Ok)
  have "hs = hs'"
    by (rule root_inj_sub [OF t(3) sha zero]) (auto simp: commit_inputs_def t(1,2))
  obtain rs rs' where r: "map_result (receipt_hash be) (bb_receipts (blk_body b)) = Ok rs"
      "map_result (receipt_hash be) (bb_receipts (blk_body c)) = Ok rs'"
      "calculate_merkle_root (be_crypto be) rs = calculate_merkle_root (be_crypto be) rs'"
    using block_validate_basicD(4) [OF assms(1)] block_validate_basicD(4) [OF assms(2)] unsigned_fields(4) [OF hd]
    by (auto simp: compute_receipt_root_Ok)
  have "rs = rs'"
    by (rule root_inj_sub [OF r(3) sha zero]) (auto simp: commit_inputs_def r(1,2))
  then have "bb_receipts (blk_body b) = bb_receipts (blk_body c)"
    using r(1,2) by (intro receipts_determined [OF _ _ rec sha]) (auto simp: commit_inputs_def)
  then show ?thesis
    using hd t \<open>hs = hs'\<close> by simp
qed

theorem block_hash_commits_body_witness:
  "block_validate_basic toy_block_env toy_block = Ok ()
   \<and> inj_on (cx_sha256 toy_crypto) (commit_inputs toy_block_env toy_block)
   \<and> unsigned_header (blk_header toy_block)
       = unsigned_header (blk_header (toy_block\<lparr>blk_header := toy_header\<lparr>bh_signature := Some 1\<rparr>\<rparr>))"
proof -
  let ?c = "toy_block\<lparr>blk_header := toy_header\<lparr>bh_signature := Some 1\<rparr>\<rparr>"
  have env: "be_tx toy_block_env = toy_tx_env" "te_crypto toy_tx_env = toy_crypto"
    by (simp_all add: toy_block_env_def toy_tx_env_def)
  have height: "bh_height toy_header = 1"
    by (simp add: toy_header_def header_new_def)
  have hashes: "tx_hashes toy_block_env (bb_transactions toy_body) = Ok [4]"
    "map_result (receipt_hash toy_block_env) (bb_receipts toy_body) = Ok [9]"
    using toy_receipt_ok
    by (simp_all add: tx_hashes_def toy_body_def env toy_eth_tx_facts receipt_hash_def)
       (simp add: toy_block_env_def toy_tx_env_def new_success_def toy_crypto_def of_be_bytes_def of_le_bytes_def)
  have inputs: "commit_inputs toy_block_env b = {[1], [8], 0 # be_bytes 32 (4 :: hash32), 0 # be_bytes 32 (9 :: hash32)}"
    if "b = toy_block \<or> b = ?c" for b
    using that hashes
    by (auto simp: commit_inputs_def toy_block_def body_hash_inputs_def all_pairs.simps env)
       (auto simp: toy_block_env_def toy_body_def new_success_def height)
  have sha: "inj_on (cx_sha256 toy_crypto) {[1], [8], 0 # be_bytes 32 (4 :: hash32), 0 # be_bytes 32 (9 :: hash32)}"
    "0 \<notin> cx_sha256 toy_crypto ` {[1], [8], 0 # be_bytes 32 (4 :: hash32), 0 # be_bytes 32 (9 :: hash32)}"
    by code_simp+
  have "header_validate_basic (toy_header\<lparr>bh_signature := Some 1\<rparr>) = Ok ()"
    using toy_header_ok(1) by (simp add: header_validate_basic_def split: if_splits)
  then have c: "block_validate_basic toy_block_env ?c = Ok ()"
    unfolding block_validate_basic_def toy_block_def
    by (simp add: toy_body_facts)
       (simp add: toy_body_def toy_header_def MAX_TRANSACTIONS_PER_BLOCK_def toy_block_env_def MAX_BLOCK_SIZE_BYTES_def)
  have h: "block_hash toy_block_env toy_block = Ok (cx_sha256 toy_crypto [1])"
    "block_hash toy_block_env ?c = Ok (cx_sha256 toy_crypto [1])"
    by (simp_all add: block_hash_def header_hash_def toy_block_env_def toy_tx_env_def toy_block_def height)
  have A: "commit_inputs toy_block_env toy_block \<union> commit_inputs toy_block_env ?c
      = {[1], [8], 0 # be_bytes 32 (4 :: hash32), 0 # be_bytes 32 (9 :: hash32)}"
    using inputs by simp
  have "unsigned_header (blk_header toy_block) = unsigned_header (blk_header ?c)"
  proof (rule block_hash_commits_body [OF toy_block_basic c h, THEN conjunct1])
    show "inj_on (be_header_bytes toy_block_env) (unsigned_header ` {blk_header toy_block, blk_header ?c})"
      by (auto simp: inj_on_def toy_block_def)
    show "inj_on (be_receipt_bytes toy_block_env)
        (set (bb_receipts (blk_body toy_block)) \<union> set (bb_receipts (blk_body ?c)))"
      by (simp add: toy_block_def toy_body_def)
    show "inj_on (cx_sha256 (be_crypto toy_block_env))
        (commit_inputs toy_block_env toy_block \<union> commit_inputs toy_block_env ?c)"
      unfolding A env by (rule sha(1))
    show "0 \<notin> cx_sha256 (be_crypto toy_block_env) `
        (commit_inputs toy_block_env toy_block \<union> commit_inputs toy_block_env ?c)"
      unfolding A env by (rule sha(2))
  qed
  then show ?thesis
    using toy_block_basic sha(1) inputs [of toy_block] by simp
qed

end
