(* ===== verification/HotStuff.thy ===== *)
theory HotStuff
  imports Votes Block
begin

text \<open>
  The three-phase commit rule (\<open>crates/consensus/src/hotstuff/mod.rs\<close>) and the pacemaker
  (\<open>hotstuff/pacemaker.rs\<close>). The maps that are iterated are association lists, those that are
  only looked up are functions.
\<close>

section \<open>The engine\<close>

definition ANCESTOR_WALK_LIMIT :: nat where
  "ANCESTOR_WALK_LIMIT = 4096"

datatype hotstuff_phase = HsPrepare | HsPreCommit | HsCommit | HsFinalize

record hotstuff =
  hs_prepare_qcs :: "hash32 \<Rightarrow> quorum_certificate option"
  hs_block_phase :: "hash32 \<Rightarrow> hotstuff_phase option"
  hs_precommit_qcs :: "hash32 \<Rightarrow> quorum_certificate option"
  hs_commit_qcs :: "hash32 \<Rightarrow> quorum_certificate option"
  hs_locked_block :: "hash32 option"
  hs_locked_block_height :: "u64 option"
  hs_highest_qc_view :: u64
  hs_block_parent :: "hash32 \<Rightarrow> hash32 option"
  hs_block_views :: "(hash32, u64) hashmap"

datatype hs_error =
    HsHashFailed header_error
  | HsPrepareFailed
  | HsPreCommitFailed
  | HsCommitFailed
  | HsInvalidTransition
  | HsCertificateError

definition hotstuff_new :: hotstuff where
  "hotstuff_new =
     \<lparr>hs_prepare_qcs = Map.empty, hs_block_phase = Map.empty, hs_precommit_qcs = Map.empty,
      hs_commit_qcs = Map.empty, hs_locked_block = None, hs_locked_block_height = None,
      hs_highest_qc_view = 0, hs_block_parent = Map.empty, hs_block_views = []\<rparr>"

definition update_locked_block :: "hash32 \<Rightarrow> u64 \<Rightarrow> hotstuff \<Rightarrow> hotstuff" where
  "update_locked_block h height s = s\<lparr>hs_locked_block := Some h, hs_locked_block_height := Some height\<rparr>"

definition update_highest_qc :: "quorum_certificate \<Rightarrow> hotstuff \<Rightarrow> hotstuff" where
  "update_highest_qc qc s =
     (if hs_highest_qc_view s < qc_view qc then s\<lparr>hs_highest_qc_view := qc_view qc\<rparr> else s)"

text \<open>
  The walk of \<open>extends_locked_block\<close> up the known parents. Every end of the loop other than reaching
  the locked block (genesis, a cycle, an unknown parent, the limit) gives \<open>above_locked\<close>.
\<close>

fun ancestor_walk ::
  "hotstuff \<Rightarrow> hash32 \<Rightarrow> bool \<Rightarrow> nat \<Rightarrow> hash32 \<Rightarrow> hash32 list \<Rightarrow> bool" where
  "ancestor_walk s locked up 0 cur visited = up"
| "ancestor_walk s locked up (Suc n) cur visited =
     (if cur = locked then True
      else if cur = 0 then up
      else if cur \<in> set visited then up
      else case hs_block_parent s cur of
          Some parent \<Rightarrow> ancestor_walk s locked up n parent (cur # visited)
        | None \<Rightarrow> up)"

definition extends_locked_block :: "block_env \<Rightarrow> hotstuff \<Rightarrow> hash32 \<Rightarrow> block \<Rightarrow> bool" where
  "extends_locked_block be s locked b =
     (if block_hash be b = Ok locked then True
      else case hs_locked_block_height s of
          Some lh \<Rightarrow>
            (if bh_height (blk_header b) \<le> lh then False
             else ancestor_walk s locked True ANCESTOR_WALK_LIMIT (bh_parent_hash (blk_header b)) [])
        | None \<Rightarrow> ancestor_walk s locked False ANCESTOR_WALK_LIMIT (bh_parent_hash (blk_header b)) [])"


definition fork_choice :: "hotstuff \<Rightarrow> hash32 \<Rightarrow> hash32 \<Rightarrow> hash32" where
  "fork_choice s a b =
     (let view_a = (case hm_get (hs_block_views s) a of Some v \<Rightarrow> v | None \<Rightarrow> 0);
          view_b = (case hm_get (hs_block_views s) b of Some v \<Rightarrow> v | None \<Rightarrow> 0) in
      if view_b \<le> view_a then a else b)"

text \<open>
  \<open>protect_ancestor_chains\<close>: from the parent of every survivor, walk up through the candidates. The
  first argument counts the hops that are left.
\<close>

fun protect_walk ::
  "hotstuff \<Rightarrow> hash32 list \<Rightarrow> nat \<Rightarrow> hash32 \<Rightarrow> hash32 list \<Rightarrow> hash32 list" where
  "protect_walk s cands 0 cur prot = prot"
| "protect_walk s cands (Suc n) cur prot =
     (if cur = 0 \<or> cur \<notin> set cands \<or> cur \<in> set prot then prot
      else case hs_block_parent s cur of
          Some parent \<Rightarrow> protect_walk s cands n parent (cur # prot)
        | None \<Rightarrow> cur # prot)"

definition protect_ancestor_chains :: "hotstuff \<Rightarrow> hash32 list \<Rightarrow> hash32 list" where
  "protect_ancestor_chains s cands =
     fold (\<lambda>survivor prot.
         if survivor \<in> set cands then prot
         else case hs_block_parent s survivor of
             Some parent \<Rightarrow> protect_walk s cands ANCESTOR_WALK_LIMIT parent prot
           | None \<Rightarrow> prot)
       (map fst (hs_block_views s)) []"

definition hs_forget :: "hash32 \<Rightarrow> hotstuff \<Rightarrow> hotstuff" where
  "hs_forget h s =
     s\<lparr>hs_prepare_qcs := (hs_prepare_qcs s)(h := None), hs_precommit_qcs := (hs_precommit_qcs s)(h := None),
       hs_commit_qcs := (hs_commit_qcs s)(h := None), hs_block_parent := (hs_block_parent s)(h := None),
       hs_block_views := hm_remove h (hs_block_views s), hs_block_phase := (hs_block_phase s)(h := None)\<rparr>"

definition prune_candidates :: "hotstuff \<Rightarrow> u64 \<Rightarrow> hash32 list" where
  "prune_candidates s min_view =
     map fst (filter (\<lambda>(h, view). view < min_view \<and> hs_locked_block s \<noteq> Some h) (hs_block_views s))"

definition hs_prune :: "u64 \<Rightarrow> hotstuff \<Rightarrow> hotstuff" where
  "hs_prune min_view s =
     (let cands = prune_candidates s min_view; prot = protect_ancestor_chains s cands in
      fold (\<lambda>h s'. if h \<in> set prot then s' else hs_forget h s') cands s)"

definition verify_prepare_phase ::
  "block_env \<Rightarrow> hotstuff \<Rightarrow> block \<Rightarrow> quorum_certificate \<Rightarrow> validator list \<Rightarrow> nat \<Rightarrow> u64
     \<Rightarrow> (bool, hs_error) result" where
  "verify_prepare_phase be s b qc vals threshold required =
     (if \<not> is_ok (block_validate_basic be b) then Ok False
      else then_ok (map_err HsHashFailed (block_hash be b)) (\<lambda>h.
        if qc_block_hash qc \<noteq> h then Ok False
        else if (case hs_locked_block s of
                   Some locked \<Rightarrow> \<not> extends_locked_block be s locked b | None \<Rightarrow> False) then Ok False
        else if (case hs_prepare_qcs s (bh_parent_hash (blk_header b)) of
                   Some pqc \<Rightarrow> qc_block_hash pqc \<noteq> bh_parent_hash (blk_header b) | None \<Rightarrow> False) then Ok False
        else map_err (\<lambda>_. HsCertificateError)
               (verify_bls_with_voting_power (be_crypto be) qc vals threshold required)))"

definition verify_pre_commit_phase ::
  "crypto \<Rightarrow> hotstuff \<Rightarrow> hash32 \<Rightarrow> quorum_certificate \<Rightarrow> validator list \<Rightarrow> nat \<Rightarrow> u64
     \<Rightarrow> (bool, hs_error) result" where
  "verify_pre_commit_phase cx s h qc vals threshold required =
     (if hs_prepare_qcs s h = None \<or> qc_block_hash qc \<noteq> h then Ok False
      else map_err (\<lambda>_. HsCertificateError) (verify_bls_with_voting_power cx qc vals threshold required))"

definition verify_commit_phase ::
  "crypto \<Rightarrow> hotstuff \<Rightarrow> hash32 \<Rightarrow> quorum_certificate \<Rightarrow> validator list \<Rightarrow> nat \<Rightarrow> u64
     \<Rightarrow> (bool, hs_error) result" where
  "verify_commit_phase cx s h qc vals threshold required =
     (if hs_precommit_qcs s h = None \<or> qc_block_hash qc \<noteq> h then Ok False
      else map_err (\<lambda>_. HsCertificateError) (verify_bls_with_voting_power cx qc vals threshold required))"

fun target_phase :: "vote_phase \<Rightarrow> hotstuff_phase" where
  "target_phase Prepare = HsPrepare"
| "target_phase PreCommit = HsPreCommit"
| "target_phase Commit = HsFinalize"

definition sig_count :: "quorum_certificate option \<Rightarrow> nat" where
  "sig_count q = (case q of Some qc \<Rightarrow> length (qc_signatures qc) | None \<Rightarrow> 0)"

definition apply_three_phase_commit_rule ::
  "block_env \<Rightarrow> hotstuff \<Rightarrow> block \<Rightarrow> quorum_certificate \<Rightarrow> validator list \<Rightarrow> nat \<Rightarrow> u64
     \<Rightarrow> (hotstuff \<times> hotstuff_phase, hs_error) result" where
  "apply_three_phase_commit_rule be s b qc vals threshold required =
     then_ok (map_err HsHashFailed (block_hash be b)) (\<lambda>h.
     (case (hs_block_phase s h, target_phase (qc_phase qc)) of
        (None, HsPrepare) \<Rightarrow>
          then_ok (verify_prepare_phase be s b qc vals threshold required) (\<lambda>ok.
          then_ok (ensure ok HsPrepareFailed) (\<lambda>_.
            (let s1 = s\<lparr>hs_block_parent := (hs_block_parent s)(h \<mapsto> bh_parent_hash (blk_header b)),
                        hs_block_views := hm_insert h (qc_view qc) (hs_block_views s)\<rparr>;
                 s2 = update_highest_qc qc s1 in
             Ok (s2\<lparr>hs_prepare_qcs := (hs_prepare_qcs s2)(h \<mapsto> qc),
                     hs_block_phase := (hs_block_phase s2)(h \<mapsto> HsPrepare)\<rparr>, HsPrepare))))
      | (Some HsPrepare, HsPrepare) \<Rightarrow>
          (let s1 = update_highest_qc qc s in
           Ok (if sig_count (hs_prepare_qcs s1 h) \<le> length (qc_signatures qc)
               then s1\<lparr>hs_prepare_qcs := (hs_prepare_qcs s1)(h \<mapsto> qc)\<rparr> else s1, HsPrepare))
      | (Some HsPrepare, HsPreCommit) \<Rightarrow>
          then_ok (verify_pre_commit_phase (be_crypto be) s h qc vals threshold required) (\<lambda>ok.
          then_ok (ensure ok HsPreCommitFailed) (\<lambda>_.
            (let s1 = update_locked_block h (bh_height (blk_header b)) (update_highest_qc qc s) in
             Ok (s1\<lparr>hs_precommit_qcs := (hs_precommit_qcs s1)(h \<mapsto> qc),
                     hs_block_phase := (hs_block_phase s1)(h \<mapsto> HsPreCommit)\<rparr>, HsPreCommit))))
      | (Some HsPreCommit, HsPreCommit) \<Rightarrow>
          (let s1 = update_highest_qc qc s in
           Ok (if sig_count (hs_precommit_qcs s1 h) \<le> length (qc_signatures qc)
               then s1\<lparr>hs_precommit_qcs := (hs_precommit_qcs s1)(h \<mapsto> qc)\<rparr> else s1, HsPreCommit))
      | (Some HsPreCommit, HsFinalize) \<Rightarrow>
          then_ok (verify_commit_phase (be_crypto be) s h qc vals threshold required) (\<lambda>ok.
          then_ok (ensure ok HsCommitFailed) (\<lambda>_.
            (let s1 = update_highest_qc qc s in
             Ok (s1\<lparr>hs_commit_qcs := (hs_commit_qcs s1)(h \<mapsto> qc),
                     hs_block_phase := (hs_block_phase s1)(h \<mapsto> HsFinalize)\<rparr>, HsFinalize))))
      | (Some HsFinalize, HsFinalize) \<Rightarrow>
          (let s1 = update_highest_qc qc s in
           Ok (if sig_count (hs_commit_qcs s1 h) \<le> length (qc_signatures qc)
               then s1\<lparr>hs_commit_qcs := (hs_commit_qcs s1)(h \<mapsto> qc)\<rparr> else s1, HsFinalize))
      | (Some HsFinalize, HsPrepare) \<Rightarrow> Ok (s, HsFinalize)
      | (Some HsFinalize, HsPreCommit) \<Rightarrow> Ok (s, HsFinalize)
      | (Some HsPreCommit, HsPrepare) \<Rightarrow> Ok (s, HsPreCommit)
      | _ \<Rightarrow> Err HsInvalidTransition))"

definition has_prepare_quorum :: "hotstuff \<Rightarrow> hash32 \<Rightarrow> bool" where
  "has_prepare_quorum s h = (hs_prepare_qcs s h \<noteq> None)"

definition has_precommit_quorum :: "hotstuff \<Rightarrow> hash32 \<Rightarrow> bool" where
  "has_precommit_quorum s h = (hs_precommit_qcs s h \<noteq> None)"

definition has_commit_quorum :: "hotstuff \<Rightarrow> hash32 \<Rightarrow> bool" where
  "has_commit_quorum s h = (hs_commit_qcs s h \<noteq> None)"

section \<open>Runs of one node\<close>

text \<open>
  A node processes certificates and prunes its maps, in any order. A certificate that is refused
  leaves the state as it was.
\<close>

datatype hs_event = Certificate block quorum_certificate | PruneTo u64

fun hs_step :: "block_env \<Rightarrow> validator list \<Rightarrow> nat \<Rightarrow> u64 \<Rightarrow> hs_event \<Rightarrow> hotstuff \<Rightarrow> hotstuff" where
  "hs_step be vals threshold required (Certificate b qc) s =
     (case apply_three_phase_commit_rule be s b qc vals threshold required of
        Ok (s', _) \<Rightarrow> s'
      | Err _ \<Rightarrow> s)"
| "hs_step be vals threshold required (PruneTo m) s = hs_prune m s"

definition hs_run ::
  "block_env \<Rightarrow> validator list \<Rightarrow> nat \<Rightarrow> u64 \<Rightarrow> hs_event list \<Rightarrow> hotstuff" where
  "hs_run be vals threshold required evs = fold (hs_step be vals threshold required) evs hotstuff_new"

text \<open>A certificate of a phase for a block that was processed and that verifies.\<close>

definition certified ::
  "block_env \<Rightarrow> validator list \<Rightarrow> nat \<Rightarrow> u64 \<Rightarrow> hs_event list \<Rightarrow> hash32 \<Rightarrow> vote_phase \<Rightarrow> quorum_certificate \<Rightarrow> bool" where
  "certified be vals threshold required evs h ph qc \<longleftrightarrow>
     (\<exists>b. Certificate b qc \<in> set evs \<and> block_hash be b = Ok h) \<and> qc_block_hash qc = h \<and> qc_phase qc = ph
     \<and> verify_bls_with_voting_power (be_crypto be) qc vals threshold required = Ok True"

definition phases_certified ::
  "block_env \<Rightarrow> validator list \<Rightarrow> nat \<Rightarrow> u64 \<Rightarrow> hs_event list \<Rightarrow> hash32 \<Rightarrow> hotstuff_phase \<Rightarrow> bool" where
  "phases_certified be vals threshold required evs h p \<longleftrightarrow>
     Ex (certified be vals threshold required evs h Prepare)
     \<and> (p \<in> {HsPreCommit, HsFinalize} \<longrightarrow> Ex (certified be vals threshold required evs h PreCommit))
     \<and> (p = HsFinalize \<longrightarrow> Ex (certified be vals threshold required evs h Commit))
     \<and> p \<noteq> HsCommit"

lemma phases_certified_mono:
  "phases_certified be vals th pw evs h p \<Longrightarrow> set evs \<subseteq> set evs' \<Longrightarrow> phases_certified be vals th pw evs' h p"
  unfolding phases_certified_def certified_def by blast

lemma target_phase_simps [simp]:
  "target_phase ph = HsPrepare \<longleftrightarrow> ph = Prepare" "target_phase ph = HsPreCommit \<longleftrightarrow> ph = PreCommit"
  "target_phase ph = HsFinalize \<longleftrightarrow> ph = Commit" "target_phase ph \<noteq> HsCommit"
  by (cases ph; simp)+

lemma update_simps [simp]:
  "hs_block_phase (update_highest_qc qc s) = hs_block_phase s"
  "hs_block_phase (update_locked_block h n s) = hs_block_phase s"
  "hs_locked_block (update_highest_qc qc s) = hs_locked_block s"
  "hs_locked_block_height (update_highest_qc qc s) = hs_locked_block_height s"
  by (simp_all add: update_highest_qc_def update_locked_block_def)

lemma apply_rule_phase:
  assumes "apply_three_phase_commit_rule be s b qc vals th pw = Ok (s', p)"
  obtains h where "block_hash be b = Ok h" "hs_block_phase s' = (hs_block_phase s)(h \<mapsto> p)"
    "hs_block_phase s h = Some p \<or>
       qc_block_hash qc = h \<and> verify_bls_with_voting_power (be_crypto be) qc vals th pw = Ok True
       \<and> (hs_block_phase s h, qc_phase qc, p) \<in>
           {(None, Prepare, HsPrepare), (Some HsPrepare, PreCommit, HsPreCommit), (Some HsPreCommit, Commit, HsFinalize)}"
proof -
  obtain h where h: "block_hash be b = Ok h"
    using assms by (auto simp: apply_three_phase_commit_rule_def)
  show thesis
    using assms h
    by (intro that [OF h])
       (cases "hs_block_phase s h"; cases "qc_phase qc";
        fastforce simp: apply_three_phase_commit_rule_def verify_prepare_phase_def verify_pre_commit_phase_def
          verify_commit_phase_def Let_def fun_upd_idem split: if_splits hotstuff_phase.splits)+
qed

lemma hs_forget_simps [simp]:
  "hs_block_phase (hs_forget h s) = (hs_block_phase s)(h := None)"
  "hs_block_parent (hs_forget h s) = (hs_block_parent s)(h := None)"
  "hs_block_views (hs_forget h s) = hm_remove h (hs_block_views s)"
  "hs_locked_block (hs_forget h s) = hs_locked_block s"
  "hs_locked_block_height (hs_forget h s) = hs_locked_block_height s"
  by (simp_all add: hs_forget_def)

text \<open>Pruning removes exactly the candidates that are not protected, from every map.\<close>

lemma forget_fold:
  fixes prot :: "hash32 list"
  defines "f \<equiv> \<lambda>h s'. if h \<in> set prot then s' else hs_forget h s'"
  shows "hs_block_phase (fold f cands s) = (\<lambda>h. if h \<in> set cands - set prot then None else hs_block_phase s h)"
    and "hs_block_parent (fold f cands s) = (\<lambda>h. if h \<in> set cands - set prot then None else hs_block_parent s h)"
    and "hm_get (hs_block_views (fold f cands s)) = (\<lambda>h. if h \<in> set cands - set prot then None else hm_get (hs_block_views s) h)"
    and "hs_locked_block (fold f cands s) = hs_locked_block s"
    and "hs_locked_block_height (fold f cands s) = hs_locked_block_height s"
  by (induction cands arbitrary: s) (auto simp: f_def fun_eq_iff delete_conv')

definition pruned :: "hotstuff \<Rightarrow> u64 \<Rightarrow> hash32 \<Rightarrow> bool" where
  "pruned s m h \<longleftrightarrow> h \<in> set (prune_candidates s m) - set (protect_ancestor_chains s (prune_candidates s m))"

lemma hs_prune_maps:
  "hs_block_phase (hs_prune m s) = (\<lambda>h. if pruned s m h then None else hs_block_phase s h)"
  "hs_block_parent (hs_prune m s) = (\<lambda>h. if pruned s m h then None else hs_block_parent s h)"
  "hm_get (hs_block_views (hs_prune m s)) = (\<lambda>h. if pruned s m h then None else hm_get (hs_block_views s) h)"
  "hs_locked_block (hs_prune m s) = hs_locked_block s"
  "hs_locked_block_height (hs_prune m s) = hs_locked_block_height s"
  by (simp_all add: hs_prune_def Let_def forget_fold pruned_def)

lemma hs_run_certified:
  "hs_block_phase (hs_run be vals th pw evs) h = Some p \<Longrightarrow> phases_certified be vals th pw evs h p"
proof (induction evs arbitrary: h p rule: rev_induct)
  case Nil
  then show ?case by (simp add: hs_run_def hotstuff_new_def)
next
  case (snoc e evs)
  let ?s = "hs_run be vals th pw evs"
  have old: "phases_certified be vals th pw (evs @ [e]) k q" if "hs_block_phase ?s k = Some q" for k q
    using snoc.IH [OF that] by (rule phases_certified_mono) auto
  have now: "hs_block_phase (hs_step be vals th pw e ?s) h = Some p"
    using snoc.prems by (simp add: hs_run_def)
  show ?case
  proof (cases e)
    case (PruneTo m)
    then show ?thesis
      using now old by (auto simp: hs_prune_maps split: if_splits)
  next
    case e: (Certificate b qc)
    show ?thesis
    proof (cases "apply_three_phase_commit_rule be ?s b qc vals th pw")
      case (Err x)
      then show ?thesis using now old by (simp add: e)
    next
      case (Ok r)
      obtain s' q where r: "r = (s', q)" by (cases r)
      obtain k where k: "block_hash be b = Ok k" "hs_block_phase s' = (hs_block_phase ?s)(k \<mapsto> q)"
        and c: "hs_block_phase ?s k = Some q \<or>
          qc_block_hash qc = k \<and> verify_bls_with_voting_power (be_crypto be) qc vals th pw = Ok True
          \<and> (hs_block_phase ?s k, qc_phase qc, q) \<in>
             {(None, Prepare, HsPrepare), (Some HsPrepare, PreCommit, HsPreCommit), (Some HsPreCommit, Commit, HsFinalize)}"
        using apply_rule_phase Ok r by blast
      have "phases_certified be vals th pw (evs @ [e]) k q"
      proof (cases "hs_block_phase ?s k = Some q")
        case False
        then have "certified be vals th pw (evs @ [e]) k (qc_phase qc) qc"
          using c k(1) by (auto simp: certified_def e)
        then show ?thesis
          using c False old [of k] by (auto simp: phases_certified_def)
      qed (rule old)
      then show ?thesis
        using now Ok r k(2) old by (auto simp: e split: if_splits)
    qed
  qed
qed

text \<open>
  C1: agreement up to a third of the stake. Let two nodes with the same active validators process any
  sequences of certificates and prunings. If they finalise different blocks, each has processed a
  verified certificate of every one of the three phases for its block, and the signers common to
  their two commit certificates are more than a third of the validators in number and hold more
  than a third of the voting power. When the certificates are of one view, all of these signed
  commit votes for two blocks in that view.
\<close>

theorem conflicting_finality_needs_third:
  assumes inv: "vs_inv (be_crypto be) vs" and fits: "power_sum (active_validators vs) < 2 ^ 64"
    and pos: "0 < power_sum (active_validators vs)"
    and fin1: "hs_block_phase (hs_run be (active_validators vs) (vs_quorum_threshold vs)
                 (required_quorum_voting_power vs) evs1) h1 = Some HsFinalize"
    and fin2: "hs_block_phase (hs_run be (active_validators vs) (vs_quorum_threshold vs)
                 (required_quorum_voting_power vs) evs2) h2 = Some HsFinalize"
    and "h1 \<noteq> h2"
  shows "\<exists>qc1 qc2. certified be (active_validators vs) (vs_quorum_threshold vs) (required_quorum_voting_power vs) evs1 h1 Commit qc1
    \<and> certified be (active_validators vs) (vs_quorum_threshold vs) (required_quorum_voting_power vs) evs2 h2 Commit qc2
    \<and> qc_block_hash qc1 \<noteq> qc_block_hash qc2
    \<and> active_validator_count vs < 3 * card (set (qc_validators qc1) \<inter> set (qc_validators qc2))
    \<and> power_sum (active_validators vs)
        < 3 * (\<Sum>a \<in> set (qc_validators qc1) \<inter> set (qc_validators qc2). unat (vs_voting_power vs a))
    \<and> (\<forall>ph. Ex (certified be (active_validators vs) (vs_quorum_threshold vs) (required_quorum_voting_power vs) evs1 h1 ph))"
proof -
  let ?C = "certified be (active_validators vs) (vs_quorum_threshold vs) (required_quorum_voting_power vs)"
  have p1: "Ex (?C evs1 h1 ph)" for ph
    using hs_run_certified [OF fin1] by (cases ph) (auto simp: phases_certified_def)
  obtain qc1 where c1: "?C evs1 h1 Commit qc1"
    using p1 by blast
  obtain qc2 where c2: "?C evs2 h2 Commit qc2"
    using hs_run_certified [OF fin2] by (auto simp: phases_certified_def)
  have v: "verify_bls_with_voting_power (be_crypto be) qc1 (active_validators vs) (vs_quorum_threshold vs)
        (required_quorum_voting_power vs) = Ok True"
    "verify_bls_with_voting_power (be_crypto be) qc2 (active_validators vs) (vs_quorum_threshold vs)
        (required_quorum_voting_power vs) = Ok True"
    "qc_block_hash qc1 \<noteq> qc_block_hash qc2"
    using c1 c2 \<open>h1 \<noteq> h2\<close> by (auto simp: certified_def)
  show ?thesis
    using c1 c2 v(3) qcs_intersect [OF inv fits pos v(1,2)] p1 by blast
qed

text \<open>An empty block of a height, and the three certificates that finalise it.\<close>

definition plain_block :: "u64 \<Rightarrow> block" where
  "plain_block n = \<lparr>blk_header = header_new 9 n 1, blk_body = body_empty\<rparr>"

definition three_certificates :: "u64 \<Rightarrow> hs_event list" where
  "three_certificates n = map (\<lambda>ph. Certificate (plain_block n) (sample_qc (ucast n + 1) ph)) [Prepare, PreCommit, Commit]"

lemma toy_env_simps [simp]: "te_crypto (be_tx toy_block_env) = toy_crypto"
  by (simp add: toy_block_env_def toy_tx_env_def)

lemma plain_block_hash: "n < 256 \<Longrightarrow> block_hash toy_block_env (plain_block n) = Ok (ucast n + 1)"
proof -
  assume n: "n < 256"
  have "(of_be_bytes [ucast n :: u8] :: hash32) = ucast n"
  proof -
    have "unat n < 256" using n by (simp add: word_less_nat_alt)
    then have "unat (ucast n :: u8) = unat n"
      by (simp add: unsigned_ucast_eq take_bit_eq_mod unsigned_take_bit_eq flip: unat_mod_distrib)
    then show ?thesis
      by (simp add: of_be_bytes_def of_le_bytes_def)
  qed
  then show ?thesis
    by (simp add: block_hash_def header_hash_def toy_block_env_def toy_tx_env_def plain_block_def header_new_def
        toy_crypto_def)
qed

lemma plain_block_basic: "n \<noteq> 0 \<Longrightarrow> block_validate_basic toy_block_env (plain_block n) = Ok ()"
  by (simp add: block_validate_basic_def plain_block_def header_new_def header_validate_basic_def body_empty_def
      validate_transactions_def validate_receipts_def compute_tx_root_def compute_receipt_root_def
      MAX_EXTRA_DATA_SIZE_def toy_block_env_def MAX_BLOCK_SIZE_BYTES_def)

lemma three_certificates_finalise:
  assumes "n < 256" "n \<noteq> 0"
  shows "hs_block_phase (hs_run toy_block_env (active_validators sample_set) (vs_quorum_threshold sample_set)
           (required_quorum_voting_power sample_set) (three_certificates n)) (ucast n + 1) = Some HsFinalize"
proof -
  have qc: "qc_phase (sample_qc h ph) = ph" "qc_block_hash (sample_qc h ph) = h" for h ph
    by (simp_all add: sample_qc_def qc_new_with_phase_def)
  show ?thesis
    using assms
    by (simp add: hs_run_def three_certificates_def apply_three_phase_commit_rule_def plain_block_hash plain_block_basic
        verify_prepare_phase_def verify_pre_commit_phase_def verify_commit_phase_def sample_qc_accepted qc
        hotstuff_new_def update_highest_qc_def update_locked_block_def Let_def)
qed

theorem conflicting_finality_needs_third_witness:
  "hs_block_phase (hs_run toy_block_env (active_validators sample_set) (vs_quorum_threshold sample_set)
     (required_quorum_voting_power sample_set) (three_certificates 9)) 10 = Some HsFinalize
   \<and> (\<exists>(qc1 :: quorum_certificate) (qc2 :: quorum_certificate). qc_block_hash qc1 \<noteq> qc_block_hash qc2
        \<and> 2 < 3 * card (set (qc_validators qc1) \<inter> set (qc_validators qc2)))"
proof -
  have fin: "hs_block_phase (hs_run toy_block_env (active_validators sample_set) (vs_quorum_threshold sample_set)
     (required_quorum_voting_power sample_set) (three_certificates 9)) 10 = Some HsFinalize"
    "hs_block_phase (hs_run toy_block_env (active_validators sample_set) (vs_quorum_threshold sample_set)
     (required_quorum_voting_power sample_set) (three_certificates 19)) 20 = Some HsFinalize"
    using three_certificates_finalise [of 9] three_certificates_finalise [of 19] by simp_all
  have inv: "vs_inv (be_crypto toy_block_env) sample_set"
    using sample_set_inv by simp
  obtain qc1 qc2 :: quorum_certificate where "qc_block_hash qc1 \<noteq> qc_block_hash qc2"
    "active_validator_count sample_set < 3 * card (set (qc_validators qc1) \<inter> set (qc_validators qc2))"
    using conflicting_finality_needs_third [OF inv _ _ fin] sample_active(2) by auto
  then have "\<exists>(qc1 :: quorum_certificate) (qc2 :: quorum_certificate). qc_block_hash qc1 \<noteq> qc_block_hash qc2
      \<and> active_validator_count sample_set < 3 * card (set (qc_validators qc1) \<inter> set (qc_validators qc2))"
    by blast
  then show ?thesis
    using fin(1) sample_count by (simp add: active_validator_count_def)
qed

section \<open>Pruning and the locked-block check\<close>












text \<open>
  The lock can move down. A node that holds a lock at height 9 accepts the pre-commit certificate
  of a block of height 5 that it had prepared before, and the lock moves to height 5.
\<close>

theorem lock_can_regress:
  "\<exists>evs e. hs_locked_block_height (hs_run toy_block_env (active_validators sample_set) (vs_quorum_threshold sample_set)
        (required_quorum_voting_power sample_set) evs) = Some 9
     \<and> hs_locked_block_height (hs_run toy_block_env (active_validators sample_set) (vs_quorum_threshold sample_set)
        (required_quorum_voting_power sample_set) (evs @ [e])) = Some 5"
proof -
  let ?c = "\<lambda>n ph. Certificate (plain_block n) (sample_qc (ucast n + 1) ph)"
  have qc: "qc_phase (sample_qc h ph) = ph" "qc_block_hash (sample_qc h ph) = h" "qc_view (sample_qc h ph) = 1" for h ph
    by (simp_all add: sample_qc_def qc_new_with_phase_def)
  have ht: "bh_height (blk_header (plain_block n)) = n" "bh_parent_hash (blk_header (plain_block n)) = 9" for n
    by (simp_all add: plain_block_def header_new_def)
  show ?thesis
    by (rule exI [of _ "[?c 5 Prepare, ?c 9 Prepare, ?c 9 PreCommit]"], rule exI [of _ "?c 5 PreCommit"])
       (simp add: hs_run_def apply_three_phase_commit_rule_def plain_block_hash plain_block_basic
        verify_prepare_phase_def verify_pre_commit_phase_def sample_qc_accepted qc ht
        hotstuff_new_def update_highest_qc_def update_locked_block_def Let_def)
qed

end
