(* ===== verification/Pacemaker.thy ===== *)
theory Pacemaker
  imports Prelude
begin

text \<open>
  The pacemaker (\<open>crates/consensus/src/hotstuff/pacemaker.rs\<close>): views, timeouts with exponential
  back-off, and the bound on views claimed by peers without a certificate. A \<open>Duration\<close> is its number
  of nanoseconds, bounded as in the standard library; the clock is an argument.
\<close>

definition DURATION_MAX :: nat where
  "DURATION_MAX = (2 ^ 64 - 1) * 10 ^ 9 + 999999999"

definition duration_saturating_mul :: "nat \<Rightarrow> nat \<Rightarrow> nat" where
  "duration_saturating_mul d k = min (d * k) DURATION_MAX"

text \<open>The operator \<open>*\<close> on durations panics on overflow.\<close>

definition duration_mul :: "nat \<Rightarrow> nat \<Rightarrow> nat option" where
  "duration_mul d k = (if d * k \<le> DURATION_MAX then Some (d * k) else None)"

definition MAX_TIMEOUT_SECS :: nat where
  "MAX_TIMEOUT_SECS = 60"

definition MAX_UNAUTHENTICATED_VIEW_JUMP :: u64 where
  "MAX_UNAUTHENTICATED_VIEW_JUMP = 32"

record new_view_message =
  nv_view :: u64
  nv_leader_index :: "nat option"

record pacemaker =
  pm_current_view :: u64
  pm_base_timeout :: nat
  pm_max_timeout :: nat
  pm_current_timeout :: nat
  pm_last_view_start :: nat

definition pacemaker_new :: "nat \<Rightarrow> nat \<Rightarrow> pacemaker" where
  "pacemaker_new base now =
     \<lparr>pm_current_view = 0, pm_base_timeout = base,
      pm_max_timeout = max (min (duration_saturating_mul base 16) (MAX_TIMEOUT_SECS * 10 ^ 9)) base,
      pm_current_timeout = base, pm_last_view_start = now\<rparr>"

definition advance_view :: "pacemaker \<Rightarrow> pacemaker" where
  "advance_view p = p\<lparr>pm_current_view := sat_add (pm_current_view p) 1\<rparr>"

definition reset_timer :: "nat \<Rightarrow> pacemaker \<Rightarrow> pacemaker" where
  "reset_timer now p = p\<lparr>pm_last_view_start := now\<rparr>"

definition reset_timeout :: "pacemaker \<Rightarrow> pacemaker" where
  "reset_timeout p = p\<lparr>pm_current_timeout := pm_base_timeout p\<rparr>"

definition on_timeout :: "nat \<Rightarrow> pacemaker \<Rightarrow> pacemaker option" where
  "on_timeout now p =
     (case duration_mul (pm_current_timeout p) 2 of
        None \<Rightarrow> None
      | Some d \<Rightarrow> Some (advance_view (reset_timer now (p\<lparr>pm_current_timeout := min d (pm_max_timeout p)\<rparr>))))"

definition leader_for_view :: "u64 \<Rightarrow> nat \<Rightarrow> nat option" where
  "leader_for_view view n = (if n = 0 then None else Some (unat view mod n))"

definition sanitized_external_view :: "pacemaker \<Rightarrow> u64 \<Rightarrow> u64 option" where
  "sanitized_external_view p claimed =
     (let ceiling = sat_add (pm_current_view p) MAX_UNAUTHENTICATED_VIEW_JUMP in
      if ceiling < claimed then None else Some claimed)"

definition sync_view_with_network :: "nat \<Rightarrow> u64 \<Rightarrow> pacemaker \<Rightarrow> pacemaker" where
  "sync_view_with_network now view p =
     (if pm_current_view p < view then
        (case sanitized_external_view p view of
           Some safe_view \<Rightarrow> reset_timer now (reset_timeout (p\<lparr>pm_current_view := safe_view\<rparr>))
         | None \<Rightarrow> p)
      else reset_timer now p)"

definition handle_new_view_message :: "nat \<Rightarrow> new_view_message \<Rightarrow> pacemaker \<Rightarrow> pacemaker" where
  "handle_new_view_message now msg p =
     (if pm_current_view p < nv_view msg then
        (case sanitized_external_view p (nv_view msg) of
           Some safe_view \<Rightarrow> reset_timer now (reset_timeout (p\<lparr>pm_current_view := safe_view\<rparr>))
         | None \<Rightarrow> p)
      else reset_timer now p)"

definition broadcast_new_view :: "pacemaker \<Rightarrow> nat \<Rightarrow> new_view_message" where
  "broadcast_new_view p n =
     \<lparr>nv_view = pm_current_view p, nv_leader_index = leader_for_view (pm_current_view p) n\<rparr>"

definition detect_leader_failure :: "nat \<Rightarrow> pacemaker \<Rightarrow> bool" where
  "detect_leader_failure now p =
     (pm_current_timeout p \<noteq> 0 \<and> pm_current_timeout p \<le> now - pm_last_view_start p)"

section \<open>Runs\<close>

datatype pm_event = Timeout nat | NewView nat new_view_message | Sync nat u64

fun pm_step :: "pm_event \<Rightarrow> pacemaker \<Rightarrow> pacemaker option" where
  "pm_step (Timeout now) p = on_timeout now p"
| "pm_step (NewView now m) p = Some (handle_new_view_message now m p)"
| "pm_step (Sync now v) p = Some (sync_view_with_network now v p)"

fun pm_run :: "pm_event list \<Rightarrow> pacemaker \<Rightarrow> pacemaker option" where
  "pm_run [] p = Some p"
| "pm_run (e # es) p = (case pm_step e p of None \<Rightarrow> None | Some p' \<Rightarrow> pm_run es p')"

definition pm_inv :: "nat \<Rightarrow> pacemaker \<Rightarrow> bool" where
  "pm_inv base p \<longleftrightarrow> pm_base_timeout p = base \<and> base \<le> pm_current_timeout p
     \<and> pm_current_timeout p \<le> pm_max_timeout p \<and> pm_max_timeout p = pm_max_timeout (pacemaker_new base 0)"

definition pm_gain :: "pm_event \<Rightarrow> nat" where
  "pm_gain e = (case e of Timeout _ \<Rightarrow> 1 | _ \<Rightarrow> 32)"

lemma max_timeout_bound: "pm_max_timeout (pacemaker_new base now) \<le> max (60 * 10 ^ 9) base"
  by (simp add: pacemaker_new_def MAX_TIMEOUT_SECS_def)

lemma sanitized_view:
  "sanitized_external_view p v = Some w \<Longrightarrow> w = v \<and> unat v \<le> unat (pm_current_view p) + 32"
  by (auto simp: sanitized_external_view_def Let_def MAX_UNAUTHENTICATED_VIEW_JUMP_def word_less_nat_alt
      not_less unat_ops split: if_splits)

lemma min_mul_cap: "1 \<le> k \<Longrightarrow> min (min a m * k) m = min (a * k) (m :: nat)"
proof (cases "a \<le> m")
  case False
  assume k: "1 \<le> k"
  have "m * 1 \<le> m * k" "a * 1 \<le> a * k"
    using k by (intro mult_le_mono2; simp)+
  then have "m \<le> m * k" "m \<le> a * k"
    using False by linarith+
  then have "min (m * k) m = m" "min (a * k) m = m"
    by linarith+
  then show ?thesis
    using False by simp
qed simp

lemma pm_step_bounds:
  assumes inv: "pm_inv base p" and base: "2 * base \<le> DURATION_MAX"
  shows "\<exists>p'. pm_step e p = Some p' \<and> pm_inv base p' \<and> pm_current_view p \<le> pm_current_view p'
      \<and> unat (pm_current_view p') \<le> unat (pm_current_view p) + pm_gain e"
proof -
  have "pm_current_timeout p \<le> max (60 * 10 ^ 9) base"
    using inv max_timeout_bound [of base 0] by (auto simp: pm_inv_def)
  then have mul: "pm_current_timeout p * 2 \<le> DURATION_MAX"
    using base by (auto simp: DURATION_MAX_def)
  have "unat (pm_current_view p) < 2 ^ 64"
    using unat_bound [of "pm_current_view p"] by simp
  then show ?thesis
    using inv mul
    by (cases e)
       (auto simp: on_timeout_def duration_mul_def pm_inv_def pm_gain_def advance_view_def reset_timer_def
         reset_timeout_def handle_new_view_message_def sync_view_with_network_def word_le_nat_alt unat_ops
         word_less_nat_alt split: option.split dest!: sanitized_view)
qed

text \<open>
  C31: the pacemaker never panics and is bounded. Whatever timeouts, view messages and peer views it
  processes, starting from a base timeout of at most half of the largest duration, the timeout stays
  between the base and the larger of the base and 60 seconds. From any point of the run on, the view
  never decreases, and it grows by at most one per timeout and 32 per message, so that a peer without a
  certificate cannot carry it further.
\<close>

theorem pacemaker_bounds:
  assumes "2 * base \<le> DURATION_MAX"
  shows "\<exists>p q. pm_run es (pacemaker_new base now) = Some p \<and> pm_run fs p = Some q
    \<and> base \<le> pm_current_timeout q \<and> pm_current_timeout q \<le> max (60 * 10 ^ 9) base
    \<and> pm_current_view p \<le> pm_current_view q
    \<and> unat (pm_current_view q) \<le> unat (pm_current_view p) + sum_list (map pm_gain fs)"
proof -
  have run: "\<exists>p'. pm_run es p = Some p' \<and> pm_inv base p' \<and> pm_current_view p \<le> pm_current_view p'
      \<and> unat (pm_current_view p') \<le> unat (pm_current_view p) + sum_list (map pm_gain es)"
    if "pm_inv base p" for p es
    using that
  proof (induction es arbitrary: p)
    case (Cons e es)
    obtain q where q: "pm_step e p = Some q" "pm_inv base q" "pm_current_view p \<le> pm_current_view q"
      "unat (pm_current_view q) \<le> unat (pm_current_view p) + pm_gain e"
      using pm_step_bounds [OF Cons.prems assms] by blast
    then show ?case
      using Cons.IH [OF q(2)] by fastforce
  qed simp
  have "pm_inv base (pacemaker_new base now)"
    by (simp add: pm_inv_def pacemaker_new_def)
  then obtain p where p: "pm_run es (pacemaker_new base now) = Some p" "pm_inv base p"
    using run by blast
  obtain q where q: "pm_run fs p = Some q" "pm_inv base q" "pm_current_view p \<le> pm_current_view q"
      "unat (pm_current_view q) \<le> unat (pm_current_view p) + sum_list (map pm_gain fs)"
    using run [OF p(2)] by blast
  show ?thesis
    using p q max_timeout_bound [of base 0] by (auto simp: pm_inv_def)
qed

theorem pacemaker_bounds_witness:
  "2 * (2000000000 :: nat) \<le> DURATION_MAX
   \<and> (\<exists>p q. pm_run [Timeout 5] (pacemaker_new 2000000000 0) = Some p \<and> pm_run [Sync 6 40, Sync 7 30] p = Some q
        \<and> pm_current_timeout q \<le> 60000000000 \<and> pm_current_view p \<le> pm_current_view q)"
proof -
  have b: "2 * (2000000000 :: nat) \<le> DURATION_MAX"
    by (simp add: DURATION_MAX_def)
  show ?thesis
    using b pacemaker_bounds [OF b, of "[Timeout 5]" 0 "[Sync 6 40, Sync 7 30]"] by auto
qed

text \<open>
  C32: back-off reaches its ceiling. After \<open>n\<close> timeouts in a row from a fresh pacemaker the timeout is
  the base doubled \<open>n\<close> times, cut at the ceiling, and the view is \<open>n\<close>; so four timeouts suffice to
  reach the ceiling for any base timeout, and it is then kept until a view is adopted.
\<close>

theorem backoff_reaches_ceiling:
  assumes "2 * base \<le> DURATION_MAX" "n < 2 ^ 64"
  shows "\<exists>p. pm_run (map Timeout (replicate n t)) (pacemaker_new base now) = Some p
    \<and> pm_current_timeout p = min (base * 2 ^ n) (pm_max_timeout p) \<and> unat (pm_current_view p) = n
    \<and> (if 4 \<le> n then pm_current_timeout p = pm_max_timeout p else True)"
proof -
  have gen: "\<exists>p. pm_run (map Timeout (replicate n t)) q = Some p \<and> pm_inv base p
      \<and> pm_current_timeout p = min (pm_current_timeout q * 2 ^ n) (pm_max_timeout p)
      \<and> unat (pm_current_view p) = unat (pm_current_view q) + n"
    if "pm_inv base q" "unat (pm_current_view q) + n < 2 ^ 64" for q
    using that
  proof (induction n arbitrary: q)
    case 0
    then show ?case by (auto simp: pm_inv_def)
  next
    case (Suc n)
    obtain r where r: "on_timeout t q = Some r" "pm_inv base r"
      using pm_step_bounds [OF Suc.prems(1) assms(1), of "Timeout t"] by auto
    have f: "pm_current_timeout r = min (pm_current_timeout q * 2) (pm_max_timeout q)"
      "unat (pm_current_view r) = unat (pm_current_view q) + 1" "pm_max_timeout r = pm_max_timeout q"
      using r(1) Suc.prems(2)
      by (auto simp: on_timeout_def duration_mul_def advance_view_def reset_timer_def unat_ops split: if_splits)
    obtain p where p: "pm_run (map Timeout (replicate n t)) r = Some p" "pm_inv base p"
      "pm_current_timeout p = min (pm_current_timeout r * 2 ^ n) (pm_max_timeout p)"
      "unat (pm_current_view p) = unat (pm_current_view r) + n"
      using Suc.IH [OF r(2)] f(2) Suc.prems(2) by auto
    have "pm_max_timeout p = pm_max_timeout q"
      using p(2) Suc.prems(1) by (simp add: pm_inv_def)
    then have "pm_current_timeout p = min (pm_current_timeout q * 2 ^ Suc n) (pm_max_timeout p)"
      using p(3) f(1) min_mul_cap [of "2 ^ n" "pm_current_timeout q * 2" "pm_max_timeout q"]
      by (simp add: mult.assoc)
    then show ?case
      using p r(1) f(2) by simp
  qed
  have new: "pm_inv base (pacemaker_new base now)"
    by (simp add: pm_inv_def pacemaker_new_def)
  obtain p where p: "pm_run (map Timeout (replicate n t)) (pacemaker_new base now) = Some p" "pm_inv base p"
      "pm_current_timeout p = min (base * 2 ^ n) (pm_max_timeout p)" "unat (pm_current_view p) = n"
    using gen [OF new] assms(2) by (auto simp: pacemaker_new_def)
  have "pm_max_timeout p \<le> base * 2 ^ n" if "4 \<le> n"
  proof -
    have "base * 16 \<le> base * 2 ^ n"
      using power_increasing [OF that, of "2 :: nat"] by simp
    moreover have "pm_max_timeout p \<le> base * 16"
      using p(2) by (simp add: pm_inv_def pacemaker_new_def duration_saturating_mul_def)
    ultimately show ?thesis by linarith
  qed
  then show ?thesis
    using p by (auto simp: min_def)
qed

theorem backoff_reaches_ceiling_witness:
  "\<exists>p. pm_run (map Timeout (replicate 4 9)) (pacemaker_new 2000000000 0) = Some p
     \<and> pm_current_timeout p = pm_max_timeout p \<and> unat (pm_current_view p) = 4"
  using backoff_reaches_ceiling [of 2000000000 4 9 0] by (fastforce simp: DURATION_MAX_def)

end
