(* ===== verification/OrderedMap.thy ===== *)
theory OrderedMap
  imports Prelude "HOL-Library.List_Lexorder" "HOL-Library.Sublist"
begin

text \<open>
  Ordered maps: the tables of the embedded database and the \<open>BTreeMap\<close>s of the in-memory backend.
  Both iterate in key order; byte strings are ordered lexicographically. A map is the list of its
  entries in strictly increasing key order.
\<close>

type_synonym ('k, 'v) omap = "('k \<times> 'v) list"

definition om_wf :: "('k::linorder, 'v) omap \<Rightarrow> bool" where
  "om_wf m \<longleftrightarrow> sorted_wrt (<) (map fst m)"

fun om_insert :: "'k::linorder \<Rightarrow> 'v \<Rightarrow> ('k, 'v) omap \<Rightarrow> ('k, 'v) omap" where
  "om_insert k v [] = [(k, v)]"
| "om_insert k v ((k', v') # m) =
     (if k < k' then (k, v) # (k', v') # m
      else if k = k' then (k, v) # m
      else (k', v') # om_insert k v m)"

text \<open>The entries with \<open>lo \<le> key\<close>, and below an optional upper bound.\<close>

definition om_range :: "'k::linorder \<Rightarrow> 'k option \<Rightarrow> ('k, 'v) omap \<Rightarrow> ('k \<times> 'v) list" where
  "om_range lo hi m = filter (\<lambda>(k, _). lo \<le> k \<and> (case hi of Some h \<Rightarrow> k < h | None \<Rightarrow> True)) m"

lemma om_get_insert [simp]: "map_of (om_insert k v m) = (map_of m)(k \<mapsto> v)"
  by (induction m) auto

lemma om_keys_insert: "fst ` set (om_insert k v m) = insert k (fst ` set m)"
  by (induction k v m rule: om_insert.induct) (simp_all add: insert_commute)

lemma om_wf_empty [simp]: "om_wf []"
  by (simp add: om_wf_def)

lemma om_wf_Cons [simp]: "om_wf (e # m) \<longleftrightarrow> om_wf m \<and> (\<forall>x \<in> set m. fst e < fst x)"
  by (auto simp: om_wf_def)

lemma om_wf_insert [simp]: "om_wf m \<Longrightarrow> om_wf (om_insert k v m)"
proof (induction m)
  case (Cons e m)
  obtain k' v' where e: "e = (k', v')" by (cases e)
  consider "k < k'" | "k = k'" | "k' < k" by fastforce
  then show ?case
  proof cases
    case 3
    have "k' < fst x" if "x \<in> set (om_insert k v m)" for x
    proof -
      have "fst x \<in> insert k (fst ` set m)"
        using imageI [OF that, of fst] unfolding om_keys_insert .
      then show ?thesis using 3 Cons.prems e by auto
    qed
    then show ?thesis using 3 Cons e by auto
  qed (use Cons.prems e in auto)
qed simp

lemma om_wf_filter [simp]: "om_wf m \<Longrightarrow> om_wf (filter P m)"
  by (induction m) auto

lemma om_wf_remove [simp]: "om_wf m \<Longrightarrow> om_wf (hm_remove k m)"
  by (simp add: AList.delete_eq)

lemma om_wf_distinct: "om_wf m \<Longrightarrow> distinct (map fst m)"
  unfolding om_wf_def by (rule strict_sorted_iff [THEN iffD1, THEN conjunct2])

lemma om_entry: "om_wf m \<Longrightarrow> (k, v) \<in> set m \<longleftrightarrow> map_of m k = Some v"
  by (simp add: om_wf_distinct)

text \<open>Ordered maps with the same lookups are equal.\<close>

lemma om_ext: "om_wf m \<Longrightarrow> om_wf n \<Longrightarrow> map_of m = map_of n \<Longrightarrow> m = n"
proof (induction m arbitrary: n)
  case Nil
  then show ?case by (simp add: empty_eq_map_of_iff)
next
  case (Cons e m)
  obtain k v where e: "e = (k, v)" by (cases e)
  have "map_of n k = Some v"
    using fun_cong [OF Cons.prems(3), of k] e by simp
  then have "n \<noteq> []" by auto
  then obtain k' v' n' where n: "n = (k', v') # n'"
    by (metis neq_Nil_conv surj_pair)
  have mem: "(a, b) \<in> set (e # m) \<longleftrightarrow> (a, b) \<in> set n" for a b
    using om_entry [OF Cons.prems(1)] om_entry [OF Cons.prems(2)] Cons.prems(3) by metis
  have "(k', v') \<in> set (e # m)" "(k, v) \<in> set n"
    using mem n e by auto
  then have kv: "k' = k" "v' = v"
    using Cons.prems(1,2) e n by fastforce+
  have "map_of m k = None" "map_of n' k = None"
    using Cons.prems(1,2) e n kv by (force simp: map_of_eq_None_iff)+
  then have "map_of m x = map_of n' x" for x
    using fun_cong [OF Cons.prems(3), of x] e n kv by (cases "x = k") simp_all
  then have "map_of m = map_of n'" by (rule ext)
  then show ?case
    using Cons.IH [of n'] Cons.prems(1,2) e n kv by auto
qed

lemma om_insert_swap:
  "om_wf m \<Longrightarrow> k \<noteq> k' \<Longrightarrow> om_insert k v (om_insert k' v' m) = om_insert k' v' (om_insert k v m)"
  by (rule om_ext) (auto simp: fun_upd_twist)

text \<open>A map is its entries below a key followed by the others.\<close>

lemma om_split:
  assumes "om_wf c"
  shows "c = filter (\<lambda>e. fst e < m) c @ filter (\<lambda>e. \<not> fst e < m) c"
  using assms
proof (induction c)
  case (Cons e c)
  show ?case
  proof (cases "fst e < m")
    case False
    then have "filter (\<lambda>e. fst e < m) c = []" "filter (\<lambda>e. \<not> fst e < m) c = c"
      using Cons.prems by (fastforce simp: filter_empty_conv filter_id_conv)+
    then show ?thesis using False by simp
  qed (use Cons in auto)
qed simp

lemma om_split_le:
  assumes "om_wf c"
  shows "c = filter (\<lambda>e. fst e \<le> m) c @ filter (\<lambda>e. m < fst e) c"
  using assms
proof (induction c)
  case (Cons e c)
  show ?case
  proof (cases "fst e \<le> m")
    case False
    then have "filter (\<lambda>e. fst e \<le> m) c = []" "filter (\<lambda>e. m < fst e) c = c"
      using Cons.prems by (fastforce simp: filter_empty_conv filter_id_conv)+
    then show ?thesis using False by simp
  qed (use Cons in auto)
qed simp

lemma om_le_last: "om_wf c \<Longrightarrow> e \<in> set c \<Longrightarrow> fst e \<le> fst (last c)"
  by (induction c) (auto simp: less_imp_le)

lemma om_insert_last: "(\<And>e. e \<in> set m \<Longrightarrow> fst e < k) \<Longrightarrow> om_insert k v m = m @ [(k, v)]"
proof (induction m)
  case (Cons e m)
  have "fst e < k" using Cons.prems by simp
  then show ?case using Cons by (cases e) auto
qed simp

lemma om_range_entries: "set (om_range lo hi m) = {(k, v) \<in> set m. lo \<le> k \<and> (case hi of Some h \<Rightarrow> k < h | None \<Rightarrow> True)}"
  by (auto simp: om_range_def)

lemma om_wf_range [simp]: "om_wf m \<Longrightarrow> om_wf (om_range lo hi m)"
  by (simp add: om_range_def)

section \<open>Prefixes of byte strings\<close>

text \<open>
  \<open>prefix_scan_upper_bound\<close>: the last byte that is not 255 is incremented and what follows is cut; the
  argument is the reversed prefix.
\<close>

fun upper_bound_rev :: "bytes \<Rightarrow> bytes option" where
  "upper_bound_rev [] = None"
| "upper_bound_rev (b # bs) = (if b \<noteq> 255 then Some (rev (sat_add b 1 # bs)) else upper_bound_rev bs)"

definition prefix_scan_upper_bound :: "bytes \<Rightarrow> bytes option" where
  "prefix_scan_upper_bound p = upper_bound_rev (rev p)"

lemma u8_succ:
  assumes "b \<noteq> (255 :: u8)" shows "unat (sat_add b 1) = unat b + 1"
proof -
  have "unat b \<noteq> unat (255 :: u8)"
    using assms unsigned_word_eqI by blast
  then show ?thesis
    using unat_bound [of b] by (simp add: unat_ops)
qed

lemma le_255_prefix: "set p \<subseteq> {255 :: u8} \<Longrightarrow> p \<le> k \<longleftrightarrow> prefix p k"
proof (induction p arbitrary: k)
  case (Cons a p)
  have "\<not> 255 < (c :: u8)" for c
    using unat_bound [of c] by (simp add: word_less_nat_alt)
  then show ?case
    using Cons by (cases k) auto
qed simp

lemma prefix_range:
  assumes "b \<noteq> 255" "set s \<subseteq> {255 :: u8}"
  shows "q @ b # s \<le> k \<and> k < q @ [sat_add b 1] \<longleftrightarrow> prefix (q @ b # s) k"
proof (induction q arbitrary: k)
  case Nil
  have lt: "c < sat_add b 1 \<longleftrightarrow> c \<le> b" for c
    using u8_succ [OF assms(1)] by (simp add: word_less_nat_alt word_le_nat_alt less_Suc_eq_le)
  show ?case
  proof (cases k)
    case (Cons c k')
    have "b # s \<le> k \<and> k < [sat_add b 1] \<longleftrightarrow> (b < c \<or> b = c \<and> s \<le> k') \<and> c \<le> b"
      using lt [of c] by (simp add: Cons)
    also have "\<dots> \<longleftrightarrow> b = c \<and> prefix s k'"
      using le_255_prefix [OF assms(2), of k'] by auto
    finally show ?thesis by (simp add: Cons)
  qed simp
next
  case (Cons a q)
  show ?case
  proof (cases k)
    case (Cons c k')
    then show ?thesis
      using Cons.IH [of k'] by (cases "a = c") (simp_all, simp add: less_not_sym)
  qed simp
qed

lemma upper_bound_rev_None: "upper_bound_rev r = None \<Longrightarrow> set r \<subseteq> {255}"
  by (induction r) (auto split: if_splits)

lemma upper_bound_rev_Some:
  "upper_bound_rev r = Some e \<Longrightarrow>
     \<exists>q b s. rev r = q @ b # s \<and> b \<noteq> 255 \<and> set s \<subseteq> {255} \<and> e = q @ [sat_add b 1]"
proof (induction r)
  case (Cons b r)
  show ?case
  proof (cases "b = 255")
    case True
    then obtain q c s where "rev r = q @ c # s" "c \<noteq> 255" "set s \<subseteq> {255}" "e = q @ [sat_add c 1]"
      using Cons by auto
    then show ?thesis
      using True by (intro exI [of _ q] exI [of _ c] exI [of _ "s @ [255]"]) simp
  next
    case False
    then show ?thesis
      using Cons.prems by (intro exI [of _ "rev r"] exI [of _ b] exI [of _ "[]"]) simp
  qed
qed simp

text \<open>The half-open range up to the bound holds exactly the keys with the prefix.\<close>

lemma prefix_scan_range:
  "p \<le> k \<and> (case prefix_scan_upper_bound p of Some h \<Rightarrow> k < h | None \<Rightarrow> True) \<longleftrightarrow> prefix p k"
proof (cases "upper_bound_rev (rev p)")
  case None
  then show ?thesis
    using upper_bound_rev_None [OF None] le_255_prefix [of p k] by (simp add: prefix_scan_upper_bound_def)
next
  case (Some e)
  then show ?thesis
  proof -
    obtain q b s where "p = q @ b # s" "b \<noteq> 255" "set s \<subseteq> {255}" "e = q @ [sat_add b 1]"
      using upper_bound_rev_Some [OF Some] by auto
    then show ?thesis
      using Some prefix_range [of b s q k] by (simp add: prefix_scan_upper_bound_def)
  qed
qed

end
