(* ===== verification/StateStore.thy ===== *)
theory StateStore
  imports OrderedMap
begin

text \<open>
  The state tables of the storage crate: the persistent engine of \<open>redb_store.rs\<close> with its read cache
  and its buffer of asynchronous writes, the in-memory backend of \<open>memory.rs\<close>, and the contract of the
  trait \<open>DatabaseBackend\<close> (\<open>backend.rs\<close>) that both implement.

  The embedded database is not part of the repository. Its write transactions are atomic, so an
  operation that fails leaves the tables as they were; every writing operation takes the outcome of
  its transaction as an argument. The cache crate is the parameter \<open>lru\<close>.
\<close>

datatype storage_error =
    FinalizedBlockReversion u64 u64
  | FinalizedBlockPruning u64 "u64 option"
  | InvalidCanonicalMapping u64 hash32 "hash32 option"
  | CorruptBlockIndex hash32 u64 string
  | RollbackFailure u64 u64 string
  | SchemaVersionTooNew u64 u64
  | StorageCorruption string
  | TransactionConflict string
  | Serialization string
  | Backend string

type_synonym state_updates = "(bytes \<times> bytes option) list"
type_synonym state_table = "(bytes, bytes) omap"

section \<open>Updates and their inverse\<close>

fun apply_update :: "bytes \<times> bytes option \<Rightarrow> state_table \<Rightarrow> state_table" where
  "apply_update (k, Some v) t = om_insert k v t"
| "apply_update (k, None) t = hm_remove k t"

definition apply_updates :: "state_updates \<Rightarrow> state_table \<Rightarrow> state_table" where
  "apply_updates cs t = fold apply_update cs t"

text \<open>The first loop of \<open>atomic_state_commit_with_rollback\<close>: the value of each touched key, once.\<close>

fun undo_of :: "(bytes \<Rightarrow> bytes option) \<Rightarrow> state_updates \<Rightarrow> bytes list \<Rightarrow> state_updates" where
  "undo_of m [] seen = []"
| "undo_of m ((k, u) # cs) seen =
     (if k \<in> set seen then undo_of m cs seen else (k, m k) # undo_of m cs (k # seen))"

text \<open>What a sequence of updates does to the lookups.\<close>

definition upd_map :: "state_updates \<Rightarrow> (bytes \<Rightarrow> bytes option) \<Rightarrow> bytes \<Rightarrow> bytes option" where
  "upd_map cs m = fold (\<lambda>(k, u) m. m(k := u)) cs m"

lemma upd_map_simps [simp]:
  "upd_map [] m = m"
  "upd_map ((k, u) # cs) m = upd_map cs (m(k := u))"
  "upd_map (cs @ ds) m = upd_map ds (upd_map cs m)"
  by (simp_all add: upd_map_def)

lemma apply_updates_simps [simp]:
  "apply_updates [] t = t"
  "apply_updates (c # cs) t = apply_updates cs (apply_update c t)"
  "apply_updates (cs @ ds) t = apply_updates ds (apply_updates cs t)"
  by (simp_all add: apply_updates_def)

lemma get_apply_update [simp]: "hm_get (apply_update (k, u) t) = (hm_get t)(k := u)"
  by (cases u) (simp_all add: fun_eq_iff)

lemma get_apply_updates [simp]: "hm_get (apply_updates cs t) = upd_map cs (hm_get t)"
  by (induction cs arbitrary: t) auto

lemma wf_apply_updates [simp]: "om_wf t \<Longrightarrow> om_wf (apply_updates cs t)"
proof (induction cs arbitrary: t)
  case (Cons c cs)
  obtain k u where "c = (k, u)" by (cases c)
  then show ?case using Cons by (cases u) simp_all
qed simp

lemma upd_map_other: "k \<notin> fst ` set cs \<Longrightarrow> upd_map cs m k = m k"
  by (induction cs arbitrary: m) auto

lemma upd_map_constant:
  "k \<in> fst ` set cs \<Longrightarrow> (\<And>u. (k, u) \<in> set cs \<Longrightarrow> u = w) \<Longrightarrow> upd_map cs m k = w"
proof (induction cs arbitrary: m)
  case (Cons c cs)
  then show ?case
    by (cases c; cases "k \<in> fst ` set cs") (auto simp: upd_map_other)
qed simp

lemma undo_of_entries:
  "fst ` set (undo_of m cs seen) = fst ` set cs - set seen"
  "(k, u) \<in> set (undo_of m cs seen) \<Longrightarrow> u = m k"
  by (induction m cs seen rule: undo_of.induct) (auto split: if_splits)

text \<open>Committing the reversed undo batch restores every lookup.\<close>

lemma undo_restores: "upd_map (rev (undo_of m cs [])) (upd_map cs m) = m"
proof
  fix k
  show "upd_map (rev (undo_of m cs [])) (upd_map cs m) k = m k"
  proof (cases "k \<in> fst ` set cs")
    case True
    then show ?thesis
      by (intro upd_map_constant) (auto simp: undo_of_entries)
  next
    case False
    then show ?thesis by (simp add: upd_map_other undo_of_entries)
  qed
qed

section \<open>The persistent engine\<close>

definition MAX_BUFFERED_WRITES :: nat where
  "MAX_BUFFERED_WRITES = 100000"

text \<open>The cache as the engine uses it: lookup, marking as recently used, insertion, removal, clearing.\<close>

record 'c lru =
  lru_get :: "'c \<Rightarrow> bytes \<Rightarrow> bytes option"
  lru_touch :: "bytes \<Rightarrow> 'c \<Rightarrow> 'c"
  lru_put :: "bytes \<Rightarrow> bytes \<Rightarrow> 'c \<Rightarrow> 'c"
  lru_pop :: "bytes \<Rightarrow> 'c \<Rightarrow> 'c"
  lru_clear :: "'c \<Rightarrow> 'c"

text \<open>The documented behaviour: no operation invents entries, and insertion may evict some.\<close>

definition lru_ok :: "'c lru \<Rightarrow> bool" where
  "lru_ok L \<longleftrightarrow>
     (\<forall>c k k'. lru_get L (lru_touch L k c) k' = lru_get L c k')
   \<and> (\<forall>c k v k' w. lru_get L (lru_put L k v c) k' = Some w \<longrightarrow> (if k' = k then w = v else lru_get L c k' = Some w))
   \<and> (\<forall>c k k'. lru_get L (lru_pop L k c) k' = (if k' = k then None else lru_get L c k'))
   \<and> (\<forall>c k. lru_get L (lru_clear L c) k = None)"

record 'c engine =
  eng_state :: state_table
  eng_verkle :: "(hash32, bytes) omap"
  eng_cache :: 'c
  eng_buffered :: state_updates
  eng_inflight :: "state_updates option"

text \<open>
  The outcome of a write transaction: it commits, or it fails after some number of the statements in
  it (the commit itself fails when that is all of them).
\<close>

datatype io = IoOk | IoFails nat

abbreviation backend_error :: "('a, storage_error) result" where
  "backend_error \<equiv> Err (Backend ''redb'')"

definition state_get_bytes :: "io \<Rightarrow> bytes \<Rightarrow> 'c engine \<Rightarrow> (bytes option, storage_error) result" where
  "state_get_bytes io k s = (if io = IoOk then Ok (hm_get (eng_state s) k) else backend_error)"

definition invalidate_cache_entry :: "'c lru \<Rightarrow> bytes \<Rightarrow> 'c engine \<Rightarrow> 'c engine" where
  "invalidate_cache_entry L k s = s\<lparr>eng_cache := lru_pop L k (eng_cache s)\<rparr>"

definition state_put_bytes ::
  "'c lru \<Rightarrow> io \<Rightarrow> bytes \<Rightarrow> bytes \<Rightarrow> 'c engine \<Rightarrow> (unit, storage_error) result \<times> 'c engine" where
  "state_put_bytes L io k v s =
     (if io = IoOk then (Ok (), invalidate_cache_entry L k (s\<lparr>eng_state := om_insert k v (eng_state s)\<rparr>))
      else (backend_error, s))"

definition state_delete ::
  "'c lru \<Rightarrow> io \<Rightarrow> bytes \<Rightarrow> 'c engine \<Rightarrow> (unit, storage_error) result \<times> 'c engine" where
  "state_delete L io k s =
     (if io = IoOk then (Ok (), invalidate_cache_entry L k (s\<lparr>eng_state := hm_remove k (eng_state s)\<rparr>))
      else (backend_error, s))"

text \<open>
  The cache entries are dropped while the statements run, so those of the executed statements are
  gone even when the transaction fails.
\<close>

definition atomic_state_commit_with_rollback ::
  "'c lru \<Rightarrow> io \<Rightarrow> state_updates \<Rightarrow> 'c engine \<Rightarrow> (state_updates, storage_error) result \<times> 'c engine" where
  "atomic_state_commit_with_rollback L io cs s =
     (case io of
        IoOk \<Rightarrow>
          (Ok (undo_of (hm_get (eng_state s)) cs []),
           fold (invalidate_cache_entry L) (map fst cs) (s\<lparr>eng_state := apply_updates cs (eng_state s)\<rparr>))
      | IoFails n \<Rightarrow> (backend_error, fold (invalidate_cache_entry L) (map fst (take n cs)) s))"

definition map_ok :: "('a \<Rightarrow> 'b) \<Rightarrow> ('a, 'e) result \<Rightarrow> ('b, 'e) result" where
  "map_ok f r = then_ok r (\<lambda>x. Ok (f x))"

definition atomic_state_commit ::
  "'c lru \<Rightarrow> io \<Rightarrow> state_updates \<Rightarrow> 'c engine \<Rightarrow> (unit, storage_error) result \<times> 'c engine" where
  "atomic_state_commit L io cs s =
     apfst (map_ok (\<lambda>_. ())) (atomic_state_commit_with_rollback L io cs s)"

definition rollback_state_batch ::
  "'c lru \<Rightarrow> io \<Rightarrow> state_updates \<Rightarrow> 'c engine \<Rightarrow> (unit, storage_error) result \<times> 'c engine" where
  "rollback_state_batch L io undo s =
     (case atomic_state_commit L io (rev undo) s of
        (Ok _, s') \<Rightarrow> (Ok (), s'\<lparr>eng_cache := lru_clear L (eng_cache s')\<rparr>)
      | (Err e, s') \<Rightarrow> (Err e, s'))"

text \<open>
  \<open>state_get_cached\<close> takes the cache lock twice: for the lookup, and again to insert what it read
  from the table in between.
\<close>

definition cached_lookup :: "'c lru \<Rightarrow> bytes \<Rightarrow> 'c engine \<Rightarrow> bytes option \<times> 'c engine" where
  "cached_lookup L k s =
     (case lru_get L (eng_cache s) k of
        Some v \<Rightarrow> (Some v, s\<lparr>eng_cache := lru_touch L k (eng_cache s)\<rparr>)
      | None \<Rightarrow> (None, s))"

definition cached_fill :: "'c lru \<Rightarrow> bytes \<Rightarrow> bytes option \<Rightarrow> 'c engine \<Rightarrow> 'c engine" where
  "cached_fill L k val s =
     (case val of Some v \<Rightarrow> s\<lparr>eng_cache := lru_put L k v (eng_cache s)\<rparr> | None \<Rightarrow> s)"

definition state_get_cached ::
  "'c lru \<Rightarrow> io \<Rightarrow> bytes \<Rightarrow> 'c engine \<Rightarrow> (bytes option, storage_error) result \<times> 'c engine" where
  "state_get_cached L io k s =
     (case cached_lookup L k s of
        (Some v, s') \<Rightarrow> (Ok (Some v), s')
      | (None, s') \<Rightarrow>
          (case state_get_bytes io k s' of
             Ok val \<Rightarrow> (Ok val, cached_fill L k val s')
           | Err e \<Rightarrow> (Err e, s')))"

definition state_snapshot_reads ::
  "io \<Rightarrow> bytes list \<Rightarrow> 'c engine \<Rightarrow> (bytes option list, storage_error) result" where
  "state_snapshot_reads io ks s = (if io = IoOk then Ok (map (hm_get (eng_state s)) ks) else backend_error)"

text \<open>The three loops of \<open>state_prefix_scan\<close>; the last one stops at the first key without the prefix.\<close>

definition state_prefix_scan ::
  "io \<Rightarrow> bytes \<Rightarrow> 'c engine \<Rightarrow> ((bytes \<times> bytes) list, storage_error) result" where
  "state_prefix_scan io p s =
     (if io \<noteq> IoOk then backend_error
      else if p = [] then Ok (eng_state s)
      else case prefix_scan_upper_bound p of
          Some e \<Rightarrow> Ok (om_range p (Some e) (eng_state s))
        | None \<Rightarrow> Ok (takeWhile (\<lambda>(k, _). prefix p k) (om_range p None (eng_state s))))"

definition state_range_scan ::
  "io \<Rightarrow> bytes \<Rightarrow> bytes option \<Rightarrow> nat \<Rightarrow> 'c engine \<Rightarrow> ((bytes \<times> bytes) list, storage_error) result" where
  "state_range_scan io lo hi limit s =
     (if io \<noteq> IoOk then backend_error else Ok (take limit (om_range lo hi (eng_state s))))"

subsection \<open>Buffered writes\<close>

text \<open>
  The flush first takes the whole buffer (under the flush lock, which the in-flight batch stands
  for), and then writes it in one transaction. Producers can append to the buffer in between.
\<close>

datatype flush_io = FlushOk | FlushBusy | FlushFails

definition flush_take :: "'c engine \<Rightarrow> 'c engine option" where
  "flush_take s =
     (case eng_inflight s of
        Some _ \<Rightarrow> None
      | None \<Rightarrow> Some (s\<lparr>eng_inflight := Some (eng_buffered s), eng_buffered := []\<rparr>))"

definition restore_on_failure :: "state_updates \<Rightarrow> 'c engine \<Rightarrow> 'c engine" where
  "restore_on_failure pending s = s\<lparr>eng_buffered := pending @ eng_buffered s, eng_inflight := None\<rparr>"

definition flush_finish ::
  "'c lru \<Rightarrow> flush_io \<Rightarrow> 'c engine \<Rightarrow> (nat, storage_error) result \<times> 'c engine" where
  "flush_finish L fio s =
     (case eng_inflight s of
        None \<Rightarrow> (Ok 0, s)
      | Some pending \<Rightarrow>
          (if pending = [] then (Ok 0, s\<lparr>eng_inflight := None\<rparr>)
           else case fio of
               FlushBusy \<Rightarrow> (Ok 0, restore_on_failure pending s)
             | FlushFails \<Rightarrow> (backend_error, restore_on_failure pending s)
             | FlushOk \<Rightarrow>
                 (Ok (length pending),
                  fold (invalidate_cache_entry L) (map fst pending)
                    (s\<lparr>eng_state := apply_updates pending (eng_state s), eng_inflight := None\<rparr>))))"

text \<open>The whole flush; \<open>None\<close> when another flush holds the lock.\<close>

definition flush_buffered_state_writes ::
  "'c lru \<Rightarrow> flush_io \<Rightarrow> 'c engine \<Rightarrow> ((nat, storage_error) result \<times> 'c engine) option" where
  "flush_buffered_state_writes L fio s = map_option (flush_finish L fio) (flush_take s)"

definition buffer_block_execution_write ::
  "'c lru \<Rightarrow> flush_io \<Rightarrow> bytes \<Rightarrow> bytes option \<Rightarrow> 'c engine \<Rightarrow>
     ((unit, storage_error) result \<times> 'c engine) option" where
  "buffer_block_execution_write L fio k u s =
     (if MAX_BUFFERED_WRITES \<le> length (eng_buffered s) then
        case flush_buffered_state_writes L fio s of
          None \<Rightarrow> None
        | Some (Err e, s') \<Rightarrow> Some (Err e, s')
        | Some (Ok _, s') \<Rightarrow> Some (Ok (), s'\<lparr>eng_buffered := eng_buffered s' @ [(k, u)]\<rparr>)
      else Some (Ok (), s\<lparr>eng_buffered := eng_buffered s @ [(k, u)]\<rparr>))"

definition atomic_state_commit_async ::
  "'c lru \<Rightarrow> flush_io \<Rightarrow> state_updates \<Rightarrow> 'c engine \<Rightarrow>
     ((unit, storage_error) result \<times> 'c engine) option" where
  "atomic_state_commit_async L fio cs s =
     (if MAX_BUFFERED_WRITES \<le> length (eng_buffered s) + length cs then
        case flush_buffered_state_writes L fio s of
          None \<Rightarrow> None
        | Some (Err e, s') \<Rightarrow> Some (Err e, s')
        | Some (Ok _, s') \<Rightarrow> Some (Ok (), s'\<lparr>eng_buffered := eng_buffered s' @ cs\<rparr>)
      else Some (Ok (), s\<lparr>eng_buffered := eng_buffered s @ cs\<rparr>))"

definition flush_to_disk ::
  "'c lru \<Rightarrow> flush_io \<Rightarrow> 'c engine \<Rightarrow> ((unit, storage_error) result \<times> 'c engine) option" where
  "flush_to_disk L fio s = map_option (apfst (map_ok (\<lambda>_. ()))) (flush_buffered_state_writes L fio s)"

subsection \<open>Verkle nodes\<close>

definition store_verkle_node_bytes ::
  "io \<Rightarrow> hash32 \<Rightarrow> bytes \<Rightarrow> 'c engine \<Rightarrow> (unit, storage_error) result \<times> 'c engine" where
  "store_verkle_node_bytes io h b s =
     (if io = IoOk then (Ok (), s\<lparr>eng_verkle := om_insert h b (eng_verkle s)\<rparr>) else (backend_error, s))"

definition load_verkle_node :: "io \<Rightarrow> hash32 \<Rightarrow> 'c engine \<Rightarrow> (bytes option, storage_error) result" where
  "load_verkle_node io h s = (if io = IoOk then Ok (hm_get (eng_verkle s) h) else backend_error)"

definition batch_store_verkle_nodes ::
  "io \<Rightarrow> (hash32 \<times> bytes) list \<Rightarrow> 'c engine \<Rightarrow> (unit, storage_error) result \<times> 'c engine" where
  "batch_store_verkle_nodes io ns s =
     (if io = IoOk then (Ok (), s\<lparr>eng_verkle := fold (\<lambda>(h, b). om_insert h b) ns (eng_verkle s)\<rparr>)
      else (backend_error, s))"

section \<open>Scans\<close>

lemma prefix_interval:
  fixes p :: bytes
  assumes "p \<le> k" "k < k'" "prefix p k'"
  shows "prefix p k"
proof -
  have "k < h" if "prefix_scan_upper_bound p = Some h" for h
    using assms(2,3) prefix_scan_range [of p k'] that by auto
  then show ?thesis
    using assms(1) prefix_scan_range [of p k] by (auto split: option.splits)
qed

lemma takeWhile_prefix_scan:
  fixes p :: bytes
  assumes "om_wf m" "\<And>k v. (k, v) \<in> set m \<Longrightarrow> p \<le> k"
  shows "takeWhile (\<lambda>(k, _). prefix p k) m = filter (\<lambda>(k, _). prefix p k) m"
  using assms
proof (induction m)
  case (Cons e m)
  obtain k v where e: "e = (k, v)" by (cases e)
  have IH: "takeWhile (\<lambda>(k, _). prefix p k) m = filter (\<lambda>(k, _). prefix p k) m"
    using Cons.IH Cons.prems by auto
  show ?case
  proof (cases "prefix p k")
    case True
    then show ?thesis using IH e by simp
  next
    case False
    have "\<not> prefix p (fst x)" if "x \<in> set m" for x
      using prefix_interval [of p k "fst x"] False that Cons.prems e by auto
    then have "filter (\<lambda>(k, _). prefix p k) m = []"
      by (simp add: filter_empty_conv split_beta)
    then show ?thesis
      using False e by simp
  qed
qed simp

lemma range_prefix: "om_range p (prefix_scan_upper_bound p) m = filter (\<lambda>(k, _). prefix p k) m"
  unfolding om_range_def by (rule filter_cong [OF refl]) (auto simp: prefix_scan_range split_beta)

lemma open_range_prefix:
  fixes p :: bytes
  assumes wf: "om_wf m"
  shows "takeWhile (\<lambda>(k, _). prefix p k) (om_range p None m) = filter (\<lambda>(k, _). prefix p k) m"
proof -
  have "prefix p k \<Longrightarrow> p \<le> k" for k
    using prefix_scan_range [of p k] by simp
  then have "filter (\<lambda>(k, _). prefix p k) (om_range p None m) = filter (\<lambda>(k, _). prefix p k) m"
    unfolding om_range_def filter_filter by (auto intro: filter_cong)
  moreover have "\<And>k v. (k, v) \<in> set (om_range p None m) \<Longrightarrow> p \<le> k"
    by (simp add: om_range_entries)
  ultimately show ?thesis
    using takeWhile_prefix_scan [of "om_range p None m" p] wf by simp
qed

lemma state_prefix_scan_Ok:
  assumes "om_wf (eng_state s)"
  shows "state_prefix_scan IoOk p s = Ok (filter (\<lambda>(k, _). prefix p k) (eng_state s))"
proof -
  have "p = [] \<Longrightarrow> filter (\<lambda>(k, _). prefix p k) (eng_state s) = eng_state s"
    by (auto simp: split_beta)
  then show ?thesis
    using range_prefix [of p "eng_state s"] open_range_prefix [OF assms, of p]
    by (auto simp: state_prefix_scan_def split: option.splits)
qed

section \<open>What the engine promises\<close>

text \<open>The cache never disagrees with the table.\<close>

definition eng_inv :: "'c lru \<Rightarrow> 'c engine \<Rightarrow> bool" where
  "eng_inv L s \<longleftrightarrow> om_wf (eng_state s)
     \<and> (\<forall>k v. lru_get L (eng_cache s) k = Some v \<longrightarrow> hm_get (eng_state s) k = Some v)"

datatype store_event =
    EvPut io bytes bytes
  | EvDelete io bytes
  | EvCommit io state_updates
  | EvRollback io state_updates
  | EvCachedRead io bytes
  | EvBuffer flush_io bytes "bytes option"
  | EvAsync flush_io state_updates
  | EvFlushTake
  | EvFlushFinish flush_io

datatype store_out =
    OutUnit "(unit, storage_error) result"
  | OutValue "(bytes option, storage_error) result"
  | OutCount "(nat, storage_error) result"

text \<open>One operation on the engine; \<open>None\<close> when it has to wait for a flush in flight.\<close>

fun eng_exec :: "'c lru \<Rightarrow> store_event \<Rightarrow> 'c engine \<Rightarrow> (store_out \<times> 'c engine) option" where
  "eng_exec L (EvPut io k v) s = Some (apfst OutUnit (state_put_bytes L io k v s))"
| "eng_exec L (EvDelete io k) s = Some (apfst OutUnit (state_delete L io k s))"
| "eng_exec L (EvCommit io cs) s = Some (apfst OutUnit (atomic_state_commit L io cs s))"
| "eng_exec L (EvRollback io undo) s = Some (apfst OutUnit (rollback_state_batch L io undo s))"
| "eng_exec L (EvCachedRead io k) s = Some (apfst OutValue (state_get_cached L io k s))"
| "eng_exec L (EvBuffer fio k u) s = map_option (apfst OutUnit) (buffer_block_execution_write L fio k u s)"
| "eng_exec L (EvAsync fio cs) s = map_option (apfst OutUnit) (atomic_state_commit_async L fio cs s)"
| "eng_exec L EvFlushTake s = map_option (Pair (OutUnit (Ok ()))) (flush_take s)"
| "eng_exec L (EvFlushFinish fio) s = Some (apfst OutCount (flush_finish L fio s))"

fun eng_run :: "'c lru \<Rightarrow> store_event list \<Rightarrow> 'c engine \<Rightarrow> (store_out list \<times> 'c engine) option" where
  "eng_run L [] s = Some ([], s)"
| "eng_run L (e # es) s =
     (case eng_exec L e s of
        None \<Rightarrow> None
      | Some (out, s') \<Rightarrow> map_option (apfst (Cons out)) (eng_run L es s'))"

text \<open>
  The specification: a map and the queue of the accepted updates that are not in it yet. The answer
  of an operation decides its effect: a confirmed write is in the map, a refused one left no trace, a
  confirmed asynchronous write is at the end of the queue, the queue drains from the front.
\<close>

type_synonym spec_store = "(bytes \<Rightarrow> bytes option) \<times> state_updates"

definition spec_drain :: "nat \<Rightarrow> spec_store \<Rightarrow> spec_store" where
  "spec_drain n p = (upd_map (take n (snd p)) (fst p), drop n (snd p))"

definition spec_step :: "store_event \<Rightarrow> store_out \<Rightarrow> spec_store \<Rightarrow> spec_store \<Rightarrow> bool" where
  "spec_step e out p p' =
     (case (e, out) of
        (EvPut _ k v, OutUnit r) \<Rightarrow> p' = (if is_ok r then ((fst p)(k \<mapsto> v), snd p) else p)
      | (EvDelete _ k, OutUnit r) \<Rightarrow> p' = (if is_ok r then ((fst p)(k := None), snd p) else p)
      | (EvCommit _ cs, OutUnit r) \<Rightarrow> p' = (if is_ok r then (upd_map cs (fst p), snd p) else p)
      | (EvRollback _ undo, OutUnit r) \<Rightarrow> p' = (if is_ok r then (upd_map (rev undo) (fst p), snd p) else p)
      | (EvCachedRead _ k, OutValue r) \<Rightarrow> p' = p \<and> (\<forall>v. r = Ok v \<longrightarrow> v = fst p k)
      | (EvBuffer _ k u, OutUnit r) \<Rightarrow>
          (if is_ok r then \<exists>n. p' = apsnd (\<lambda>q. q @ [(k, u)]) (spec_drain n p) else p' = p)
      | (EvAsync _ cs, OutUnit r) \<Rightarrow>
          (if is_ok r then \<exists>n. p' = apsnd (\<lambda>q. q @ cs) (spec_drain n p) else p' = p)
      | (EvFlushTake, OutUnit r) \<Rightarrow> p' = p
      | (EvFlushFinish _, OutCount r) \<Rightarrow>
          (case r of Ok n \<Rightarrow> n \<le> length (snd p) \<and> p' = spec_drain n p | Err _ \<Rightarrow> p' = p)
      | _ \<Rightarrow> False)"

inductive spec_run :: "store_event list \<Rightarrow> store_out list \<Rightarrow> spec_store \<Rightarrow> spec_store \<Rightarrow> bool" where
  spec_run_Nil: "spec_run [] [] p p"
| spec_run_Cons: "spec_step e out p p' \<Longrightarrow> spec_run es outs p' p'' \<Longrightarrow> spec_run (e # es) (out # outs) p p''"

inductive_cases spec_run_ConsE: "spec_run (e # es) outs p p''"
inductive_cases spec_run_NilE: "spec_run [] outs p p''"

definition eng_abs :: "'c engine \<Rightarrow> spec_store" where
  "eng_abs s = (hm_get (eng_state s), (case eng_inflight s of Some p \<Rightarrow> p | None \<Rightarrow> []) @ eng_buffered s)"

lemma lru_okD:
  assumes "lru_ok L"
  shows "lru_get L (lru_touch L k c) k' = lru_get L c k'"
    and "lru_get L (lru_pop L k c) k' = (if k' = k then None else lru_get L c k')"
    and "lru_get L (lru_clear L c) k' = None"
    and "lru_get L (lru_put L k v c) k' = Some w \<Longrightarrow> (if k' = k then w = v else lru_get L c k' = Some w)"
  using assms unfolding lru_ok_def by blast+

lemma invalidate_fields [simp]:
  "eng_state (fold (invalidate_cache_entry L) ks s) = eng_state s"
  "eng_buffered (fold (invalidate_cache_entry L) ks s) = eng_buffered s"
  "eng_inflight (fold (invalidate_cache_entry L) ks s) = eng_inflight s"
  by (induction ks arbitrary: s) (auto simp: invalidate_cache_entry_def)

lemma invalidate_get:
  "lru_ok L \<Longrightarrow> lru_get L (eng_cache (fold (invalidate_cache_entry L) ks s)) k
     = (if k \<in> set ks then None else lru_get L (eng_cache s) k)"
  by (induction ks arbitrary: s) (auto simp: invalidate_cache_entry_def lru_okD(2))

text \<open>Dropping cache entries is harmless, and enough after a write of those keys.\<close>

lemma invalidate_inv:
  assumes "lru_ok L" "om_wf t" "eng_inv L s"
    and "\<And>k. k \<notin> set ks \<Longrightarrow> hm_get t k = hm_get (eng_state s) k"
  shows "eng_inv L (fold (invalidate_cache_entry L) ks (s\<lparr>eng_state := t\<rparr>))"
    and "eng_inv L (fold (invalidate_cache_entry L) ks (s\<lparr>eng_state := t, eng_inflight := p\<rparr>))"
  using assms by (auto simp: eng_inv_def invalidate_get split: if_splits)

lemma invalidate_inv_same:
  "lru_ok L \<Longrightarrow> eng_inv L s \<Longrightarrow> eng_inv L (fold (invalidate_cache_entry L) ks s)"
  by (auto simp: eng_inv_def invalidate_get split: if_splits)

lemma eng_inv_buffers [simp]:
  "eng_inv L (s\<lparr>eng_buffered := b\<rparr>) = eng_inv L s"
  "eng_inv L (s\<lparr>eng_inflight := p\<rparr>) = eng_inv L s"
  by (simp_all add: eng_inv_def)

text \<open>Each operation keeps the invariant and is a step of the specification.\<close>

lemma apply_updates_inv:
  assumes "lru_ok L" "eng_inv L s"
  shows "eng_inv L (fold (invalidate_cache_entry L) (map fst cs) (s\<lparr>eng_state := apply_updates cs (eng_state s)\<rparr>))"
    and "eng_inv L (fold (invalidate_cache_entry L) (map fst cs)
           (s\<lparr>eng_state := apply_updates cs (eng_state s), eng_inflight := p\<rparr>))"
proof -
  have "om_wf (apply_updates cs (eng_state s))"
    using assms(2) by (simp add: eng_inv_def)
  moreover have "hm_get (apply_updates cs (eng_state s)) k = hm_get (eng_state s) k" if "k \<notin> set (map fst cs)" for k
    using that by (simp add: upd_map_other)
  ultimately show "eng_inv L (fold (invalidate_cache_entry L) (map fst cs) (s\<lparr>eng_state := apply_updates cs (eng_state s)\<rparr>))"
    "eng_inv L (fold (invalidate_cache_entry L) (map fst cs)
       (s\<lparr>eng_state := apply_updates cs (eng_state s), eng_inflight := p\<rparr>))"
    using invalidate_inv [OF assms(1) _ assms(2)] by blast+
qed

lemma commit_refines:
  assumes "lru_ok L" "eng_inv L s" "atomic_state_commit_with_rollback L io cs s = (r, s')"
  shows "eng_inv L s'"
    and "eng_abs s' = (if is_ok r then (upd_map cs (fst (eng_abs s)), snd (eng_abs s)) else eng_abs s)"
    and "r = Ok undo \<Longrightarrow> undo = undo_of (hm_get (eng_state s)) cs []"
proof -
  show "eng_inv L s'"
    using assms(3) apply_updates_inv(1) [OF assms(1,2)] invalidate_inv_same [OF assms(1,2)]
    by (auto simp: atomic_state_commit_with_rollback_def split: io.splits)
  show "eng_abs s' = (if is_ok r then (upd_map cs (fst (eng_abs s)), snd (eng_abs s)) else eng_abs s)"
    using assms(3) by (auto simp: atomic_state_commit_with_rollback_def eng_abs_def split: io.splits)
  show "undo = undo_of (hm_get (eng_state s)) cs []" if "r = Ok undo"
    using assms(3) that by (auto simp: atomic_state_commit_with_rollback_def split: io.splits)
qed

lemma flush_refines:
  assumes "lru_ok L" "eng_inv L s" "flush_finish L fio s = (r, s')"
  shows "eng_inv L s'"
    and "case r of Ok n \<Rightarrow> n \<le> length (snd (eng_abs s)) \<and> eng_abs s' = spec_drain n (eng_abs s)
         | Err e \<Rightarrow> eng_abs s' = eng_abs s"
proof -
  show "eng_inv L s'"
    using assms(2,3) apply_updates_inv(2) [OF assms(1,2)]
    by (auto simp: flush_finish_def restore_on_failure_def split: option.splits if_splits flush_io.splits)
  show "case r of Ok n \<Rightarrow> n \<le> length (snd (eng_abs s)) \<and> eng_abs s' = spec_drain n (eng_abs s)
         | Err e \<Rightarrow> eng_abs s' = eng_abs s"
    using assms(3)
    by (auto simp: flush_finish_def restore_on_failure_def eng_abs_def spec_drain_def
        split: option.splits if_splits flush_io.splits)
qed

lemma flush_take_refines:
  "flush_take s = Some s' \<Longrightarrow> eng_abs s' = eng_abs s \<and> eng_inv L s' = eng_inv L s"
  by (auto simp: flush_take_def eng_abs_def eng_inv_def split: option.splits)

lemma flush_all_refines:
  assumes "lru_ok L" "eng_inv L s" "flush_buffered_state_writes L fio s = Some (r, s')"
  shows "eng_inv L s'"
    and "case r of Ok n \<Rightarrow> n \<le> length (snd (eng_abs s)) \<and> eng_abs s' = spec_drain n (eng_abs s)
         | Err e \<Rightarrow> eng_abs s' = eng_abs s"
proof -
  obtain t where t: "flush_take s = Some t" "flush_finish L fio t = (r, s')"
    using assms(3) by (auto simp: flush_buffered_state_writes_def)
  have i: "eng_inv L t" and a: "eng_abs t = eng_abs s"
    using flush_take_refines [OF t(1)] assms(2) by auto
  show "eng_inv L s'"
    by (rule flush_refines(1) [OF assms(1) i t(2)])
  show "case r of Ok n \<Rightarrow> n \<le> length (snd (eng_abs s)) \<and> eng_abs s' = spec_drain n (eng_abs s)
         | Err e \<Rightarrow> eng_abs s' = eng_abs s"
    using flush_refines(2) [OF assms(1) i t(2)] unfolding a .
qed

lemma enqueue_abs: "eng_abs (s\<lparr>eng_buffered := eng_buffered s @ cs\<rparr>) = apsnd (\<lambda>q. q @ cs) (eng_abs s)"
  by (simp add: eng_abs_def)

lemma spec_drain_0 [simp]: "spec_drain 0 p = p"
  by (simp add: spec_drain_def)

lemma async_refines:
  assumes "lru_ok L" "eng_inv L s" "atomic_state_commit_async L fio cs s = Some (r, s')"
  shows "eng_inv L s' \<and> (if is_ok r then \<exists>n. eng_abs s' = apsnd (\<lambda>q. q @ cs) (spec_drain n (eng_abs s)) else eng_abs s' = eng_abs s)"
proof (cases "MAX_BUFFERED_WRITES \<le> length (eng_buffered s) + length cs")
  case True
  then obtain r' t where t: "flush_buffered_state_writes L fio s = Some (r', t)"
    and r: "case r' of Ok _ \<Rightarrow> r = Ok () \<and> s' = t\<lparr>eng_buffered := eng_buffered t @ cs\<rparr> | Err e \<Rightarrow> r = Err e \<and> s' = t"
    using assms(3) by (auto simp: atomic_state_commit_async_def split: option.splits result.splits prod.splits)
  show ?thesis
    using flush_all_refines [OF assms(1,2) t] r by (auto simp: enqueue_abs split: result.splits)
next
  case False
  then have "r = Ok ()" "s' = s\<lparr>eng_buffered := eng_buffered s @ cs\<rparr>"
    using assms(3) by (auto simp: atomic_state_commit_async_def)
  then show ?thesis
    using assms(2) by (auto simp: enqueue_abs intro: exI [of _ 0])
qed

lemma buffer_refines:
  assumes "lru_ok L" "eng_inv L s" "buffer_block_execution_write L fio k u s = Some (r, s')"
  shows "eng_inv L s' \<and> (if is_ok r then \<exists>n. eng_abs s' = apsnd (\<lambda>q. q @ [(k, u)]) (spec_drain n (eng_abs s)) else eng_abs s' = eng_abs s)"
proof (cases "MAX_BUFFERED_WRITES \<le> length (eng_buffered s)")
  case True
  then obtain r' t where t: "flush_buffered_state_writes L fio s = Some (r', t)"
    and r: "case r' of Ok _ \<Rightarrow> r = Ok () \<and> s' = t\<lparr>eng_buffered := eng_buffered t @ [(k, u)]\<rparr> | Err e \<Rightarrow> r = Err e \<and> s' = t"
    using assms(3) by (auto simp: buffer_block_execution_write_def split: option.splits result.splits prod.splits)
  show ?thesis
    using flush_all_refines [OF assms(1,2) t] r by (auto simp: enqueue_abs split: result.splits)
next
  case False
  then have "r = Ok ()" "s' = s\<lparr>eng_buffered := eng_buffered s @ [(k, u)]\<rparr>"
    using assms(3) by (auto simp: buffer_block_execution_write_def)
  then show ?thesis
    using assms(2) by (auto simp: enqueue_abs intro: exI [of _ 0])
qed

lemma cached_read_value:
  assumes "eng_inv L s" "fst (state_get_cached L io k s) = Ok v"
  shows "v = hm_get (eng_state s) k"
proof (cases "lru_get L (eng_cache s) k")
  case None
  then show ?thesis
    using assms(2) by (cases "io = IoOk") (simp_all add: state_get_cached_def cached_lookup_def state_get_bytes_def)
next
  case (Some a)
  then have "fst (state_get_cached L io k s) = Ok (Some a)"
    by (simp add: state_get_cached_def cached_lookup_def)
  then show ?thesis
    using assms Some by (simp add: eng_inv_def)
qed

lemma cached_read_refines:
  assumes "lru_ok L" "eng_inv L s" "state_get_cached L io k s = (r, s')"
  shows "eng_inv L s'" "eng_abs s' = eng_abs s"
proof -
  show "eng_abs s' = eng_abs s"
    using assms(3) by (auto simp: state_get_cached_def cached_lookup_def cached_fill_def eng_abs_def
        split: option.splits result.splits)
  have touch: "eng_inv L (s\<lparr>eng_cache := lru_touch L k (eng_cache s)\<rparr>)"
    using assms(2) by (simp add: eng_inv_def lru_okD(1) [OF assms(1)])
  have put: "eng_inv L (s\<lparr>eng_cache := lru_put L k w (eng_cache s)\<rparr>)" if "hm_get (eng_state s) k = Some w" for w
  proof -
    have "hm_get (eng_state s) k' = Some v" if "lru_get L (lru_put L k w (eng_cache s)) k' = Some v" for k' v
      using lru_okD(4) [OF assms(1) that] assms(2) \<open>hm_get (eng_state s) k = Some w\<close>
      by (cases "k' = k") (simp_all add: eng_inv_def)
    then show ?thesis
      using assms(2) by (simp add: eng_inv_def)
  qed
  show "eng_inv L s'"
    using assms(2,3) touch put
    by (auto simp: state_get_cached_def cached_lookup_def cached_fill_def state_get_bytes_def
        split: option.splits if_splits)
qed

lemma single_write_refines:
  assumes "lru_ok L" "eng_inv L s" "om_wf t" "\<And>k'. k' \<noteq> k \<Longrightarrow> hm_get t k' = hm_get (eng_state s) k'"
  shows "eng_inv L (invalidate_cache_entry L k (s\<lparr>eng_state := t\<rparr>))"
  using invalidate_inv(1) [of L t s "[k]"] assms by simp

lemma eng_exec_refines:
  assumes "lru_ok L" "eng_inv L s" "eng_exec L e s = Some (out, s')"
  shows "eng_inv L s'" "spec_step e out (eng_abs s) (eng_abs s')"
proof -
  have wf: "om_wf (eng_state s)"
    using assms(2) by (simp add: eng_inv_def)
  have "eng_inv L s' \<and> spec_step e out (eng_abs s) (eng_abs s')"
  proof (cases e)
    case (EvPut io k v)
    have "eng_inv L (invalidate_cache_entry L k (s\<lparr>eng_state := om_insert k v (eng_state s)\<rparr>))"
      using wf by (intro single_write_refines assms) auto
    then show ?thesis
      using assms(2,3) EvPut
      by (cases "io = IoOk") (auto simp: state_put_bytes_def spec_step_def eng_abs_def invalidate_cache_entry_def)
  next
    case (EvDelete io k)
    have "eng_inv L (invalidate_cache_entry L k (s\<lparr>eng_state := hm_remove k (eng_state s)\<rparr>))"
      using wf by (intro single_write_refines assms) auto
    then show ?thesis
      using assms(2,3) EvDelete
      by (cases "io = IoOk") (auto simp: state_delete_def spec_step_def eng_abs_def invalidate_cache_entry_def)
  next
    case (EvCommit io cs)
    then obtain r where "atomic_state_commit_with_rollback L io cs s = (r, s')" "out = OutUnit (map_ok (\<lambda>_. ()) r)"
      using assms(3) by (auto simp: atomic_state_commit_def apfst_def map_prod_def split: prod.splits)
    then show ?thesis
      using commit_refines [OF assms(1,2)] EvCommit by (cases r) (auto simp: spec_step_def map_ok_def)
  next
    case (EvRollback io undo)
    obtain r t where rt: "atomic_state_commit_with_rollback L io (rev undo) s = (r, t)" by fastforce
    have "eng_inv L (t\<lparr>eng_cache := lru_clear L (eng_cache t)\<rparr>)"
      using commit_refines(1) [OF assms(1,2) rt] by (simp add: eng_inv_def lru_okD(3) [OF assms(1)])
    moreover have "eng_abs (t\<lparr>eng_cache := c\<rparr>) = eng_abs t" for c
      by (simp add: eng_abs_def)
    ultimately show ?thesis
      using commit_refines [OF assms(1,2) rt] assms(3) EvRollback rt
      by (cases r) (auto simp: rollback_state_batch_def atomic_state_commit_def spec_step_def map_ok_def)
  next
    case (EvCachedRead io k)
    then obtain r where "state_get_cached L io k s = (r, s')" "out = OutValue r"
      using assms(3) by (auto simp: apfst_def map_prod_def split: prod.splits)
    then show ?thesis
      using cached_read_refines [OF assms(1,2)] cached_read_value [OF assms(2), of io k] EvCachedRead
      by (simp add: spec_step_def) (simp add: eng_abs_def)
  next
    case (EvBuffer fio k u)
    then obtain r where "buffer_block_execution_write L fio k u s = Some (r, s')" "out = OutUnit r"
      using assms(3) by (auto simp: apfst_def map_prod_def split: prod.splits)
    then show ?thesis
      using buffer_refines [OF assms(1,2)] EvBuffer by (simp add: spec_step_def)
  next
    case (EvAsync fio cs)
    then obtain r where "atomic_state_commit_async L fio cs s = Some (r, s')" "out = OutUnit r"
      using assms(3) by (auto simp: apfst_def map_prod_def split: prod.splits)
    then show ?thesis
      using async_refines [OF assms(1,2)] EvAsync by (simp add: spec_step_def)
  next
    case EvFlushTake
    then have "flush_take s = Some s'" "out = OutUnit (Ok ())"
      using assms(3) by auto
    then show ?thesis
      using flush_take_refines [of s s' L] assms(2) EvFlushTake by (simp add: spec_step_def)
  next
    case (EvFlushFinish fio)
    then obtain r where "flush_finish L fio s = (r, s')" "out = OutCount r"
      using assms(3) by (auto simp: apfst_def map_prod_def split: prod.splits)
    then show ?thesis
      using flush_refines [OF assms(1,2)] EvFlushFinish by (simp add: spec_step_def)
  qed
  then show "eng_inv L s'" "spec_step e out (eng_abs s) (eng_abs s')" by blast+
qed

lemma eng_run_refines:
  "lru_ok L \<Longrightarrow> eng_inv L s \<Longrightarrow> eng_run L es s = Some (outs, s') \<Longrightarrow>
     eng_inv L s' \<and> spec_run es outs (eng_abs s) (eng_abs s')"
proof (induction es arbitrary: s outs)
  case Nil
  then show ?case by (auto intro: spec_run_Nil)
next
  case (Cons e es)
  then obtain out t outs' where t: "eng_exec L e s = Some (out, t)" "eng_run L es t = Some (outs', s')" "outs = out # outs'"
    by (auto split: option.splits prod.splits)
  have "spec_step e out (eng_abs s) (eng_abs t)" "eng_inv L s' \<and> spec_run es outs' (eng_abs t) (eng_abs s')"
    using eng_exec_refines [OF Cons.prems(1,2) t(1)] Cons.IH [OF Cons.prems(1) _ t(2)] by blast+
  then show ?case
    using t(3) by (auto intro: spec_run_Cons)
qed

section \<open>Properties of the engine\<close>


text \<open>A cache of two entries that drops the least recently used one.\<close>

definition list_lru :: "(bytes \<times> bytes) list lru" where
  "list_lru =
     \<lparr>lru_get = map_of,
      lru_touch = (\<lambda>k c. case map_of c k of Some v \<Rightarrow> (k, v) # hm_remove k c | None \<Rightarrow> c),
      lru_put = (\<lambda>k v c. (k, v) # take 1 (hm_remove k c)),
      lru_pop = hm_remove,
      lru_clear = (\<lambda>_. [])\<rparr>"

definition engine_new :: "'c \<Rightarrow> 'c engine" where
  "engine_new c = \<lparr>eng_state = [], eng_verkle = [], eng_cache = c, eng_buffered = [], eng_inflight = None\<rparr>"

lemma list_lru_ok: "lru_ok list_lru"
proof -
  have take: "map_of c k' = Some w" if "k' \<noteq> k" "map_of (take (Suc 0) (hm_remove k c)) k' = Some w"
    for c :: "(bytes \<times> bytes) list" and k k' w
  proof -
    have "map_of (hm_remove k c) k' = Some w"
      using that(2) by (cases "hm_remove k c") (auto split: if_splits)
    then show ?thesis using that(1) by simp
  qed
  show ?thesis
    by (auto simp: lru_ok_def list_lru_def fun_eq_iff split: option.splits if_splits dest!: take)
qed

lemma engine_new_inv: "eng_inv list_lru (engine_new [])"
  by (simp add: eng_inv_def engine_new_def list_lru_def)


subsection \<open>Asynchronous writes\<close>

definition async_event :: "store_event \<Rightarrow> bool" where
  "async_event e = (case e of EvBuffer _ _ _ \<Rightarrow> True | EvAsync _ _ \<Rightarrow> True | EvFlushTake \<Rightarrow> True
     | EvFlushFinish _ \<Rightarrow> True | EvCachedRead _ _ \<Rightarrow> True | _ \<Rightarrow> False)"

text \<open>The asynchronous updates that were confirmed, in order.\<close>

definition accepted_of :: "store_event \<Rightarrow> store_out \<Rightarrow> state_updates" where
  "accepted_of e out =
     (case (e, out) of
        (EvBuffer _ k u, OutUnit (Ok _)) \<Rightarrow> [(k, u)]
      | (EvAsync _ cs, OutUnit (Ok _)) \<Rightarrow> cs
      | _ \<Rightarrow> [])"

definition accepted :: "store_event list \<Rightarrow> store_out list \<Rightarrow> state_updates" where
  "accepted es outs = concat (map2 accepted_of es outs)"

lemma spec_step_async:
  assumes "spec_step e out p p'" "async_event e"
  shows "p' = p \<and> accepted_of e out = [] \<or> (\<exists>n. p' = apsnd (\<lambda>q. q @ accepted_of e out) (spec_drain n p))"
proof -
  have "apsnd (\<lambda>q. q @ []) x = x" for x :: spec_store by (cases x) simp
  then show ?thesis
    using assms
    by (cases e; cases out) (auto simp: spec_step_def async_event_def accepted_of_def split: result.splits if_splits)
qed

lemma spec_step_fifo:
  assumes "spec_step e out p p'" "async_event e"
  shows "\<exists>done. fst p' = upd_map done (fst p) \<and> done @ snd p' = snd p @ accepted_of e out"
  using spec_step_async [OF assms]
proof (elim disjE exE conjE)
  assume "p' = p" "accepted_of e out = []"
  then show ?thesis by (intro exI [of _ "[]"]) simp
next
  fix n assume "p' = apsnd (\<lambda>q. q @ accepted_of e out) (spec_drain n p)"
  then show ?thesis by (intro exI [of _ "take n (snd p)"]) (simp add: spec_drain_def)
qed

lemma spec_run_fifo:
  "spec_run es outs p p' \<Longrightarrow> \<forall>e \<in> set es. async_event e \<Longrightarrow>
     \<exists>done. fst p' = upd_map done (fst p) \<and> done @ snd p' = snd p @ accepted es outs"
proof (induction rule: spec_run.induct)
  case (spec_run_Nil p)
  then show ?case by (intro exI [of _ "[]"]) (simp add: accepted_def)
next
  case (spec_run_Cons e out p p' es outs p'')
  obtain d where d: "fst p' = upd_map d (fst p)" "d @ snd p' = snd p @ accepted_of e out"
    using spec_step_fifo [OF spec_run_Cons(1)] spec_run_Cons.prems by auto
  obtain d' where d': "fst p'' = upd_map d' (fst p')" "d' @ snd p'' = snd p' @ accepted es outs"
    using spec_run_Cons.IH spec_run_Cons.prems by auto
  have "(d @ d') @ snd p'' = d @ snd p' @ accepted es outs"
    by (simp only: append.assoc d'(2))
  also have "\<dots> = snd p @ accepted_of e out @ accepted es outs"
    using arg_cong [OF d(2), of "\<lambda>x. x @ accepted es outs"] by (simp only: append.assoc)
  also have "\<dots> = snd p @ accepted (e # es) (out # outs)"
    by (simp add: accepted_def)
  finally have "(d @ d') @ snd p'' = snd p @ accepted (e # es) (out # outs)" .
  then show ?case
    using d(1) d'(1) by (intro exI [of _ "d @ d'"]) simp
qed

text \<open>
  C16: no asynchronous update is lost, duplicated or reordered. In every interleaving of producers,
  readers and flushes, failing or not, the table is the initial one with a first part of the accepted
  updates applied in the order of acceptance, and the rest is still queued.
\<close>

theorem async_updates_fifo:
  assumes "lru_ok L" "eng_inv L s" "eng_run L es s = Some (outs, s')" "\<forall>e \<in> set es. async_event e"
  shows "\<exists>done. hm_get (eng_state s') = upd_map done (hm_get (eng_state s))
     \<and> done @ snd (eng_abs s') = snd (eng_abs s) @ accepted es outs"
  using spec_run_fifo [of es outs "eng_abs s" "eng_abs s'"] eng_run_refines [OF assms(1-3)] assms(4)
  by (simp add: eng_abs_def)

theorem async_updates_fifo_witness:
  "\<exists>outs s'. eng_run list_lru [EvAsync FlushOk [([1], Some [5])], EvFlushTake, EvBuffer FlushOk [1] None, EvFlushFinish FlushFails]
       (engine_new []) = Some (outs, s') \<and> snd (eng_abs s') = [([1], Some [5]), ([1], None)]
     \<and> (\<exists>done. hm_get (eng_state s') = upd_map done (hm_get [])
          \<and> done @ snd (eng_abs s')
            = accepted [EvAsync FlushOk [([1], Some [5])], EvFlushTake, EvBuffer FlushOk [1] None, EvFlushFinish FlushFails] outs)"
proof -
  let ?es = "[EvAsync FlushOk [([1], Some [5])], EvFlushTake, EvBuffer FlushOk [1] None, EvFlushFinish FlushFails]"
  have run: "\<exists>outs s'. eng_run list_lru ?es (engine_new []) = Some (outs, s') \<and> snd (eng_abs s') = [([1], Some [5]), ([1], None)]"
    by (simp add: engine_new_def atomic_state_commit_async_def MAX_BUFFERED_WRITES_def flush_take_def
        buffer_block_execution_write_def flush_finish_def restore_on_failure_def eng_abs_def)
  then obtain outs s' where r: "eng_run list_lru ?es (engine_new []) = Some (outs, s')"
    "snd (eng_abs s') = [([1], Some [5]), ([1], None)]" by blast
  show ?thesis
    using async_updates_fifo [OF list_lru_ok engine_new_inv r(1)] r
    by (intro exI [of _ outs] exI [of _ s']) (simp add: async_event_def engine_new_def eng_abs_def)
qed

text \<open>
  A flush can undo a later synchronous write. A write that is confirmed after an asynchronous
  write of the same key was accepted is overwritten by the older value when the buffer is flushed.
\<close>

theorem flush_overwrites_newer_put:
  "\<exists>s'. eng_run L [EvAsync fio [(k, Some old)], EvPut IoOk k new, EvFlushTake, EvFlushFinish FlushOk] (engine_new c)
          = Some ([OutUnit (Ok ()), OutUnit (Ok ()), OutUnit (Ok ()), OutCount (Ok 1)], s')
     \<and> hm_get (eng_state s') k = Some old"
  by (simp add: engine_new_def state_put_bytes_def invalidate_cache_entry_def atomic_state_commit_async_def
      MAX_BUFFERED_WRITES_def flush_take_def flush_finish_def)

text \<open>
  A cached read is not atomic. When a write of the key is confirmed between the read of the table
  and the insertion into the cache, the cache keeps the old value, and later cached reads return it.
\<close>

theorem cached_read_race:
  "let s1 = snd (state_put_bytes list_lru IoOk k old (engine_new []));
       s2 = snd (cached_lookup list_lru k s1);
       val = the (ok_of (state_get_bytes IoOk k s2));
       s3 = snd (state_put_bytes list_lru IoOk k new s2);
       s4 = cached_fill list_lru k val s3
   in fst (state_get_cached list_lru IoOk k s4) = Ok (Some old) \<and> hm_get (eng_state s4) k = Some new"
  by (simp add: engine_new_def state_put_bytes_def invalidate_cache_entry_def cached_lookup_def state_get_bytes_def
      cached_fill_def state_get_cached_def list_lru_def Let_def)

section \<open>The in-memory backend\<close>

record mem_backend =
  mb_state :: state_table
  mb_verkle :: "(hash32, bytes) omap"

definition mem_state_get :: "bytes \<Rightarrow> mem_backend \<Rightarrow> bytes option" where
  "mem_state_get k b = hm_get (mb_state b) k"

definition mem_state_put :: "bytes \<Rightarrow> bytes \<Rightarrow> mem_backend \<Rightarrow> mem_backend" where
  "mem_state_put k v b = b\<lparr>mb_state := om_insert k v (mb_state b)\<rparr>"

definition mem_state_delete :: "bytes \<Rightarrow> mem_backend \<Rightarrow> mem_backend" where
  "mem_state_delete k b = b\<lparr>mb_state := hm_remove k (mb_state b)\<rparr>"

definition mem_atomic_state_commit :: "state_updates \<Rightarrow> mem_backend \<Rightarrow> mem_backend" where
  "mem_atomic_state_commit cs b = b\<lparr>mb_state := apply_updates cs (mb_state b)\<rparr>"

definition mem_atomic_state_commit_with_rollback ::
  "state_updates \<Rightarrow> mem_backend \<Rightarrow> state_updates \<times> mem_backend" where
  "mem_atomic_state_commit_with_rollback cs b =
     (undo_of (hm_get (mb_state b)) cs [], b\<lparr>mb_state := apply_updates cs (mb_state b)\<rparr>)"

definition mem_atomic_state_commit_async :: "state_updates \<Rightarrow> mem_backend \<Rightarrow> mem_backend" where
  "mem_atomic_state_commit_async cs b = mem_atomic_state_commit cs b"

text \<open>The default method of the trait.\<close>

definition mem_rollback_state_batch :: "state_updates \<Rightarrow> mem_backend \<Rightarrow> mem_backend" where
  "mem_rollback_state_batch undo b = mem_atomic_state_commit (rev undo) b"

definition mem_state_snapshot_reads :: "bytes list \<Rightarrow> mem_backend \<Rightarrow> bytes option list" where
  "mem_state_snapshot_reads ks b = map (hm_get (mb_state b)) ks"

definition mem_state_prefix_scan :: "bytes \<Rightarrow> mem_backend \<Rightarrow> (bytes \<times> bytes) list" where
  "mem_state_prefix_scan p b =
     (if p = [] then mb_state b else takeWhile (\<lambda>(k, _). prefix p k) (om_range p None (mb_state b)))"

text \<open>A \<open>BTreeMap\<close> range whose start is above its end panics.\<close>

definition mem_state_range_scan :: "bytes \<Rightarrow> bytes option \<Rightarrow> nat \<Rightarrow> mem_backend \<Rightarrow> (bytes \<times> bytes) list option" where
  "mem_state_range_scan lo hi limit b =
     (case hi of
        Some h \<Rightarrow> if h < lo then None else Some (take limit (om_range lo hi (mb_state b)))
      | None \<Rightarrow> Some (take limit (om_range lo hi (mb_state b))))"

definition mem_load_verkle_node :: "hash32 \<Rightarrow> mem_backend \<Rightarrow> bytes option" where
  "mem_load_verkle_node h b = hm_get (mb_verkle b) h"

definition mem_store_verkle_node :: "hash32 \<Rightarrow> bytes \<Rightarrow> mem_backend \<Rightarrow> mem_backend" where
  "mem_store_verkle_node h n b = b\<lparr>mb_verkle := om_insert h n (mb_verkle b)\<rparr>"

definition mem_batch_store_verkle_nodes :: "(hash32 \<times> bytes) list \<Rightarrow> mem_backend \<Rightarrow> mem_backend" where
  "mem_batch_store_verkle_nodes ns b = b\<lparr>mb_verkle := fold (\<lambda>(h, n). om_insert h n) ns (mb_verkle b)\<rparr>"

section \<open>The contract of the backend trait\<close>

text \<open>
  What the clients of \<open>DatabaseBackend\<close> rely on: a batch is applied in order, the undo batch holds the
  previous value of every touched key, a roll-back applies its reverse, and a prefix scan returns the
  entries with the prefix in key order.
\<close>

locale state_backend =
  fixes inv :: "'s \<Rightarrow> bool"
    and get :: "'s \<Rightarrow> bytes \<Rightarrow> bytes option"
    and commit :: "state_updates \<Rightarrow> 's \<Rightarrow> 's"
    and undo :: "state_updates \<Rightarrow> 's \<Rightarrow> state_updates"
    and rollback :: "state_updates \<Rightarrow> 's \<Rightarrow> 's"
    and scan :: "bytes \<Rightarrow> 's \<Rightarrow> (bytes \<times> bytes) list"
  assumes commit_inv: "inv s \<Longrightarrow> inv (commit cs s)"
    and get_commit: "inv s \<Longrightarrow> get (commit cs s) = upd_map cs (get s)"
    and undo_exact: "inv s \<Longrightarrow> undo cs s = undo_of (get s) cs []"
    and rollback_inv: "inv s \<Longrightarrow> inv (rollback cs s)"
    and get_rollback: "inv s \<Longrightarrow> get (rollback cs s) = upd_map (rev cs) (get s)"
    and scan_sorted: "inv s \<Longrightarrow> om_wf (scan p s)"
    and scan_exact: "inv s \<Longrightarrow> map_of (scan p s) = get s |` {k. prefix p k}"
begin

lemma rollback_restores: "inv s \<Longrightarrow> get (rollback (undo cs s) (commit cs s)) = get s"
  by (simp add: commit_inv get_commit get_rollback undo_exact undo_restores)

lemma scan_determined: "inv s \<Longrightarrow> inv t \<Longrightarrow> get s = get t \<Longrightarrow> scan p s = scan p t"
  by (rule om_ext) (simp_all add: scan_sorted scan_exact)

end

text \<open>Two backends that hold the same values answer alike.\<close>

locale backend_pair =
  a: state_backend inv1 get1 commit1 undo1 rollback1 scan1 +
  b: state_backend inv2 get2 commit2 undo2 rollback2 scan2
  for inv1 :: "'s \<Rightarrow> bool" and get1 and commit1 and undo1 and rollback1 and scan1
    and inv2 :: "'t \<Rightarrow> bool" and get2 and commit2 and undo2 and rollback2 and scan2
begin

lemma same_scan: "inv1 s \<Longrightarrow> inv2 t \<Longrightarrow> get1 s = get2 t \<Longrightarrow> scan1 p s = scan2 p t"
  by (rule om_ext) (simp_all add: a.scan_sorted b.scan_sorted a.scan_exact b.scan_exact)

lemma same_undo: "inv1 s \<Longrightarrow> inv2 t \<Longrightarrow> get1 s = get2 t \<Longrightarrow> undo1 cs s = undo2 cs t"
  by (simp add: a.undo_exact b.undo_exact)

lemma same_run:
  "inv1 s \<Longrightarrow> inv2 t \<Longrightarrow> get1 s = get2 t \<Longrightarrow>
     inv1 (fold (\<lambda>(rb, cs). if rb then rollback1 cs else commit1 cs) ops s)
   \<and> inv2 (fold (\<lambda>(rb, cs). if rb then rollback2 cs else commit2 cs) ops t)
   \<and> get1 (fold (\<lambda>(rb, cs). if rb then rollback1 cs else commit1 cs) ops s)
     = get2 (fold (\<lambda>(rb, cs). if rb then rollback2 cs else commit2 cs) ops t)"
proof (induction ops arbitrary: s t)
  case (Cons op ops)
  show ?case
    using Cons.prems Cons.IH [of "commit1 (snd op) s" "commit2 (snd op) t"]
      Cons.IH [of "rollback1 (snd op) s" "rollback2 (snd op) t"]
    by (cases op) (auto simp: a.commit_inv b.commit_inv a.rollback_inv b.rollback_inv
        a.get_commit b.get_commit a.get_rollback b.get_rollback)
qed simp

end

lemma map_of_prefix_filter:
  "map_of (filter (\<lambda>(k, _). prefix p k) m) = map_of m |` {k. prefix p k}"
  by (induction m) (auto simp: fun_eq_iff restrict_map_def)

interpretation mem: state_backend "\<lambda>b. om_wf (mb_state b)" "\<lambda>b. hm_get (mb_state b)" mem_atomic_state_commit
  "\<lambda>cs b. fst (mem_atomic_state_commit_with_rollback cs b)" mem_rollback_state_batch mem_state_prefix_scan
proof
  fix p and b :: mem_backend
  assume wf: "om_wf (mb_state b)"
  have "p = [] \<Longrightarrow> filter (\<lambda>(k, _). prefix p k) (mb_state b) = mb_state b"
    by (auto simp: split_beta)
  then have "mem_state_prefix_scan p b = filter (\<lambda>(k, _). prefix p k) (mb_state b)"
    by (auto simp: mem_state_prefix_scan_def open_range_prefix [OF wf])
  then show "om_wf (mem_state_prefix_scan p b)" "map_of (mem_state_prefix_scan p b) = hm_get (mb_state b) |` {k. prefix p k}"
    using wf by (simp_all add: map_of_prefix_filter)
qed (simp_all add: mem_atomic_state_commit_def mem_atomic_state_commit_with_rollback_def mem_rollback_state_batch_def)

lemma engine_commit_state:
  "eng_state (snd (atomic_state_commit_with_rollback L IoOk cs s)) = apply_updates cs (eng_state s)"
  by (simp add: atomic_state_commit_with_rollback_def)

lemma engine_rollback_state:
  "eng_state (snd (rollback_state_batch L IoOk cs s)) = apply_updates (rev cs) (eng_state s)"
  by (simp add: rollback_state_batch_def atomic_state_commit_def atomic_state_commit_with_rollback_def map_ok_def)

lemma engine_rollback_inv:
  assumes "lru_ok L" "eng_inv L s"
  shows "eng_inv L (snd (rollback_state_batch L IoOk cs s))"
proof -
  obtain out t where "eng_exec L (EvRollback IoOk cs) s = Some (out, t)" "t = snd (rollback_state_batch L IoOk cs s)"
    by (cases "rollback_state_batch L IoOk cs s") auto
  then show ?thesis
    using eng_exec_refines(1) [OF assms] by blast
qed

interpretation eng: state_backend "\<lambda>s. lru_ok L \<and> eng_inv L s" "\<lambda>s. hm_get (eng_state s)"
  "\<lambda>cs s. snd (atomic_state_commit_with_rollback L IoOk cs s)"
  "\<lambda>cs s. the (ok_of (fst (atomic_state_commit_with_rollback L IoOk cs s)))"
  "\<lambda>cs s. snd (rollback_state_batch L IoOk cs s)"
  "\<lambda>p s. the (ok_of (state_prefix_scan IoOk p s))"
  for L :: "'c lru"
proof
  fix s :: "'c engine" and cs and p
  assume inv: "lru_ok L \<and> eng_inv L s"
  then have wf: "om_wf (eng_state s)" by (simp add: eng_inv_def)
  show "lru_ok L \<and> eng_inv L (snd (atomic_state_commit_with_rollback L IoOk cs s))"
    using inv commit_refines(1) [of L s IoOk cs] by (metis prod.collapse)
  show "lru_ok L \<and> eng_inv L (snd (rollback_state_batch L IoOk cs s))"
    using inv engine_rollback_inv by blast
  show "om_wf (the (ok_of (state_prefix_scan IoOk p s)))"
    "map_of (the (ok_of (state_prefix_scan IoOk p s))) = hm_get (eng_state s) |` {k. prefix p k}"
    using wf by (simp_all add: state_prefix_scan_Ok map_of_prefix_filter)
qed (simp_all add: engine_commit_state engine_rollback_state, simp add: atomic_state_commit_with_rollback_def)

interpretation both: backend_pair "\<lambda>s. lru_ok L \<and> eng_inv L s" "\<lambda>s. hm_get (eng_state s)"
  "\<lambda>cs s. snd (atomic_state_commit_with_rollback L IoOk cs s)"
  "\<lambda>cs s. the (ok_of (fst (atomic_state_commit_with_rollback L IoOk cs s)))"
  "\<lambda>cs s. snd (rollback_state_batch L IoOk cs s)"
  "\<lambda>p s. the (ok_of (state_prefix_scan IoOk p s))"
  "\<lambda>b. om_wf (mb_state b)" "\<lambda>b. hm_get (mb_state b)" mem_atomic_state_commit
  "\<lambda>cs b. fst (mem_atomic_state_commit_with_rollback cs b)" mem_rollback_state_batch mem_state_prefix_scan
  for L :: "'c lru" ..

text \<open>
  C21: committing a batch and rolling back with the returned undo batch restores the whole table, even
  when the batch writes a key several times, and cached reads see the restored values.
\<close>

theorem commit_rollback_roundtrip:
  assumes "lru_ok L" "eng_inv L s" "atomic_state_commit_with_rollback L IoOk cs s = (Ok undo, s')"
  shows "\<exists>s''. rollback_state_batch L IoOk undo s' = (Ok (), s'') \<and> eng_state s'' = eng_state s
     \<and> (\<forall>k. fst (state_get_cached L IoOk k s'') = Ok (hm_get (eng_state s) k))"
proof -
  have wf: "om_wf (eng_state s)"
    using assms(2) by (simp add: eng_inv_def)
  have s': "s' = snd (atomic_state_commit_with_rollback L IoOk cs s)"
    "undo = the (ok_of (fst (atomic_state_commit_with_rollback L IoOk cs s)))"
    using assms(3) by simp_all
  define s'' where "s'' = snd (rollback_state_batch L IoOk undo s')"
  have ok: "rollback_state_batch L IoOk undo s' = (Ok (), s'')"
    by (simp add: s''_def rollback_state_batch_def atomic_state_commit_def atomic_state_commit_with_rollback_def map_ok_def)
  have inv: "eng_inv L s''"
    using engine_rollback_inv [OF assms(1) commit_refines(1) [OF assms]] by (simp add: s''_def)
  have "hm_get (eng_state s'') = hm_get (eng_state s)"
    using eng.rollback_restores [of L s cs] assms(1,2) by (simp add: s''_def s')
  moreover have "om_wf (eng_state s'')"
    using inv by (simp add: eng_inv_def)
  ultimately have st: "eng_state s'' = eng_state s"
    using wf om_ext by blast
  have "fst (state_get_cached L IoOk k s'') = Ok (hm_get (eng_state s) k)" for k
    using inv st
    by (cases "lru_get L (eng_cache s'') k")
       (auto simp: state_get_cached_def cached_lookup_def state_get_bytes_def eng_inv_def)
  then show ?thesis
    using ok st by blast
qed

theorem commit_rollback_roundtrip_witness:
  "let s = (engine_new [])\<lparr>eng_state := [([1], [7])]\<rparr>;
       cs = [([1], None), ([2], Some [1]), ([1], Some [3])];
       (r, s') = atomic_state_commit_with_rollback list_lru IoOk cs s
   in r = Ok [([1], Some [7]), ([2], None)] \<and> eng_state s' = [([1], [3]), ([2], [1])]
    \<and> (\<exists>s''. rollback_state_batch list_lru IoOk [([1], Some [7]), ([2], None)] s' = (Ok (), s'') \<and> eng_state s'' = [([1], [7])])"
proof -
  let ?s = "(engine_new [])\<lparr>eng_state := [([1], [7])]\<rparr>"
  let ?cs = "[([1], None), ([2], Some [1]), ([1], Some [3])]"
  have inv: "eng_inv list_lru ?s"
    by (simp add: eng_inv_def engine_new_def list_lru_def)
  have run: "atomic_state_commit_with_rollback list_lru IoOk ?cs ?s
      = (Ok [([1], Some [7]), ([2], None)], (engine_new [])\<lparr>eng_state := [([1], [3]), ([2], [1])]\<rparr>)"
    by (simp add: atomic_state_commit_with_rollback_def engine_new_def invalidate_cache_entry_def list_lru_def)
  show ?thesis
    using commit_rollback_roundtrip [OF list_lru_ok inv run] by (auto simp: run)
qed

subsection \<open>The two backends\<close>

datatype trait_op = TPut bytes bytes | TDelete bytes | TCommit state_updates | TRollback state_updates

fun eng_trait_op :: "'c lru \<Rightarrow> trait_op \<Rightarrow> 'c engine \<Rightarrow> 'c engine" where
  "eng_trait_op L (TPut k v) s = snd (state_put_bytes L IoOk k v s)"
| "eng_trait_op L (TDelete k) s = snd (state_delete L IoOk k s)"
| "eng_trait_op L (TCommit cs) s = snd (atomic_state_commit L IoOk cs s)"
| "eng_trait_op L (TRollback u) s = snd (rollback_state_batch L IoOk u s)"

fun mem_trait_op :: "trait_op \<Rightarrow> mem_backend \<Rightarrow> mem_backend" where
  "mem_trait_op (TPut k v) b = mem_state_put k v b"
| "mem_trait_op (TDelete k) b = mem_state_delete k b"
| "mem_trait_op (TCommit cs) b = mem_atomic_state_commit cs b"
| "mem_trait_op (TRollback u) b = mem_rollback_state_batch u b"

fun op_batch :: "trait_op \<Rightarrow> bool \<times> state_updates" where
  "op_batch (TPut k v) = (False, [(k, Some v)])"
| "op_batch (TDelete k) = (False, [(k, None)])"
| "op_batch (TCommit cs) = (False, cs)"
| "op_batch (TRollback u) = (True, u)"

lemma eng_trait_op_batch:
  "eng_trait_op L op = (\<lambda>(rb, cs). if rb then (\<lambda>s. snd (rollback_state_batch L IoOk cs s))
     else (\<lambda>s. snd (atomic_state_commit_with_rollback L IoOk cs s))) (op_batch op)"
  by (cases op) (auto simp: state_put_bytes_def state_delete_def atomic_state_commit_def
      atomic_state_commit_with_rollback_def fun_eq_iff)

lemma mem_trait_op_batch:
  "mem_trait_op op = (\<lambda>(rb, cs). if rb then mem_rollback_state_batch cs else mem_atomic_state_commit cs) (op_batch op)"
  by (cases op) (auto simp: mem_state_put_def mem_state_delete_def mem_atomic_state_commit_def fun_eq_iff)

text \<open>
  C20: the two backends are interchangeable for synchronous clients. After the same writes, batches and
  roll-backs they return the same values, the same undo batches and the same scans; a range scan of the
  in-memory backend returns the same entries unless its start is above its end, where it panics.
\<close>

theorem backends_agree:
  assumes "lru_ok L" "eng_inv L (engine_new c)"
  shows "let s = fold (eng_trait_op L) ops (engine_new c); b = fold mem_trait_op ops \<lparr>mb_state = [], mb_verkle = []\<rparr>
    in (\<forall>k. state_get_bytes IoOk k s = Ok (mem_state_get k b))
     \<and> (\<forall>p. state_prefix_scan IoOk p s = Ok (mem_state_prefix_scan p b))
     \<and> (\<forall>cs. fst (atomic_state_commit_with_rollback L IoOk cs s) = Ok (fst (mem_atomic_state_commit_with_rollback cs b)))
     \<and> (\<forall>lo hi n. mem_state_range_scan lo hi n b =
          (if \<exists>h. hi = Some h \<and> h < lo then None else ok_of (state_range_scan IoOk lo hi n s)))"
proof -
  let ?s = "fold (eng_trait_op L) ops (engine_new c)"
  let ?b = "fold mem_trait_op ops \<lparr>mb_state = [], mb_verkle = []\<rparr>"
  have "lru_ok L \<and> eng_inv L ?s \<and> om_wf (mb_state ?b) \<and> hm_get (eng_state ?s) = hm_get (mb_state ?b)"
    using both.same_run [of L "engine_new c" "\<lparr>mb_state = [], mb_verkle = []\<rparr>" "map op_batch ops"] assms
    unfolding fold_map comp_def eng_trait_op_batch [symmetric] mem_trait_op_batch [symmetric]
    by (simp add: engine_new_def)
  then have inv: "eng_inv L ?s" "om_wf (mb_state ?b)" "om_wf (eng_state ?s)"
    and get: "hm_get (eng_state ?s) = hm_get (mb_state ?b)"
    by (auto simp: eng_inv_def)
  have tab: "eng_state ?s = mb_state ?b"
    by (rule om_ext [OF inv(3,2) get])
  have scan: "state_prefix_scan IoOk p ?s = Ok (mem_state_prefix_scan p ?b)" for p
    using both.same_scan [of L ?s ?b p] assms(1) inv get state_prefix_scan_Ok [OF inv(3)] by simp
  show ?thesis
    unfolding Let_def
  proof (intro conjI allI)
    show "state_prefix_scan IoOk p ?s = Ok (mem_state_prefix_scan p ?b)" for p by (rule scan)
  qed (auto simp: state_get_bytes_def mem_state_get_def atomic_state_commit_with_rollback_def
      mem_atomic_state_commit_with_rollback_def mem_state_range_scan_def state_range_scan_def tab split: option.splits)
qed

theorem backends_agree_witness:
  "let ops = [TPut [1, 2] [5], TCommit [([1, 3], Some [6]), ([2], Some [7])], TDelete [2]];
       s = fold (eng_trait_op list_lru) ops (engine_new []); b = fold mem_trait_op ops \<lparr>mb_state = [], mb_verkle = []\<rparr>
   in state_prefix_scan IoOk [1] s = Ok [([1, 2], [5]), ([1, 3], [6])] \<and> mem_state_prefix_scan [1] b = [([1, 2], [5]), ([1, 3], [6])]"
proof -
  let ?ops = "[TPut [1, 2] [5], TCommit [([1, 3], Some [6]), ([2], Some [7])], TDelete [2]]"
  have "mem_state_prefix_scan [1] (fold mem_trait_op ?ops \<lparr>mb_state = [], mb_verkle = []\<rparr>) = [([1, 2], [5]), ([1, 3], [6])]"
    by (simp add: mem_state_put_def mem_atomic_state_commit_def mem_state_delete_def mem_state_prefix_scan_def om_range_def)
  then show ?thesis
    using backends_agree [OF list_lru_ok engine_new_inv, of ?ops] unfolding Let_def by metis
qed

end
