(* ===== verification/BlockStore.thy ===== *)
theory BlockStore
  imports Block StateStore
begin

text \<open>
  The block tables of the storage crate: the canonical chain with its indices, fork blocks, roll-backs
  under finality protection, pruning, and the verification of the stored chain (\<open>redb_store.rs\<close>,
  \<open>memory.rs\<close>, \<open>util.rs\<close>). The encoders are parameters; a row is the bytes the encoder produced.
\<close>

section \<open>Tables\<close>

record block_codec =
  cd_header_enc :: "block_header \<Rightarrow> bytes option"
  cd_header_dec :: "bytes \<Rightarrow> block_header option"
  cd_header_legacy :: "bytes \<Rightarrow> block_header option"
  cd_body_enc :: "block_body \<Rightarrow> bytes option"
  cd_body_dec :: "bytes \<Rightarrow> block_body option"
  cd_body_legacy :: "bytes \<Rightarrow> block_body option"
  cd_tx_enc :: "transaction \<Rightarrow> bytes option"
  cd_receipt_enc :: "receipt \<Rightarrow> bytes option"
  cd_pair_enc :: "bytes \<times> bytes \<Rightarrow> bytes option"
  cd_pair_dec :: "bytes \<Rightarrow> (bytes \<times> bytes) option"
  cd_fork_legacy :: "bytes \<Rightarrow> (block_header \<times> block_body) option"

text \<open>What the code relies on: decoding what was encoded gives the value back.\<close>

definition codec_ok :: "block_codec \<Rightarrow> bool" where
  "codec_ok cd \<longleftrightarrow>
     (\<forall>h bs. cd_header_enc cd h = Some bs \<longrightarrow> cd_header_dec cd bs = Some h)
   \<and> (\<forall>b bs. cd_body_enc cd b = Some bs \<longrightarrow> cd_body_dec cd bs = Some b)
   \<and> (\<forall>p bs. cd_pair_enc cd p = Some bs \<longrightarrow> cd_pair_dec cd bs = Some p)"

record block_tables =
  bt_headers :: "(u64, bytes) omap"
  bt_bodies :: "(u64, bytes) omap"
  bt_hash_index :: "(hash32, u64) omap"
  bt_canonical :: "(u64, hash32) omap"
  bt_forks :: "(hash32, bytes) omap"
  bt_finalized :: "(u64, hash32) omap"
  bt_bloom :: "(u64, bytes) omap"
  bt_transactions :: "(hash32, bytes) omap"
  bt_tx_index :: "(hash32, u64) omap"
  bt_receipts :: "(hash32, bytes) omap"
  bt_zk :: "(u64, bytes) omap"
  bt_val_sets :: "(u64, bytes) omap"

record block_db = block_tables +
  bd_metadata :: "(string, bytes) hashmap"

datatype block_store_error =
    OfStorage storage_error
  | Bailed string
  | OfHeader header_error
  | OfBody body_error
  | OfTx tx_error
  | EncodingFailed
  | DecodeFailed

definition MAX_DECODE :: nat where
  "MAX_DECODE = 8 * 1024 * 1024"

definition decode_canonical :: "(bytes \<Rightarrow> 'a option) \<Rightarrow> (bytes \<Rightarrow> 'a option) \<Rightarrow> bytes \<Rightarrow> ('a, block_store_error) result" where
  "decode_canonical dec legacy bs =
     (case dec bs of
        Some x \<Rightarrow> Ok x
      | None \<Rightarrow> if MAX_DECODE < length bs then Err DecodeFailed else ok_or (legacy bs) DecodeFailed)"

abbreviation decode_header :: "block_codec \<Rightarrow> bytes \<Rightarrow> (block_header, block_store_error) result" where
  "decode_header cd \<equiv> decode_canonical (cd_header_dec cd) (cd_header_legacy cd)"

abbreviation decode_body :: "block_codec \<Rightarrow> bytes \<Rightarrow> (block_body, block_store_error) result" where
  "decode_body cd \<equiv> decode_canonical (cd_body_dec cd) (cd_body_legacy cd)"

text \<open>
  A write transaction: an early return inside it or a failing commit leaves the database as it was.
\<close>

definition execute_write :: "io \<Rightarrow> ('d \<Rightarrow> ('a \<times> 'd, block_store_error) result) \<Rightarrow> 'd \<Rightarrow> ('a, block_store_error) result \<times> 'd" where
  "execute_write io f d =
     (case f d of
        Err e \<Rightarrow> (Err e, d)
      | Ok (x, d') \<Rightarrow> if io = IoOk then (Ok x, d') else (Err (OfStorage (Backend ''redb'')), d))"

section \<open>Metadata\<close>

definition LATEST_BLOCK_HEIGHT_KEY :: string where "LATEST_BLOCK_HEIGHT_KEY = ''latest_block_height''"
definition FINALIZED_BLOCK_HEIGHT_KEY :: string where "FINALIZED_BLOCK_HEIGHT_KEY = ''finalized_block_height''"
definition SAFE_BLOCK_HEIGHT_KEY :: string where "SAFE_BLOCK_HEIGHT_KEY = ''safe_block_height''"

definition get_metadata :: "string \<Rightarrow> block_db \<Rightarrow> bytes option" where
  "get_metadata k d = hm_get (bd_metadata d) k"

definition put_metadata :: "string \<Rightarrow> bytes \<Rightarrow> block_db \<Rightarrow> block_db" where
  "put_metadata k v d = d\<lparr>bd_metadata := hm_insert k v (bd_metadata d)\<rparr>"

definition read_latest_height_metadata :: "block_db \<Rightarrow> (u64 option, block_store_error) result" where
  "read_latest_height_metadata d =
     (case get_metadata LATEST_BLOCK_HEIGHT_KEY d of
        None \<Rightarrow> Ok None
      | Some bs \<Rightarrow> if length bs \<noteq> 8 then Err (Bailed ''invalid latest_block_height metadata length'')
          else Ok (Some (of_le_bytes bs)))"

definition update_latest_height_metadata :: "u64 \<Rightarrow> block_db \<Rightarrow> (block_db, block_store_error) result" where
  "update_latest_height_metadata h d =
     then_ok (read_latest_height_metadata d) (\<lambda>cur.
     Ok (if (case cur of Some c \<Rightarrow> c | None \<Rightarrow> 0) < h \<or> get_metadata LATEST_BLOCK_HEIGHT_KEY d = None
         then put_metadata LATEST_BLOCK_HEIGHT_KEY (le_bytes 8 h) d else d))"

definition reconcile_latest_height_metadata :: "u64 option \<Rightarrow> block_db \<Rightarrow> block_db" where
  "reconcile_latest_height_metadata h d =
     (case h of
        Some x \<Rightarrow> put_metadata LATEST_BLOCK_HEIGHT_KEY (le_bytes 8 x) d
      | None \<Rightarrow> d\<lparr>bd_metadata := hm_remove LATEST_BLOCK_HEIGHT_KEY (bd_metadata d)\<rparr>)"

definition latest_block_height :: "block_db \<Rightarrow> (u64, block_store_error) result" where
  "latest_block_height d =
     then_ok (read_latest_height_metadata d) (\<lambda>h. Ok (case h of Some x \<Rightarrow> x | None \<Rightarrow> 0))"

definition read_height_row :: "string \<Rightarrow> block_db \<Rightarrow> u64 option" where
  "read_height_row k d =
     (case get_metadata k d of
        Some bs \<Rightarrow> if length bs = 8 then Some (of_le_bytes bs) else None
      | None \<Rightarrow> None)"

definition set_finalized_height :: "io \<Rightarrow> u64 \<Rightarrow> hash32 \<Rightarrow> block_db \<Rightarrow> (unit, block_store_error) result \<times> block_db" where
  "set_finalized_height io h hash d =
     execute_write io (\<lambda>d. Ok ((), put_metadata FINALIZED_BLOCK_HEIGHT_KEY (le_bytes 8 h)
       (d\<lparr>bt_finalized := om_insert h hash (bt_finalized d)\<rparr>))) d"

definition get_finalized_height :: "block_db \<Rightarrow> u64 option" where
  "get_finalized_height d = read_height_row FINALIZED_BLOCK_HEIGHT_KEY d"

definition set_safe_height :: "io \<Rightarrow> u64 \<Rightarrow> block_db \<Rightarrow> (unit, block_store_error) result \<times> block_db" where
  "set_safe_height io h d = execute_write io (\<lambda>d. Ok ((), put_metadata SAFE_BLOCK_HEIGHT_KEY (le_bytes 8 h) d)) d"

definition get_safe_height :: "block_db \<Rightarrow> u64 option" where
  "get_safe_height d = read_height_row SAFE_BLOCK_HEIGHT_KEY d"

section \<open>Storing and reading blocks\<close>

definition canonical_checks ::
  "block_env \<Rightarrow> u64 \<Rightarrow> hash32 \<Rightarrow> block_header \<Rightarrow> block_body \<Rightarrow> (unit, block_store_error) result" where
  "canonical_checks be h hash hdr body =
     then_ok (ensure (bh_height hdr = h) (Bailed ''header height'')) (\<lambda>_.
     then_ok (map_err OfHeader (header_hash be hdr)) (\<lambda>computed.
     then_ok (ensure (hash = computed) (Bailed ''block hash'')) (\<lambda>_.
     then_ok (map_err OfBody (compute_tx_root be body)) (\<lambda>tx_root.
     then_ok (ensure (bh_tx_root hdr = tx_root) (Bailed ''tx_root'')) (\<lambda>_.
     then_ok (map_err OfBody (compute_receipt_root be body)) (\<lambda>receipt_root.
     then_ok (ensure (bh_receipts_root hdr = receipt_root) (Bailed ''receipts_root'')) (\<lambda>_.
     then_ok (map_err OfBody (total_gas_used_checked body)) (\<lambda>gas_used.
     ensure (bh_gas_used hdr = gas_used) (Bailed ''gas_used'')))))))))"

fun index_transactions ::
  "block_env \<Rightarrow> block_codec \<Rightarrow> u64 \<Rightarrow> transaction list \<Rightarrow> 'a block_tables_scheme \<Rightarrow>
     ('a block_tables_scheme, block_store_error) result" where
  "index_transactions be cd h [] t = Ok t"
| "index_transactions be cd h (x # xs) t =
     then_ok (map_err OfTx (tx_hash (be_tx be) x)) (\<lambda>txh.
     then_ok (ok_or (cd_tx_enc cd x) EncodingFailed) (\<lambda>txb.
     index_transactions be cd h xs
       (t\<lparr>bt_transactions := om_insert txh txb (bt_transactions t), bt_tx_index := om_insert txh h (bt_tx_index t)\<rparr>)))"

fun insert_receipts ::
  "block_codec \<Rightarrow> receipt list \<Rightarrow> 'a block_tables_scheme \<Rightarrow> ('a block_tables_scheme, block_store_error) result" where
  "insert_receipts cd [] t = Ok t"
| "insert_receipts cd (r # rs) t =
     then_ok (ok_or (cd_receipt_enc cd r) EncodingFailed) (\<lambda>rb.
     insert_receipts cd rs (t\<lparr>bt_receipts := om_insert (rc_tx_hash r) rb (bt_receipts t)\<rparr>))"

definition put_block_rows :: "u64 \<Rightarrow> hash32 \<Rightarrow> bytes \<Rightarrow> bytes \<Rightarrow> 'a block_tables_scheme \<Rightarrow> 'a block_tables_scheme" where
  "put_block_rows h hash hb bb t =
     t\<lparr>bt_headers := om_insert h hb (bt_headers t), bt_bodies := om_insert h bb (bt_bodies t),
       bt_hash_index := om_insert hash h (bt_hash_index t), bt_canonical := om_insert h hash (bt_canonical t)\<rparr>"

definition store_canonical_block ::
  "block_env \<Rightarrow> block_codec \<Rightarrow> io \<Rightarrow> u64 \<Rightarrow> hash32 \<Rightarrow> block_header \<Rightarrow> block_body \<Rightarrow> block_db \<Rightarrow>
     (unit, block_store_error) result \<times> block_db" where
  "store_canonical_block be cd io h hash hdr body d =
     execute_write io (\<lambda>d.
       then_ok (canonical_checks be h hash hdr body) (\<lambda>_.
       then_ok (ok_or (cd_header_enc cd hdr) EncodingFailed) (\<lambda>hb.
       then_ok (ok_or (cd_body_enc cd body) EncodingFailed) (\<lambda>bb.
       then_ok (index_transactions be cd h (bb_transactions body) (put_block_rows h hash hb bb d)) (\<lambda>d1.
       then_ok (insert_receipts cd (bb_receipts body) d1) (\<lambda>d2.
       then_ok (update_latest_height_metadata h d2) (\<lambda>d3. Ok ((), d3)))))))) d"

definition store_block ::
  "block_env \<Rightarrow> block_codec \<Rightarrow> io \<Rightarrow> block \<Rightarrow> block_db \<Rightarrow> (hash32, block_store_error) result \<times> block_db" where
  "store_block be cd io b d =
     (case block_hash be b of
        Err e \<Rightarrow> (Err (OfHeader e), d)
      | Ok hash \<Rightarrow> apfst (map_ok (\<lambda>_. hash))
          (store_canonical_block be cd io (bh_height (blk_header b)) hash (blk_header b) (blk_body b) d))"

definition atomic_block_commit :: "io \<Rightarrow> u64 \<Rightarrow> bytes \<Rightarrow> bytes \<Rightarrow> block_db \<Rightarrow> (unit, block_store_error) result \<times> block_db" where
  "atomic_block_commit io h hb bb d =
     execute_write io (\<lambda>d.
       then_ok (update_latest_height_metadata h
         (d\<lparr>bt_headers := om_insert h hb (bt_headers d), bt_bodies := om_insert h bb (bt_bodies d)\<rparr>)) (\<lambda>d1. Ok ((), d1))) d"

definition get_block_header :: "block_codec \<Rightarrow> u64 \<Rightarrow> 'a block_tables_scheme \<Rightarrow> (block_header option, block_store_error) result" where
  "get_block_header cd h t =
     (case hm_get (bt_headers t) h of None \<Rightarrow> Ok None | Some bs \<Rightarrow> map_ok Some (decode_header cd bs))"

definition get_block_body :: "block_codec \<Rightarrow> u64 \<Rightarrow> 'a block_tables_scheme \<Rightarrow> (block_body option, block_store_error) result" where
  "get_block_body cd h t =
     (case hm_get (bt_bodies t) h of None \<Rightarrow> Ok None | Some bs \<Rightarrow> map_ok Some (decode_body cd bs))"

definition get_block_by_height ::
  "block_codec \<Rightarrow> u64 \<Rightarrow> 'a block_tables_scheme \<Rightarrow> ((block_header \<times> block_body) option, block_store_error) result" where
  "get_block_by_height cd h t =
     then_ok (get_block_header cd h t) (\<lambda>hdr.
     then_ok (get_block_body cd h t) (\<lambda>body.
     Ok (case (hdr, body) of (Some x, Some y) \<Rightarrow> Some (x, y) | _ \<Rightarrow> None)))"

definition is_canonical_block :: "u64 \<Rightarrow> hash32 \<Rightarrow> 'a block_tables_scheme \<Rightarrow> bool" where
  "is_canonical_block h hash t = (hm_get (bt_canonical t) h = Some hash)"

definition store_fork_block ::
  "block_codec \<Rightarrow> io \<Rightarrow> hash32 \<Rightarrow> block_header \<Rightarrow> block_body \<Rightarrow> block_db \<Rightarrow> (unit, block_store_error) result \<times> block_db" where
  "store_fork_block cd io hash hdr body d =
     execute_write io (\<lambda>d.
       then_ok (ok_or (cd_header_enc cd hdr) EncodingFailed) (\<lambda>hb.
       then_ok (ok_or (cd_body_enc cd body) EncodingFailed) (\<lambda>bb.
       then_ok (ok_or (cd_pair_enc cd (hb, bb)) EncodingFailed) (\<lambda>bs.
       Ok ((), d\<lparr>bt_forks := om_insert hash bs (bt_forks d)\<rparr>))))) d"

definition get_fork_block ::
  "block_codec \<Rightarrow> hash32 \<Rightarrow> 'a block_tables_scheme \<Rightarrow> ((block_header \<times> block_body) option, block_store_error) result" where
  "get_fork_block cd hash t =
     (case hm_get (bt_forks t) hash of
        None \<Rightarrow> Ok None
      | Some bs \<Rightarrow>
          (case cd_pair_dec cd bs of
             Some (hb, bb) \<Rightarrow>
               then_ok (decode_header cd hb) (\<lambda>hdr. then_ok (decode_body cd bb) (\<lambda>body. Ok (Some (hdr, body))))
           | None \<Rightarrow> map_ok Some (ok_or (cd_fork_legacy cd bs) DecodeFailed)))"

definition get_block_by_hash ::
  "block_codec \<Rightarrow> hash32 \<Rightarrow> 'a block_tables_scheme \<Rightarrow> ((block_header \<times> block_body) option, block_store_error) result" where
  "get_block_by_hash cd hash t =
     (case hm_get (bt_hash_index t) hash of
        Some h \<Rightarrow> if is_canonical_block h hash t then get_block_by_height cd h t else get_fork_block cd hash t
      | None \<Rightarrow> get_fork_block cd hash t)"

section \<open>Roll-backs and pruning\<close>

text \<open>The rows of one height; both backends remove them in the same way.\<close>

definition remove_all :: "'k list \<Rightarrow> ('k, 'v) omap \<Rightarrow> ('k, 'v) omap" where
  "remove_all ks m = fold hm_remove ks m"

definition unindex_hash :: "u64 \<Rightarrow> 'a block_tables_scheme \<Rightarrow> (hash32, u64) omap" where
  "unindex_hash h t =
     (case hm_get (bt_canonical t) h of Some hash \<Rightarrow> hm_remove hash (bt_hash_index t) | None \<Rightarrow> bt_hash_index t)"

definition drop_block_rows :: "u64 \<Rightarrow> 'a block_tables_scheme \<Rightarrow> 'a block_tables_scheme" where
  "drop_block_rows h t =
     t\<lparr>bt_headers := hm_remove h (bt_headers t), bt_bodies := hm_remove h (bt_bodies t),
       bt_bloom := hm_remove h (bt_bloom t), bt_zk := hm_remove h (bt_zk t), bt_val_sets := hm_remove h (bt_val_sets t),
       bt_hash_index := unindex_hash h t, bt_canonical := hm_remove h (bt_canonical t)\<rparr>"

definition unindex_body :: "block_env \<Rightarrow> block_codec \<Rightarrow> bytes option \<Rightarrow> 'a block_tables_scheme \<Rightarrow> 'a block_tables_scheme" where
  "unindex_body be cd body_opt t =
     (case body_opt of
        None \<Rightarrow> t
      | Some bs \<Rightarrow>
          (case decode_body cd bs of
             Err _ \<Rightarrow> t
           | Ok body \<Rightarrow>
               t\<lparr>bt_tx_index := remove_all (List.map_filter (\<lambda>x. ok_of (tx_hash (be_tx be) x)) (bb_transactions body)) (bt_tx_index t),
                 bt_receipts := remove_all (map rc_tx_hash (bb_receipts body)) (bt_receipts t)\<rparr>))"

definition revert_rows :: "block_env \<Rightarrow> block_codec \<Rightarrow> u64 \<Rightarrow> 'a block_tables_scheme \<Rightarrow> 'a block_tables_scheme" where
  "revert_rows be cd h t = unindex_body be cd (hm_get (bt_bodies t) h) (drop_block_rows h t)"

definition revert_block ::
  "block_env \<Rightarrow> block_codec \<Rightarrow> io \<Rightarrow> u64 \<Rightarrow> block_db \<Rightarrow> (unit, block_store_error) result \<times> block_db" where
  "revert_block be cd io h d =
     (case get_finalized_height d of
        Some f \<Rightarrow> if h \<le> f then (Err (OfStorage (FinalizedBlockReversion h f)), d)
          else execute_write io (\<lambda>d. Ok ((), reconcile_latest_height_metadata (if 0 < h then Some (h - 1) else None) (revert_rows be cd h d))) d
      | None \<Rightarrow>
          execute_write io (\<lambda>d. Ok ((), reconcile_latest_height_metadata (if 0 < h then Some (h - 1) else None) (revert_rows be cd h d))) d)"

text \<open>The heights from \<open>current\<close> down to \<open>target + 1\<close>.\<close>

definition reverted_heights :: "u64 \<Rightarrow> u64 \<Rightarrow> u64 list" where
  "reverted_heights target current = map of_nat (rev [Suc (unat target)..<Suc (unat current)])"

definition revert_blocks_to ::
  "block_env \<Rightarrow> block_codec \<Rightarrow> io \<Rightarrow> u64 \<Rightarrow> block_db \<Rightarrow> (nat, block_store_error) result \<times> block_db" where
  "revert_blocks_to be cd io target d =
     (case latest_block_height d of
        Err e \<Rightarrow> (Err e, d)
      | Ok current \<Rightarrow>
          (if current \<le> target then (Ok 0, d)
           else case get_finalized_height d of
               Some f \<Rightarrow>
                 if target < f then (Err (OfStorage (FinalizedBlockReversion (target + 1) f)), d)
                 else execute_write io (\<lambda>d.
                   let d1 = fold (revert_rows be cd) (reverted_heights target current) d
                   in Ok (length (reverted_heights target current),
                       reconcile_latest_height_metadata
                         (if 0 < target \<or> hm_get (bt_headers d1) 0 \<noteq> None then Some target else None) d1)) d
             | None \<Rightarrow> execute_write io (\<lambda>d.
                   let d1 = fold (revert_rows be cd) (reverted_heights target current) d
                   in Ok (length (reverted_heights target current),
                       reconcile_latest_height_metadata
                         (if 0 < target \<or> hm_get (bt_headers d1) 0 \<noteq> None then Some target else None) d1)) d))"

definition prune_guard :: "u64 option \<Rightarrow> u64 \<Rightarrow> (unit, block_store_error) result" where
  "prune_guard finalized h =
     (case finalized of
        Some f \<Rightarrow> ensure (h \<le> f) (OfStorage (FinalizedBlockPruning h finalized))
      | None \<Rightarrow> ensure (h \<le> 1) (OfStorage (FinalizedBlockPruning h None)))"

definition prune_heights :: "u64 \<Rightarrow> 'a block_tables_scheme \<Rightarrow> u64 list" where
  "prune_heights h t =
     sort (remdups (filter (\<lambda>x. x < h)
       (map fst (bt_headers t) @ map fst (bt_bloom t) @ map fst (bt_zk t) @ map fst (bt_val_sets t))))"

definition prune_blocks_before :: "io \<Rightarrow> u64 \<Rightarrow> block_db \<Rightarrow> (nat, block_store_error) result \<times> block_db" where
  "prune_blocks_before io h d =
     (case then_ok (prune_guard (get_finalized_height d) h) (\<lambda>_. latest_block_height d) of
        Err e \<Rightarrow> (Err e, d)
      | Ok previous_latest \<Rightarrow>
          execute_write io (\<lambda>d.
            Ok (length (prune_heights h d),
                reconcile_latest_height_metadata (if h \<le> previous_latest then Some previous_latest else None)
                  (fold drop_block_rows (prune_heights h d) d))) d)"

section \<open>Verification of the stored chain\<close>

record canonical_row =
  cr_height :: u64
  cr_hash :: hash32
  cr_header :: bytes
  cr_body :: bytes
  cr_indexed :: "u64 option"

abbreviation corrupt :: "canonical_row \<Rightarrow> string \<Rightarrow> block_store_error" where
  "corrupt r why \<equiv> OfStorage (CorruptBlockIndex (cr_hash r) (cr_height r) why)"

text \<open>The checks of one row that do not depend on its predecessor, before and after the link check.\<close>

definition check_row_header :: "block_env \<Rightarrow> block_codec \<Rightarrow> canonical_row \<Rightarrow> (block_header, block_store_error) result" where
  "check_row_header be cd r =
     then_ok (map_err (\<lambda>_. corrupt r ''decode header'') (decode_header cd (cr_header r))) (\<lambda>hdr.
     then_ok (map_err (\<lambda>_. corrupt r ''header hash'') (header_hash be hdr)) (\<lambda>computed.
     then_ok (ensure (computed = cr_hash r) (corrupt r ''hash mismatch'')) (\<lambda>_.
     then_ok (ensure (bh_height hdr = cr_height r) (corrupt r ''height mismatch'')) (\<lambda>_. Ok hdr))))"

definition check_row_link :: "hash32 option \<Rightarrow> u64 \<Rightarrow> block_header \<Rightarrow> canonical_row \<Rightarrow> (unit, block_store_error) result" where
  "check_row_link prev expected hdr r =
     (case prev of
        Some p \<Rightarrow>
          then_ok (ensure (cr_height r = expected) (corrupt r ''height gap'')) (\<lambda>_.
          ensure (bh_parent_hash hdr = p) (corrupt r ''parent hash''))
      | None \<Rightarrow> ensure (\<not> (cr_height r = 0 \<and> bh_parent_hash hdr \<noteq> 0)) (corrupt r ''genesis parent''))"

definition check_row_body :: "block_env \<Rightarrow> block_codec \<Rightarrow> block_header \<Rightarrow> canonical_row \<Rightarrow> (unit, block_store_error) result" where
  "check_row_body be cd hdr r =
     then_ok (map_err (\<lambda>_. corrupt r ''decode body'') (decode_body cd (cr_body r))) (\<lambda>body.
     then_ok (map_err (\<lambda>_. corrupt r ''tx_root'') (compute_tx_root be body)) (\<lambda>tx_root.
     then_ok (ensure (bh_tx_root hdr = tx_root) (corrupt r ''tx_root'')) (\<lambda>_.
     then_ok (map_err (\<lambda>_. corrupt r ''receipt_root'') (compute_receipt_root be body)) (\<lambda>receipt_root.
     then_ok (ensure (bh_receipts_root hdr = receipt_root) (corrupt r ''receipts_root'')) (\<lambda>_.
     ensure (cr_indexed r = Some (cr_height r))
       (OfStorage (InvalidCanonicalMapping (cr_height r) (cr_hash r) None)))))))"

fun verify_canonical_sequence ::
  "block_env \<Rightarrow> block_codec \<Rightarrow> hash32 option \<Rightarrow> u64 \<Rightarrow> canonical_row list \<Rightarrow> (unit, block_store_error) result" where
  "verify_canonical_sequence be cd prev expected [] = Ok ()"
| "verify_canonical_sequence be cd prev expected (r # rs) =
     then_ok (check_row_header be cd r) (\<lambda>hdr.
     then_ok (check_row_link prev expected hdr r) (\<lambda>_.
     then_ok (check_row_body be cd hdr r) (\<lambda>_.
     verify_canonical_sequence be cd (Some (cr_hash r)) (cr_height r + 1) rs)))"

definition canonical_row_of :: "'a block_tables_scheme \<Rightarrow> u64 \<times> hash32 \<Rightarrow> (canonical_row, block_store_error) result" where
  "canonical_row_of t e =
     then_ok (ok_or (hm_get (bt_headers t) (fst e)) (OfStorage (StorageCorruption ''missing header''))) (\<lambda>hb.
     then_ok (ok_or (hm_get (bt_bodies t) (fst e)) (OfStorage (StorageCorruption ''missing body''))) (\<lambda>bb.
     Ok \<lparr>cr_height = fst e, cr_hash = snd e, cr_header = hb, cr_body = bb,
         cr_indexed = hm_get (bt_hash_index t) (snd e)\<rparr>))"

definition check_chain_invariants :: "block_env \<Rightarrow> block_codec \<Rightarrow> 'a block_tables_scheme \<Rightarrow> (bool, block_store_error) result" where
  "check_chain_invariants be cd t =
     then_ok (map_result (canonical_row_of t) (bt_canonical t)) (\<lambda>rows.
     then_ok (verify_canonical_sequence be cd None 0 rows) (\<lambda>_. Ok True))"

section \<open>The in-memory backend\<close>

record mem_blocks = block_tables +
  mk_height :: u64
  mk_finalized_height :: u64
  mk_safe_height :: u64

definition mem_set_finalized_height :: "u64 \<Rightarrow> hash32 \<Rightarrow> mem_blocks \<Rightarrow> mem_blocks" where
  "mem_set_finalized_height h hash m =
     m\<lparr>bt_finalized := om_insert h hash (bt_finalized m), mk_finalized_height := h\<rparr>"

definition mem_get_finalized_height :: "mem_blocks \<Rightarrow> u64 option" where
  "mem_get_finalized_height m =
     (if mk_finalized_height m = 0 \<and> hm_get (bt_finalized m) 0 = None then None else Some (mk_finalized_height m))"

definition mem_set_safe_height :: "u64 \<Rightarrow> mem_blocks \<Rightarrow> mem_blocks" where
  "mem_set_safe_height h m = m\<lparr>mk_safe_height := h\<rparr>"

definition mem_get_safe_height :: "mem_blocks \<Rightarrow> u64 option" where
  "mem_get_safe_height m = (if mk_safe_height m = 0 then None else Some (mk_safe_height m))"

definition mem_raise_height :: "u64 \<Rightarrow> mem_blocks \<Rightarrow> mem_blocks" where
  "mem_raise_height h m = (if mk_height m < h then m\<lparr>mk_height := h\<rparr> else m)"

definition mem_atomic_block_commit :: "u64 \<Rightarrow> bytes \<Rightarrow> bytes \<Rightarrow> mem_blocks \<Rightarrow> mem_blocks" where
  "mem_atomic_block_commit h hb bb m =
     mem_raise_height h (m\<lparr>bt_headers := om_insert h hb (bt_headers m), bt_bodies := om_insert h bb (bt_bodies m)\<rparr>)"

definition mem_revert_block ::
  "block_env \<Rightarrow> block_codec \<Rightarrow> u64 \<Rightarrow> mem_blocks \<Rightarrow> (unit, block_store_error) result \<times> mem_blocks" where
  "mem_revert_block be cd h m =
     (let go = (let m1 = revert_rows be cd h m
                in (Ok (), if h \<le> mk_height m1 then m1\<lparr>mk_height := sat_sub h 1\<rparr> else m1))
      in case mem_get_finalized_height m of
           Some f \<Rightarrow> if h \<le> f then (Err (OfStorage (FinalizedBlockReversion h f)), m) else go
         | None \<Rightarrow> go)"

fun mem_revert_all ::
  "block_env \<Rightarrow> block_codec \<Rightarrow> u64 list \<Rightarrow> mem_blocks \<Rightarrow> (unit, block_store_error) result \<times> mem_blocks" where
  "mem_revert_all be cd [] m = (Ok (), m)"
| "mem_revert_all be cd (h # hs) m =
     (case mem_revert_block be cd h m of
        (Ok _, m1) \<Rightarrow> mem_revert_all be cd hs m1
      | (Err e, m1) \<Rightarrow> (Err e, m1))"

definition mem_revert_blocks_to ::
  "block_env \<Rightarrow> block_codec \<Rightarrow> u64 \<Rightarrow> mem_blocks \<Rightarrow> (nat, block_store_error) result \<times> mem_blocks" where
  "mem_revert_blocks_to be cd target m =
     (let current = mk_height m;
          go = apfst (map_ok (\<lambda>_. unat (current - target))) (mem_revert_all be cd (reverted_heights target current) m)
      in if current \<le> target then (Ok 0, m)
         else case mem_get_finalized_height m of
             Some f \<Rightarrow> if target < f then (Err (OfStorage (FinalizedBlockReversion (target + 1) f)), m) else go
           | None \<Rightarrow> go)"

definition mem_prune_blocks_before :: "u64 \<Rightarrow> mem_blocks \<Rightarrow> (nat, block_store_error) result \<times> mem_blocks" where
  "mem_prune_blocks_before h m =
     (case prune_guard (mem_get_finalized_height m) h of
        Err e \<Rightarrow> (Err e, m)
      | Ok _ \<Rightarrow> (Ok (length (prune_heights h m)), fold drop_block_rows (prune_heights h m) m))"

section \<open>The stored chain\<close>

text \<open>
  What \<open>check_chain_invariants\<close> establishes, without the encodings: every canonical entry has rows that
  decode to a block with that hash and height, and consecutive entries are linked.
\<close>

definition entry_ok :: "block_env \<Rightarrow> block_codec \<Rightarrow> 'a block_tables_scheme \<Rightarrow> u64 \<times> hash32 \<Rightarrow> block_header \<Rightarrow> bool" where
  "entry_ok be cd t e hdr \<longleftrightarrow>
     (\<exists>hb bb body. hm_get (bt_headers t) (fst e) = Some hb \<and> hm_get (bt_bodies t) (fst e) = Some bb
        \<and> decode_header cd hb = Ok hdr \<and> header_hash be hdr = Ok (snd e) \<and> bh_height hdr = fst e
        \<and> decode_body cd bb = Ok body \<and> compute_tx_root be body = Ok (bh_tx_root hdr)
        \<and> compute_receipt_root be body = Ok (bh_receipts_root hdr))
     \<and> hm_get (bt_hash_index t) (snd e) = Some (fst e)"

definition link_ok :: "(u64 \<times> hash32) option \<Rightarrow> u64 \<times> hash32 \<Rightarrow> block_header \<Rightarrow> bool" where
  "link_ok prev e hdr =
     (case prev of
        Some p \<Rightarrow> fst e = fst p + 1 \<and> bh_parent_hash hdr = snd p
      | None \<Rightarrow> fst e = 0 \<longrightarrow> bh_parent_hash hdr = 0)"

fun linked :: "block_env \<Rightarrow> block_codec \<Rightarrow> 'a block_tables_scheme \<Rightarrow> (u64 \<times> hash32) option \<Rightarrow> (u64 \<times> hash32) list \<Rightarrow> bool" where
  "linked be cd t prev [] \<longleftrightarrow> True"
| "linked be cd t prev (e # es) \<longleftrightarrow> (\<exists>hdr. entry_ok be cd t e hdr \<and> link_ok prev e hdr) \<and> linked be cd t (Some e) es"

lemma check_row_iff:
  assumes "canonical_row_of t e = Ok r"
  shows "(\<exists>hdr. check_row_header be cd r = Ok hdr
            \<and> check_row_link (map_option snd prev) (case prev of Some p \<Rightarrow> fst p + 1 | None \<Rightarrow> 0) hdr r = Ok ()
            \<and> check_row_body be cd hdr r = Ok ())
     \<longleftrightarrow> (\<exists>hdr. entry_ok be cd t e hdr \<and> link_ok prev e hdr)"
  using assms
  by (cases prev)
     (auto simp: canonical_row_of_def check_row_header_def check_row_link_def check_row_body_def entry_ok_def link_ok_def)

lemma entry_ok_row: "entry_ok be cd t e hdr \<Longrightarrow> \<exists>r. canonical_row_of t e = Ok r"
  by (auto simp: canonical_row_of_def entry_ok_def)

lemma verify_linked:
  "(\<exists>rows. map_result (canonical_row_of t) es = Ok rows
      \<and> verify_canonical_sequence be cd (map_option snd prev) (case prev of Some p \<Rightarrow> fst p + 1 | None \<Rightarrow> 0) rows = Ok ())
   \<longleftrightarrow> linked be cd t prev es"
proof (induction es arbitrary: prev)
  case (Cons e es)
  show ?case
  proof (cases "\<exists>r. canonical_row_of t e = Ok r")
    case True
    then obtain r where r: "canonical_row_of t e = Ok r" by blast
    then have "cr_hash r = snd e" "cr_height r = fst e"
      by (auto simp: canonical_row_of_def)
    then show ?thesis
      using Cons.IH [of "Some e"] check_row_iff [OF r, of be cd prev] r by auto
  next
    case False
    then show ?thesis
      using entry_ok_row by fastforce
  qed
qed simp

lemma check_chain_iff: "check_chain_invariants be cd t = Ok True \<longleftrightarrow> linked be cd t None (bt_canonical t)"
  using verify_linked [of t "bt_canonical t" be cd None] by (auto simp: check_chain_invariants_def)

lemma linked_cong:
  assumes "\<And>e. e \<in> set es \<Longrightarrow> hm_get (bt_headers t) (fst e) = hm_get (bt_headers t') (fst e)
      \<and> hm_get (bt_bodies t) (fst e) = hm_get (bt_bodies t') (fst e)
      \<and> hm_get (bt_hash_index t) (snd e) = hm_get (bt_hash_index t') (snd e)"
  shows "linked be cd t prev es \<longleftrightarrow> linked be cd t' prev es"
  using assms
proof (induction es arbitrary: prev)
  case (Cons e es)
  then have "entry_ok be cd t e hdr \<longleftrightarrow> entry_ok be cd t' e hdr" for hdr
    by (simp add: entry_ok_def)
  then show ?case using Cons by simp
qed simp

lemma linked_append:
  "linked be cd t prev (xs @ ys) \<longleftrightarrow>
     linked be cd t prev xs \<and> linked be cd t (if xs = [] then prev else Some (last xs)) ys"
  by (induction xs arbitrary: prev) auto

lemma linked_entries: "linked be cd t prev es \<Longrightarrow> e \<in> set es \<Longrightarrow> \<exists>hdr. entry_ok be cd t e hdr"
  by (induction es arbitrary: prev) auto

lemma linked_no_prev:
  "linked be cd t prev es \<Longrightarrow> \<forall>e \<in> set es. fst e \<noteq> 0 \<Longrightarrow> linked be cd t None es"
  by (cases es) (auto simp: link_ok_def)

subsection \<open>Removing heights\<close>

lemma revert_rows_tables [simp]:
  "bt_headers (revert_rows be cd h t) = hm_remove h (bt_headers t)"
  "bt_bodies (revert_rows be cd h t) = hm_remove h (bt_bodies t)"
  "bt_canonical (revert_rows be cd h t) = hm_remove h (bt_canonical t)"
  "bt_hash_index (revert_rows be cd h t) = unindex_hash h t"
  by (simp_all add: revert_rows_def unindex_body_def drop_block_rows_def split: option.splits result.splits)

lemma drop_block_rows_tables [simp]:
  "bt_headers (drop_block_rows h t) = hm_remove h (bt_headers t)"
  "bt_bodies (drop_block_rows h t) = hm_remove h (bt_bodies t)"
  "bt_canonical (drop_block_rows h t) = hm_remove h (bt_canonical t)"
  "bt_hash_index (drop_block_rows h t) = unindex_hash h t"
  by (simp_all add: drop_block_rows_def)

text \<open>The contract of a step that removes the rows of one height, which both loops satisfy.\<close>

locale height_removal =
  fixes step :: "u64 \<Rightarrow> 'a block_tables_scheme \<Rightarrow> 'a block_tables_scheme"
  assumes step_headers: "bt_headers (step h t) = hm_remove h (bt_headers t)"
    and step_bodies: "bt_bodies (step h t) = hm_remove h (bt_bodies t)"
    and step_canonical: "bt_canonical (step h t) = hm_remove h (bt_canonical t)"
    and step_index: "bt_hash_index (step h t) = unindex_hash h t"
begin

lemma removed_canonical: "bt_canonical (fold step hs t) = filter (\<lambda>(k, _). k \<notin> set hs) (bt_canonical t)"
proof (induction hs arbitrary: t)
  case (Cons h hs)
  show ?case
    unfolding fold_Cons comp_apply Cons.IH step_canonical
    by (auto simp: AList.delete_eq intro!: filter_cong)
qed (simp add: split_beta)

lemma removed_headers: "hm_get (bt_headers (fold step hs t)) k = (if k \<in> set hs then None else hm_get (bt_headers t) k)"
  by (induction hs arbitrary: t) (auto simp: step_headers)

lemma removed_bodies: "hm_get (bt_bodies (fold step hs t)) k = (if k \<in> set hs then None else hm_get (bt_bodies t) k)"
  by (induction hs arbitrary: t) (auto simp: step_bodies)

lemma removed_canonical_get:
  "hm_get (bt_canonical (fold step hs t)) k = (if k \<in> set hs then None else hm_get (bt_canonical t) k)"
  by (induction hs arbitrary: t) (auto simp: step_canonical)

lemma removed_index:
  "(\<And>h. h \<in> set hs \<Longrightarrow> hm_get (bt_canonical t) h \<noteq> Some hash) \<Longrightarrow>
     hm_get (bt_hash_index (fold step hs t)) hash = hm_get (bt_hash_index t) hash"
proof (induction hs arbitrary: t)
  case (Cons h hs)
  have "hm_get (bt_hash_index (step h t)) hash = hm_get (bt_hash_index t) hash"
    using Cons.prems [of h] by (auto simp: step_index unindex_hash_def split: option.splits)
  moreover have "hm_get (bt_canonical (step h t)) h' \<noteq> Some hash" if "h' \<in> set hs" for h'
    using Cons.prems [of h'] that by (simp add: step_canonical)
  ultimately show ?case
    using Cons.IH [of "step h t"] by simp
qed simp

text \<open>The entries that are not removed keep their rows.\<close>

lemma kept_linked:
  assumes "om_wf (bt_canonical t)" "linked be cd t None (bt_canonical t)"
    and es: "set es \<subseteq> set (bt_canonical t)" "\<And>e. e \<in> set es \<Longrightarrow> fst e \<notin> set hs"
  shows "linked be cd (fold step hs t) prev es \<longleftrightarrow> linked be cd t prev es"
proof (rule linked_cong)
  fix e assume e: "e \<in> set es"
  then obtain hdr where "entry_ok be cd t e hdr"
    using linked_entries [OF assms(2)] es(1) by blast
  then have idx: "hm_get (bt_hash_index t) (snd e) = Some (fst e)"
    by (simp add: entry_ok_def)
  have "hm_get (bt_canonical t) h \<noteq> Some (snd e)" if h: "h \<in> set hs" for h
  proof
    assume "hm_get (bt_canonical t) h = Some (snd e)"
    then have "(h, snd e) \<in> set (bt_canonical t)"
      using om_entry [OF assms(1)] by blast
    then obtain hdr' where "entry_ok be cd t (h, snd e) hdr'"
      using linked_entries [OF assms(2)] by blast
    then have "h = fst e"
      using idx by (simp add: entry_ok_def)
    then show False using es(2) [OF e] h by simp
  qed
  then show "hm_get (bt_headers (fold step hs t)) (fst e) = hm_get (bt_headers t) (fst e)
      \<and> hm_get (bt_bodies (fold step hs t)) (fst e) = hm_get (bt_bodies t) (fst e)
      \<and> hm_get (bt_hash_index (fold step hs t)) (snd e) = hm_get (bt_hash_index t) (snd e)"
    using es(2) [OF e] by (simp add: removed_headers removed_bodies removed_index)
qed

text \<open>Cutting the chain at a height: everything above it, or everything below it, is removed.\<close>

lemma cut_above:
  assumes "om_wf (bt_canonical t)" "linked be cd t None (bt_canonical t)"
    and hs: "\<And>e. e \<in> set (bt_canonical t) \<Longrightarrow> fst e \<in> set hs \<longleftrightarrow> m < fst e"
  shows "linked be cd (fold step hs t) None (bt_canonical (fold step hs t))"
proof -
  let ?c = "bt_canonical t"
  have keep: "bt_canonical (fold step hs t) = filter (\<lambda>e. fst e \<le> m) ?c"
    unfolding removed_canonical by (rule filter_cong) (use hs in \<open>auto simp: not_less\<close>)
  have "linked be cd t None (filter (\<lambda>e. fst e \<le> m) ?c @ filter (\<lambda>e. m < fst e) ?c)"
    using assms(2) om_split_le [OF assms(1), of m] by simp
  then have "linked be cd t None (filter (\<lambda>e. fst e \<le> m) ?c)"
    unfolding linked_append by blast
  then show ?thesis
    unfolding keep by (subst kept_linked [OF assms(1,2)]) (use hs in \<open>auto simp: not_less\<close>)
qed

lemma cut_below:
  assumes "om_wf (bt_canonical t)" "linked be cd t None (bt_canonical t)"
    and hs: "\<And>e. e \<in> set (bt_canonical t) \<Longrightarrow> fst e \<in> set hs \<longleftrightarrow> fst e < m"
  shows "linked be cd (fold step hs t) None (bt_canonical (fold step hs t))"
proof -
  let ?c = "bt_canonical t"
  let ?lo = "filter (\<lambda>e. fst e < m) ?c" and ?hi = "filter (\<lambda>e. \<not> fst e < m) ?c"
  have keep: "bt_canonical (fold step hs t) = ?hi"
    unfolding removed_canonical by (rule filter_cong) (use hs in auto)
  have "linked be cd t None (?lo @ ?hi)"
    using assms(2) om_split [OF assms(1), of m] by simp
  then have tail: "linked be cd t (if ?lo = [] then None else Some (last ?lo)) ?hi"
    unfolding linked_append by blast
  have pos: "\<forall>e \<in> set ?hi. fst e \<noteq> 0" if lo: "?lo \<noteq> []"
  proof -
    obtain e where "e \<in> set ?lo" using lo list.set_sel(1) by blast
    then have "fst e < m" by simp
    then have "0 < m" by (rule le_less_trans [OF word_zero_le])
    then show ?thesis by auto
  qed
  have "linked be cd t None ?hi"
  proof (cases "?lo = []")
    case True
    then show ?thesis using tail by (simp only: if_True refl)
  next
    case False
    then show ?thesis using linked_no_prev [OF tail pos] by blast
  qed
  then show ?thesis
    unfolding keep by (subst kept_linked [OF assms(1,2)]) (use hs in auto)
qed

end

interpretation rev_rows: height_removal "revert_rows be cd" for be cd
  by unfold_locales simp_all

interpretation drop_rows: height_removal drop_block_rows
  by unfold_locales simp_all

subsection \<open>The invariant of the database\<close>

text \<open>The recorded height covers every canonical entry, and the chain passes its verification.\<close>

definition chain_inv :: "block_env \<Rightarrow> block_codec \<Rightarrow> block_db \<Rightarrow> bool" where
  "chain_inv be cd d \<longleftrightarrow> om_wf (bt_canonical d) \<and> linked be cd d None (bt_canonical d)
     \<and> (\<exists>l. latest_block_height d = Ok l \<and> (\<forall>e \<in> set (bt_canonical d). fst e \<le> l))"

definition extends_tip :: "block_db \<Rightarrow> u64 \<Rightarrow> hash32 \<Rightarrow> block_header \<Rightarrow> bool" where
  "extends_tip d h hash hdr \<longleftrightarrow>
     (if bt_canonical d = [] then h = 0 \<longrightarrow> bh_parent_hash hdr = 0
      else unat h = Suc (unat (fst (last (bt_canonical d)))) \<and> bh_parent_hash hdr = snd (last (bt_canonical d)))
   \<and> hash \<notin> snd ` set (bt_canonical d)"

lemma height_row_roundtrip [simp]: "of_le_bytes (le_bytes 8 (h :: u64)) = h"
  by (rule of_le_bytes_le_bytes) simp

lemma latest_put_metadata [simp]:
  "latest_block_height (put_metadata LATEST_BLOCK_HEIGHT_KEY (le_bytes 8 h) d) = Ok h"
  "k \<noteq> LATEST_BLOCK_HEIGHT_KEY \<Longrightarrow> latest_block_height (put_metadata k v d) = latest_block_height d"
  by (simp_all add: latest_block_height_def read_latest_height_metadata_def put_metadata_def get_metadata_def)

lemma metadata_keys [simp]:
  "FINALIZED_BLOCK_HEIGHT_KEY \<noteq> LATEST_BLOCK_HEIGHT_KEY" "SAFE_BLOCK_HEIGHT_KEY \<noteq> LATEST_BLOCK_HEIGHT_KEY"
  "LATEST_BLOCK_HEIGHT_KEY \<noteq> FINALIZED_BLOCK_HEIGHT_KEY" "SAFE_BLOCK_HEIGHT_KEY \<noteq> FINALIZED_BLOCK_HEIGHT_KEY"
  "FINALIZED_BLOCK_HEIGHT_KEY \<noteq> SAFE_BLOCK_HEIGHT_KEY"
  by (simp_all add: FINALIZED_BLOCK_HEIGHT_KEY_def LATEST_BLOCK_HEIGHT_KEY_def SAFE_BLOCK_HEIGHT_KEY_def)

lemma latest_reconcile [simp]:
  "latest_block_height (reconcile_latest_height_metadata h d) = Ok (case h of Some x \<Rightarrow> x | None \<Rightarrow> 0)"
  by (simp add: reconcile_latest_height_metadata_def split: option.split)
     (simp add: latest_block_height_def read_latest_height_metadata_def get_metadata_def)

lemma metadata_tables [simp]:
  "bt_headers (put_metadata k v d) = bt_headers d" "bt_bodies (put_metadata k v d) = bt_bodies d"
  "bt_canonical (put_metadata k v d) = bt_canonical d" "bt_hash_index (put_metadata k v d) = bt_hash_index d"
  by (simp_all add: put_metadata_def)

lemma reconcile_tables [simp]:
  "bt_headers (reconcile_latest_height_metadata h d) = bt_headers d"
  "bt_bodies (reconcile_latest_height_metadata h d) = bt_bodies d"
  "bt_canonical (reconcile_latest_height_metadata h d) = bt_canonical d"
  "bt_hash_index (reconcile_latest_height_metadata h d) = bt_hash_index d"
  by (simp_all add: reconcile_latest_height_metadata_def split: option.split)

lemma linked_tables:
  "bt_headers t = bt_headers t' \<Longrightarrow> bt_bodies t = bt_bodies t' \<Longrightarrow> bt_hash_index t = bt_hash_index t' \<Longrightarrow>
     linked be cd t prev es \<longleftrightarrow> linked be cd t' prev es"
  by (rule linked_cong) simp

lemma latest_tables:
  "bd_metadata d = bd_metadata d' \<Longrightarrow> latest_block_height d = latest_block_height d'"
  by (simp add: latest_block_height_def read_latest_height_metadata_def get_metadata_def)

text \<open>Indexing the transactions and receipts leaves the chain tables and the metadata alone.\<close>

lemma index_transactions_tables:
  "index_transactions be cd h xs t = Ok t' \<Longrightarrow>
     bt_headers t' = bt_headers t \<and> bt_bodies t' = bt_bodies t \<and> bt_canonical t' = bt_canonical t
   \<and> bt_hash_index t' = bt_hash_index t \<and> block_tables.more t' = block_tables.more t"
  by (induction be cd h xs t rule: index_transactions.induct) auto

lemma insert_receipts_tables:
  "insert_receipts cd xs t = Ok t' \<Longrightarrow>
     bt_headers t' = bt_headers t \<and> bt_bodies t' = bt_bodies t \<and> bt_canonical t' = bt_canonical t
   \<and> bt_hash_index t' = bt_hash_index t \<and> block_tables.more t' = block_tables.more t"
  by (induction cd xs t rule: insert_receipts.induct) auto

lemma update_latest:
  assumes "update_latest_height_metadata h d = Ok d'"
  shows "bt_headers d' = bt_headers d" "bt_bodies d' = bt_bodies d" "bt_canonical d' = bt_canonical d"
    "bt_hash_index d' = bt_hash_index d"
    "\<exists>l l'. latest_block_height d = Ok l \<and> latest_block_height d' = Ok l' \<and> l \<le> l' \<and> h \<le> l'"
proof -
  obtain cur where cur: "read_latest_height_metadata d = Ok cur"
    using assms by (auto simp: update_latest_height_metadata_def)
  have d': "d' = (if (case cur of Some c \<Rightarrow> c | None \<Rightarrow> 0) < h \<or> get_metadata LATEST_BLOCK_HEIGHT_KEY d = None
         then put_metadata LATEST_BLOCK_HEIGHT_KEY (le_bytes 8 h) d else d)"
    using assms cur by (simp add: update_latest_height_metadata_def)
  show "bt_headers d' = bt_headers d" "bt_bodies d' = bt_bodies d" "bt_canonical d' = bt_canonical d"
    "bt_hash_index d' = bt_hash_index d"
    by (simp_all add: d')
  have "get_metadata LATEST_BLOCK_HEIGHT_KEY d = None \<Longrightarrow> cur = None"
    using cur by (simp add: read_latest_height_metadata_def)
  then show "\<exists>l l'. latest_block_height d = Ok l \<and> latest_block_height d' = Ok l' \<and> l \<le> l' \<and> h \<le> l'"
    using cur by (auto simp: d' latest_block_height_def [of d] not_less split: option.splits)
qed

lemma decode_encoded:
  assumes "codec_ok cd"
  shows "cd_header_enc cd h = Some bs \<Longrightarrow> decode_header cd bs = Ok h"
    and "cd_body_enc cd b = Some bs \<Longrightarrow> decode_body cd bs = Ok b"
  using assms by (simp_all add: codec_ok_def decode_canonical_def)

text \<open>The effect of a successful \<open>store_canonical_block\<close> on the chain tables.\<close>

lemma store_canonical_block_Ok:
  assumes "store_canonical_block be cd io h hash hdr body d = (Ok (), d')"
  obtains hb bb where "canonical_checks be h hash hdr body = Ok ()"
    "cd_header_enc cd hdr = Some hb" "cd_body_enc cd body = Some bb"
    "bt_headers d' = om_insert h hb (bt_headers d)" "bt_bodies d' = om_insert h bb (bt_bodies d)"
    "bt_canonical d' = om_insert h hash (bt_canonical d)" "bt_hash_index d' = om_insert hash h (bt_hash_index d)"
    "\<exists>l l'. latest_block_height d = Ok l \<and> latest_block_height d' = Ok l' \<and> l \<le> l' \<and> h \<le> l'"
proof -
  obtain hb bb d1 d2 where *: "canonical_checks be h hash hdr body = Ok ()"
    "cd_header_enc cd hdr = Some hb" "cd_body_enc cd body = Some bb"
    "index_transactions be cd h (bb_transactions body) (put_block_rows h hash hb bb d) = Ok d1"
    "insert_receipts cd (bb_receipts body) d1 = Ok d2" "update_latest_height_metadata h d2 = Ok d'"
    using assms by (auto simp: store_canonical_block_def execute_write_def split: result.splits if_splits prod.splits)
  note u = update_latest [OF *(6)] and i = index_transactions_tables [OF *(4)] and r = insert_receipts_tables [OF *(5)]
  have "bd_metadata d2 = bd_metadata d"
  proof -
    have "block_tables.more d2 = block_tables.more d"
      using i r by (simp add: put_block_rows_def)
    then show ?thesis by (cases d2; cases d) simp
  qed
  then have "latest_block_height d2 = latest_block_height d" by (rule latest_tables)
  then show thesis
    using that [OF *(1-3)] u i r by (auto simp: put_block_rows_def)
qed

lemma execute_write_unchanged: "\<not> is_ok (fst (execute_write io f d)) \<Longrightarrow> snd (execute_write io f d) = d"
  by (auto simp: execute_write_def split: result.splits if_splits)

lemma append_inv:
  assumes "codec_ok cd" "chain_inv be cd d" "extends_tip d h hash hdr"
    "store_canonical_block be cd io h hash hdr body d = (Ok (), d')"
  shows "chain_inv be cd d'"
proof -
  obtain hb bb where st: "canonical_checks be h hash hdr body = Ok ()"
    "cd_header_enc cd hdr = Some hb" "cd_body_enc cd body = Some bb"
    "bt_headers d' = om_insert h hb (bt_headers d)" "bt_bodies d' = om_insert h bb (bt_bodies d)"
    "bt_canonical d' = om_insert h hash (bt_canonical d)" "bt_hash_index d' = om_insert hash h (bt_hash_index d)"
    "\<exists>l l'. latest_block_height d = Ok l \<and> latest_block_height d' = Ok l' \<and> l \<le> l' \<and> h \<le> l'"
    using store_canonical_block_Ok [OF assms(4)] .
  let ?c = "bt_canonical d"
  have wf: "om_wf ?c" and lk: "linked be cd d None ?c"
    using assms(2) by (auto simp: chain_inv_def)
  have less: "fst e < h" if "e \<in> set ?c" for e
  proof -
    have "?c \<noteq> []" using that by auto
    then have "fst e \<le> fst (last ?c)"
      using om_le_last [OF wf that] by simp
    moreover have "unat h = Suc (unat (fst (last ?c)))"
      using assms(3) \<open>?c \<noteq> []\<close> by (simp add: extends_tip_def)
    ultimately show ?thesis by (simp add: word_less_nat_alt word_le_nat_alt)
  qed
  have c': "bt_canonical d' = ?c @ [(h, hash)]"
    unfolding st(6) by (rule om_insert_last) (rule less)
  have "linked be cd d' None ?c \<longleftrightarrow> linked be cd d None ?c"
  proof (rule linked_cong)
    fix e assume e: "e \<in> set ?c"
    have "fst e \<noteq> h" "snd e \<noteq> hash"
      using less [OF e] assms(3) e by (auto simp: extends_tip_def)
    then show "hm_get (bt_headers d') (fst e) = hm_get (bt_headers d) (fst e)
      \<and> hm_get (bt_bodies d') (fst e) = hm_get (bt_bodies d) (fst e)
      \<and> hm_get (bt_hash_index d') (snd e) = hm_get (bt_hash_index d) (snd e)"
      by (simp add: st)
  qed
  moreover have "entry_ok be cd d' (h, hash) hdr"
    using st(1) decode_encoded(1) [OF assms(1) st(2)] decode_encoded(2) [OF assms(1) st(3)]
    by (auto simp: entry_ok_def st(4,5,7) canonical_checks_def)
  moreover have "link_ok (if ?c = [] then None else Some (last ?c)) (h, hash) hdr"
  proof -
    have "h = fst (last ?c) + 1" if "unat h = Suc (unat (fst (last ?c)))"
      using arg_cong [OF that, of "of_nat :: nat \<Rightarrow> u64"] by (simp add: add.commute)
    then show ?thesis
      using assms(3) by (auto simp: extends_tip_def link_ok_def)
  qed
  ultimately have "linked be cd d' None (bt_canonical d')"
    unfolding c' linked_append using lk by auto
  moreover have "om_wf (bt_canonical d')"
    unfolding st(6) using wf by simp
  moreover have "\<exists>l. latest_block_height d' = Ok l \<and> (\<forall>e \<in> set (bt_canonical d'). fst e \<le> l)"
  proof -
    obtain l l' where l: "latest_block_height d = Ok l" "latest_block_height d' = Ok l'" "h \<le> l'"
      using st(8) by blast
    have "fst e \<le> l'" if "e \<in> set ?c" for e
      using less_le_trans [OF less [OF that] l(3)] by simp
    then show ?thesis
      using l by (auto simp: c')
  qed
  ultimately show ?thesis by (simp add: chain_inv_def)
qed


lemma set_reverted_heights:
  "target < current \<Longrightarrow> set (reverted_heights target current) = {h. target < h \<and> h \<le> current}"
proof -
  have "h \<in> of_nat ` {n. unat target < n \<and> n \<le> unat current}" if "target < h" "h \<le> current" for h :: u64
    using that by (intro image_eqI [of _ _ "unat h"]) (simp_all add: word_less_nat_alt word_le_nat_alt)
  moreover have "target < of_nat n \<and> of_nat n \<le> current" if "unat target < n" "n \<le> unat current" for n
  proof -
    have "unat (of_nat n :: u64) = n"
      using that(2) unat_bound [of current] by (simp add: unsigned_of_nat take_bit_nat_eq_self)
    then show ?thesis using that by (simp add: word_less_nat_alt word_le_nat_alt)
  qed
  ultimately show ?thesis
    by (force simp: reverted_heights_def less_Suc_eq_le Suc_le_eq)
qed

text \<open>Cutting the canonical chain keeps the invariant, whatever height is recorded above the rest.\<close>

lemma chain_inv_reconcile:
  "om_wf (bt_canonical d) \<Longrightarrow> linked be cd d None (bt_canonical d) \<Longrightarrow>
   (\<And>e. e \<in> set (bt_canonical d) \<Longrightarrow> fst e \<le> (case h of Some x \<Rightarrow> x | None \<Rightarrow> 0)) \<Longrightarrow>
     chain_inv be cd (reconcile_latest_height_metadata h d)"
  using linked_tables [of "reconcile_latest_height_metadata h d" d]
  by (auto simp: chain_inv_def)

lemma chain_invD:
  assumes "chain_inv be cd d"
  shows "om_wf (bt_canonical d)" "linked be cd d None (bt_canonical d)"
    and "latest_block_height d = Ok l \<Longrightarrow> e \<in> set (bt_canonical d) \<Longrightarrow> fst e \<le> l"
  using assms by (auto simp: chain_inv_def)

lemma entry_header:
  assumes "chain_inv be cd d" "(h, hash) \<in> set (bt_canonical d)"
  shows "hm_get (bt_headers d) h \<noteq> None"
  using linked_entries [OF chain_invD(2) [OF assms(1)] assms(2)] by (auto simp: entry_ok_def)

lemma revert_to_rows_inv:
  assumes "chain_inv be cd d" "latest_block_height d = Ok current" "target < current"
  defines "d1 \<equiv> fold (revert_rows be cd) (reverted_heights target current) d"
  shows "chain_inv be cd (reconcile_latest_height_metadata
           (if 0 < target \<or> hm_get (bt_headers d1) 0 \<noteq> None then Some target else None) d1)"
proof (rule chain_inv_reconcile)
  let ?hs = "reverted_heights target current"
  note inv = chain_invD [OF assms(1)]
  have cut: "fst e \<in> set ?hs \<longleftrightarrow> target < fst e" if "e \<in> set (bt_canonical d)" for e
    using inv(3) [OF assms(2) that] by (simp add: set_reverted_heights [OF assms(3)])
  show "om_wf (bt_canonical d1)"
    unfolding d1_def rev_rows.removed_canonical by (intro om_wf_filter inv(1))
  show "linked be cd d1 None (bt_canonical d1)"
    unfolding d1_def by (rule rev_rows.cut_above [OF inv(1,2)]) (rule cut)
  fix e assume e: "e \<in> set (bt_canonical d1)"
  then have "e \<in> set (bt_canonical d)" "fst e \<notin> set ?hs"
    unfolding d1_def rev_rows.removed_canonical by auto
  then have le: "fst e \<le> target"
    using cut [of e] by (simp add: not_less)
  have "hm_get (bt_headers d1) (fst e) \<noteq> None"
    using entry_header [OF assms(1), of "fst e" "snd e"] \<open>e \<in> set (bt_canonical d)\<close> \<open>fst e \<notin> set ?hs\<close>
    by (simp add: d1_def rev_rows.removed_headers)
  then show "fst e \<le> (case if 0 < target \<or> hm_get (bt_headers d1) 0 \<noteq> None then Some target else None of Some x \<Rightarrow> x | None \<Rightarrow> 0)"
    using le by (cases "fst e = 0") (auto simp: word_neq_0_conv)
qed

lemma revert_tip_rows_inv:
  assumes "chain_inv be cd d" "bt_canonical d \<noteq> []"
  defines "h \<equiv> fst (last (bt_canonical d))"
  shows "chain_inv be cd (reconcile_latest_height_metadata (if 0 < h then Some (h - 1) else None) (revert_rows be cd h d))"
proof (rule chain_inv_reconcile)
  note inv = chain_invD [OF assms(1)]
  have "last (bt_canonical d) \<in> set (bt_canonical d)" using assms(2) by simp
  have lt: "e \<in> set (bt_canonical d) \<Longrightarrow> fst e \<noteq> h \<Longrightarrow> fst e < h" for e
    using om_le_last [OF inv(1), of e] by (simp add: h_def)
  have le: "fst e \<le> (if 0 < h then h - 1 else 0)" if "e \<in> set (bt_canonical d)" "fst e \<noteq> h" for e
  proof -
    have "fst e < h" using lt that by blast
    moreover have "h \<noteq> 0" using \<open>fst e < h\<close> by auto
    ultimately show ?thesis
      using unat_minus_one [of h] by (auto simp: word_less_nat_alt word_le_nat_alt)
  qed
  have r: "revert_rows be cd h d = fold (revert_rows be cd) [h] d" by simp
  show "om_wf (bt_canonical (revert_rows be cd h d))"
    using inv(1) by simp
  have mem: "fst e \<in> set [h] \<longleftrightarrow> (if 0 < h then h - 1 < fst e else True)" if "e \<in> set (bt_canonical d)" for e
  proof (cases "fst e = h")
    case True
    have "h - 1 < h" if "0 < h"
    proof -
      have "h \<noteq> 0" using that by auto
      then show ?thesis
        using unat_minus_one [of h] unat_gt_0 [of h] by (simp add: word_less_nat_alt)
    qed
    then show ?thesis using True by simp
  next
    case False
    have "0 < h" using lt [OF that False] by (rule le_less_trans [OF word_zero_le])
    then show ?thesis using le [OF that False] False by (simp add: not_less)
  qed
  show "linked be cd (revert_rows be cd h d) None (bt_canonical (revert_rows be cd h d))"
  proof (cases "0 < h")
    case True
    show ?thesis
      unfolding r by (rule rev_rows.cut_above [OF inv(1,2), of _ "h - 1"]) (use mem True in simp)
  next
    case False
    then have "bt_canonical (revert_rows be cd h d) = []"
      using mem unfolding r rev_rows.removed_canonical by (auto simp: filter_empty_conv)
    then show ?thesis by simp
  qed
  fix e assume "e \<in> set (bt_canonical (revert_rows be cd h d))"
  then have "e \<in> set (bt_canonical d)" "fst e \<noteq> h"
    unfolding r rev_rows.removed_canonical by auto
  then show "fst e \<le> (case if 0 < h then Some (h - 1) else None of Some x \<Rightarrow> x | None \<Rightarrow> 0)"
    using le [of e] by (simp split: if_splits)
qed

lemma prune_rows_inv:
  assumes "chain_inv be cd d" "latest_block_height d = Ok l"
  shows "chain_inv be cd (reconcile_latest_height_metadata (if h \<le> l then Some l else None)
           (fold drop_block_rows (prune_heights h d) d))"
proof (rule chain_inv_reconcile)
  let ?hs = "prune_heights h d"
  note inv = chain_invD [OF assms(1)]
  have cut: "fst e \<in> set ?hs \<longleftrightarrow> fst e < h" if "e \<in> set (bt_canonical d)" for e
  proof -
    have "hm_get (bt_headers d) (fst e) \<noteq> None"
      using entry_header [OF assms(1), of "fst e" "snd e"] that by simp
    then have "fst e \<in> fst ` set (bt_headers d)"
      by (simp add: map_of_eq_None_iff)
    then show ?thesis by (auto simp: prune_heights_def)
  qed
  show "om_wf (bt_canonical (fold drop_block_rows ?hs d))"
    unfolding drop_rows.removed_canonical by (intro om_wf_filter inv(1))
  show "linked be cd (fold drop_block_rows ?hs d) None (bt_canonical (fold drop_block_rows ?hs d))"
    by (rule drop_rows.cut_below [OF inv(1,2)]) (rule cut)
  fix e assume "e \<in> set (bt_canonical (fold drop_block_rows ?hs d))"
  then have "e \<in> set (bt_canonical d)" "fst e \<notin> set ?hs"
    unfolding drop_rows.removed_canonical by auto
  then have "h \<le> fst e" "fst e \<le> l"
    using cut inv(3) [OF assms(2)] by (auto simp: not_less)
  then show "fst e \<le> (case if h \<le> l then Some l else None of Some x \<Rightarrow> x | None \<Rightarrow> 0)"
    by auto
qed

subsection \<open>Reachable databases\<close>

text \<open>
  The steps of a node: appending a block to the tip, rolling back to a height or by one block, pruning,
  recording finality, and storing fork blocks; each of them may fail. A canonical block is only ever
  stored with a hash that is not canonical yet.
\<close>

inductive chain_step :: "block_env \<Rightarrow> block_codec \<Rightarrow> block_db \<Rightarrow> block_db \<Rightarrow> bool" for be cd where
  append_step: "extends_tip d h hash hdr \<Longrightarrow> chain_step be cd d (snd (store_canonical_block be cd io h hash hdr body d))"
| revert_to_step: "chain_step be cd d (snd (revert_blocks_to be cd io target d))"
| revert_tip_step: "bt_canonical d \<noteq> [] \<Longrightarrow> chain_step be cd d (snd (revert_block be cd io (fst (last (bt_canonical d))) d))"
| prune_step: "chain_step be cd d (snd (prune_blocks_before io h d))"
| finalize_step: "chain_step be cd d (snd (set_finalized_height io h hash d))"
| safe_step: "chain_step be cd d (snd (set_safe_height io h d))"
| fork_step: "chain_step be cd d (snd (store_fork_block cd io hash hdr body d))"

definition block_db_new :: block_db where
  "block_db_new = \<lparr>bt_headers = [], bt_bodies = [], bt_hash_index = [], bt_canonical = [], bt_forks = [], bt_finalized = [],
     bt_bloom = [], bt_transactions = [], bt_tx_index = [], bt_receipts = [], bt_zk = [], bt_val_sets = [], bd_metadata = []\<rparr>"

lemma execute_write_cases:
  "snd (execute_write io f d) = d \<or> (\<exists>x d'. f d = Ok (x, d') \<and> execute_write io f d = (Ok x, d'))"
  by (auto simp: execute_write_def split: result.splits if_splits)

lemma chain_inv_metadata:
  "k \<noteq> LATEST_BLOCK_HEIGHT_KEY \<Longrightarrow> chain_inv be cd d \<Longrightarrow> chain_inv be cd (put_metadata k v d)"
  using linked_tables [of "put_metadata k v d" d] by (auto simp: chain_inv_def)

lemma chain_inv_other_tables:
  "chain_inv be cd (d\<lparr>bt_finalized := x\<rparr>) = chain_inv be cd d" "chain_inv be cd (d\<lparr>bt_forks := y\<rparr>) = chain_inv be cd d"
  using linked_tables [of "d\<lparr>bt_finalized := x\<rparr>" d] linked_tables [of "d\<lparr>bt_forks := y\<rparr>" d]
    latest_tables [of "d\<lparr>bt_finalized := x\<rparr>" d] latest_tables [of "d\<lparr>bt_forks := y\<rparr>" d]
  by (auto simp: chain_inv_def)

lemma chain_step_inv:
  assumes "chain_step be cd d d'" "codec_ok cd" "chain_inv be cd d"
  shows "chain_inv be cd d'"
  using assms(1)
proof cases
  case (append_step h hash hdr io body)
  show ?thesis
  proof (cases "store_canonical_block be cd io h hash hdr body d")
    case (Pair r d'')
    show ?thesis
    proof (cases "is_ok r")
      case True
      then have "store_canonical_block be cd io h hash hdr body d = (Ok (), d'')"
        using Pair by (auto simp: is_ok_iff)
      then show ?thesis
        using append_inv [OF assms(2,3) append_step(2)] append_step(1) by simp
    next
      case False
      then have "snd (store_canonical_block be cd io h hash hdr body d) = d"
        using Pair unfolding store_canonical_block_def by (intro execute_write_unchanged) simp
      then show ?thesis
        using append_step(1) assms(3) by simp
    qed
  qed
next
  case (revert_to_step io target)
  show ?thesis
  proof (cases "latest_block_height d")
    case (Ok current)
    show ?thesis
      using revert_to_step revert_to_rows_inv [OF assms(3) Ok, of target] assms(3) Ok
      by (auto simp: revert_blocks_to_def execute_write_def Let_def split: option.splits)
  qed (use revert_to_step assms(3) in \<open>simp add: revert_blocks_to_def\<close>)
next
  case (revert_tip_step io)
  show ?thesis
    using revert_tip_rows_inv [OF assms(3) revert_tip_step(2)] revert_tip_step assms(3)
    by (auto simp: revert_block_def execute_write_def split: option.splits)
next
  case (prune_step io h)
  show ?thesis
  proof (cases "then_ok (prune_guard (get_finalized_height d) h) (\<lambda>_. latest_block_height d)")
    case (Ok l)
    then have "latest_block_height d = Ok l" by auto
    then show ?thesis
      using prune_rows_inv [OF assms(3), of l h] prune_step assms(3) Ok
      by (auto simp: prune_blocks_before_def execute_write_def)
  qed (use prune_step assms(3) in \<open>simp add: prune_blocks_before_def\<close>)
next
  case (finalize_step io h hash)
  then show ?thesis
    using assms(3) by (auto simp: set_finalized_height_def execute_write_def chain_inv_other_tables intro: chain_inv_metadata)
next
  case (safe_step io h)
  then show ?thesis
    using assms(3) by (auto simp: set_safe_height_def execute_write_def intro: chain_inv_metadata)
next
  case (fork_step io hash hdr body)
  then show ?thesis
    using assms(3) by (auto simp: store_fork_block_def execute_write_def chain_inv_other_tables split: result.splits)
qed

lemma reachable_chain_inv:
  "(chain_step be cd)\<^sup>*\<^sup>* block_db_new d \<Longrightarrow> codec_ok cd \<Longrightarrow> chain_inv be cd d"
proof (induction rule: rtranclp_induct)
  case base
  show ?case
    by (simp add: chain_inv_def block_db_new_def latest_block_height_def read_latest_height_metadata_def get_metadata_def)
next
  case (step y z)
  then show ?case using chain_step_inv by blast
qed

lemma canonical_read:
  assumes "chain_inv be cd d" "(h, hash) \<in> set (bt_canonical d)"
  shows "\<exists>hdr body. get_block_by_hash cd hash d = Ok (Some (hdr, body)) \<and> header_hash be hdr = Ok hash \<and> bh_height hdr = h
     \<and> compute_tx_root be body = Ok (bh_tx_root hdr) \<and> compute_receipt_root be body = Ok (bh_receipts_root hdr)"
proof -
  obtain hdr where "entry_ok be cd d (h, hash) hdr"
    using linked_entries [OF chain_invD(2) [OF assms(1)] assms(2)] by blast
  moreover have "hm_get (bt_canonical d) h = Some hash"
    using om_entry [OF chain_invD(1) [OF assms(1)]] assms(2) by blast
  ultimately show ?thesis
    by (auto simp: entry_ok_def get_block_by_hash_def is_canonical_block_def get_block_by_height_def
        get_block_header_def get_block_body_def map_ok_def)
qed

section \<open>Properties of the block store\<close>

text \<open>
  C3: the stored chain stays sound. In every database that is reached from an empty one by appending
  blocks to the tip, rolling back, pruning, recording finality and storing fork blocks, with failing
  transactions anywhere, the integrity check of the chain passes, and reading a canonical hash returns a
  block that has this hash and height and whose roots commit to its body.
\<close>

theorem stored_chain_sound:
  assumes "codec_ok cd" "(chain_step be cd)\<^sup>*\<^sup>* block_db_new d"
  shows "check_chain_invariants be cd d = Ok True
     \<and> (\<forall>h hash. is_canonical_block h hash d \<longrightarrow>
          (\<exists>hdr body. get_block_by_hash cd hash d = Ok (Some (hdr, body)) \<and> header_hash be hdr = Ok hash \<and> bh_height hdr = h
             \<and> compute_tx_root be body = Ok (bh_tx_root hdr) \<and> compute_receipt_root be body = Ok (bh_receipts_root hdr)))"
proof -
  note inv = reachable_chain_inv [OF assms(2,1)]
  have "check_chain_invariants be cd d = Ok True"
    using chain_invD(2) [OF inv] by (simp add: check_chain_iff)
  moreover have "(h, hash) \<in> set (bt_canonical d)" if "is_canonical_block h hash d" for h hash
    using that om_entry [OF chain_invD(1) [OF inv]] by (simp add: is_canonical_block_def)
  ultimately show ?thesis
    using canonical_read [OF inv] by blast
qed

text \<open>A codec for two blocks of one transaction each.\<close>

definition toy_header2 :: block_header where
  "toy_header2 = toy_header\<lparr>bh_height := 2, bh_parent_hash := 2\<rparr>"

definition toy_codec :: block_codec where
  "toy_codec =
     \<lparr>cd_header_enc = (\<lambda>h. if h = toy_header then Some [1] else if h = toy_header2 then Some [2] else None),
      cd_header_dec = (\<lambda>bs. if bs = [1] then Some toy_header else if bs = [2] then Some toy_header2 else None),
      cd_header_legacy = (\<lambda>_. None),
      cd_body_enc = (\<lambda>b. if b = toy_body then Some [3] else None),
      cd_body_dec = (\<lambda>bs. if bs = [3] then Some toy_body else None), cd_body_legacy = (\<lambda>_. None),
      cd_tx_enc = (\<lambda>_. Some [4]), cd_receipt_enc = (\<lambda>_. Some [5]),
      cd_pair_enc = (\<lambda>_. None), cd_pair_dec = (\<lambda>_. None), cd_fork_legacy = (\<lambda>_. None)\<rparr>"

lemma toy_codec_ok: "codec_ok toy_codec"
  by (auto simp: codec_ok_def toy_codec_def split: if_splits)

lemma toy_hash: "header_hash toy_block_env toy_header = Ok 2" "header_hash toy_block_env toy_header2 = Ok 3"
  by (simp_all add: header_hash_def toy_block_env_def toy_tx_env_def toy_crypto_def toy_header2_def toy_header_def header_new_def
      of_be_bytes_def of_le_bytes_code)

lemma toy_checks:
  "canonical_checks toy_block_env 1 2 toy_header toy_body = Ok ()"
  "canonical_checks toy_block_env 2 3 toy_header2 toy_body = Ok ()"
  by (simp_all add: canonical_checks_def toy_hash toy_body_facts)
     (simp_all add: toy_header2_def toy_header_def header_new_def)

definition toy_db1 :: block_db where
  "toy_db1 = snd (store_canonical_block toy_block_env toy_codec IoOk 1 2 toy_header toy_body block_db_new)"

definition toy_db2 :: block_db where
  "toy_db2 = snd (store_canonical_block toy_block_env toy_codec IoOk 2 3 toy_header2 toy_body toy_db1)"

lemma toy_enc:
  "cd_header_enc toy_codec toy_header = Some [1]" "cd_header_enc toy_codec toy_header2 = Some [2]"
  "cd_body_enc toy_codec toy_body = Some [3]" "cd_tx_enc toy_codec x = Some [4]" "cd_receipt_enc toy_codec r = Some [5]"
proof -
  have "bh_height toy_header2 \<noteq> bh_height toy_header"
    by (simp add: toy_header2_def toy_header_def header_new_def)
  then show "cd_header_enc toy_codec toy_header = Some [1]" "cd_header_enc toy_codec toy_header2 = Some [2]"
    "cd_body_enc toy_codec toy_body = Some [3]" "cd_tx_enc toy_codec x = Some [4]" "cd_receipt_enc toy_codec r = Some [5]"
    by (auto simp: toy_codec_def)
qed

lemma toy_db1_eq:
  "toy_db1 = block_db_new\<lparr>bt_headers := [(1, [1])], bt_bodies := [(1, [3])], bt_hash_index := [(2, 1)], bt_canonical := [(1, 2)],
     bt_transactions := [(4, [4])], bt_tx_index := [(4, 1)], bt_receipts := [(4, [5])],
     bd_metadata := [(LATEST_BLOCK_HEIGHT_KEY, le_bytes 8 (1 :: u64))]\<rparr>"
proof -
  have tx: "tx_hash (be_tx toy_block_env) toy_eth_tx = Ok 4"
    using toy_eth_tx_facts by (simp add: toy_block_env_def)
  show ?thesis
    by (simp add: toy_db1_def store_canonical_block_def execute_write_def toy_checks toy_enc)
       (simp add: toy_body_def tx toy_enc put_block_rows_def block_db_new_def update_latest_height_metadata_def
        read_latest_height_metadata_def get_metadata_def put_metadata_def new_success_def del: le_bytes.simps)
qed

lemma toy_db2_eq:
  "toy_db2 = block_db_new\<lparr>bt_headers := [(1, [1]), (2, [2])], bt_bodies := [(1, [3]), (2, [3])], bt_hash_index := [(2, 1), (3, 2)],
     bt_canonical := [(1, 2), (2, 3)], bt_transactions := [(4, [4])], bt_tx_index := [(4, 2)], bt_receipts := [(4, [5])],
     bd_metadata := [(LATEST_BLOCK_HEIGHT_KEY, le_bytes 8 (2 :: u64))]\<rparr>"
proof -
  have tx: "tx_hash (be_tx toy_block_env) toy_eth_tx = Ok 4"
    using toy_eth_tx_facts by (simp add: toy_block_env_def)
  show ?thesis
    by (simp add: toy_db2_def toy_db1_eq store_canonical_block_def execute_write_def toy_checks toy_enc)
       (simp add: toy_body_def tx toy_enc put_block_rows_def block_db_new_def update_latest_height_metadata_def
        read_latest_height_metadata_def get_metadata_def put_metadata_def new_success_def del: le_bytes.simps)
qed

lemma toy_reachable: "(chain_step toy_block_env toy_codec)\<^sup>*\<^sup>* block_db_new toy_db2"
proof -
  have "extends_tip block_db_new 1 2 toy_header"
    by (simp add: extends_tip_def block_db_new_def)
  then have "chain_step toy_block_env toy_codec block_db_new toy_db1"
    unfolding toy_db1_def by (rule append_step)
  moreover have "extends_tip toy_db1 2 3 toy_header2"
    by (simp add: extends_tip_def toy_db1_eq toy_header2_def)
  then have "chain_step toy_block_env toy_codec toy_db1 toy_db2"
    unfolding toy_db2_def by (rule append_step)
  ultimately show ?thesis by auto
qed

theorem stored_chain_sound_witness:
  "codec_ok toy_codec \<and> (chain_step toy_block_env toy_codec)\<^sup>*\<^sup>* block_db_new toy_db2 \<and> is_canonical_block 2 3 toy_db2
     \<and> check_chain_invariants toy_block_env toy_codec toy_db2 = Ok True
     \<and> (\<exists>hdr body. get_block_by_hash toy_codec 3 toy_db2 = Ok (Some (hdr, body)) \<and> header_hash toy_block_env hdr = Ok 3)"
proof -
  have "is_canonical_block 2 3 toy_db2"
    by (simp add: is_canonical_block_def toy_db2_eq)
  then show ?thesis
    using stored_chain_sound [OF toy_codec_ok toy_reachable] toy_codec_ok toy_reachable by blast
qed

subsection \<open>Finality\<close>



text \<open>The rows of a height and the recorded finality are the same in two databases.\<close>

definition same_finalized :: "u64 \<Rightarrow> block_db \<Rightarrow> block_db \<Rightarrow> bool" where
  "same_finalized f d d' \<longleftrightarrow> get_finalized_height d' = get_finalized_height d
     \<and> hm_get (bt_headers d') f = hm_get (bt_headers d) f \<and> hm_get (bt_bodies d') f = hm_get (bt_bodies d) f
     \<and> hm_get (bt_canonical d') f = hm_get (bt_canonical d) f"


lemma same_finalized_refl [simp]: "same_finalized f d d"
  by (simp add: same_finalized_def)







text \<open>
  Reverting a block above the tip raises the recorded height: with the recorded height 5 and no
  finality, reverting the block 100, which is not there, succeeds and records 99. The in-memory backend
  keeps its height.
\<close>

definition mem_blocks_at :: "u64 \<Rightarrow> mem_blocks" where
  "mem_blocks_at h = \<lparr>bt_headers = [], bt_bodies = [], bt_hash_index = [], bt_canonical = [], bt_forks = [], bt_finalized = [],
     bt_bloom = [], bt_transactions = [], bt_tx_index = [], bt_receipts = [], bt_zk = [], bt_val_sets = [],
     mk_height = h, mk_finalized_height = 0, mk_safe_height = 0\<rparr>"

theorem revert_can_raise_height:
  "let d = put_metadata LATEST_BLOCK_HEIGHT_KEY (le_bytes 8 (5 :: u64)) block_db_new
   in latest_block_height d = Ok 5 \<and> fst (revert_block be cd IoOk 100 d) = Ok ()
    \<and> latest_block_height (snd (revert_block be cd IoOk 100 d)) = Ok 99
    \<and> mk_height (snd (mem_revert_block be cd 100 (mem_blocks_at 5))) = 5"
proof -
  have "get_finalized_height (put_metadata LATEST_BLOCK_HEIGHT_KEY (le_bytes 8 (5 :: u64)) block_db_new) = None"
    by (simp add: get_finalized_height_def read_height_row_def get_metadata_def put_metadata_def block_db_new_def)
  then show ?thesis
    by (simp add: Let_def revert_block_def execute_write_def)
       (simp add: mem_revert_block_def mem_get_finalized_height_def mem_blocks_at_def revert_rows_def drop_block_rows_def unindex_body_def)
qed

end
