(* ===== verification/Staking.thy ===== *)
theory Staking
  imports StateStore Validator
begin

text \<open>
  Staking and uptime of the validators (\<open>consensus/pos/staking.rs\<close>, \<open>consensus/pos/uptime.rs\<close>): deposits and
  delegations with their lock-up, slashing and rewards, and the persistence of all of it in the state
  table of the storage engine, with the restart that reads it back.
\<close>

section \<open>State\<close>

definition DEFAULT_LOCKUP_PERIOD_EPOCHS :: u64 where
  "DEFAULT_LOCKUP_PERIOD_EPOCHS = 7"

definition MIN_VALIDATOR_STAKE :: u64 where
  "MIN_VALIDATOR_STAKE = 10000"

record stake =
  stk_validator :: address
  stk_amount :: u256

record staking =
  sk_stakes :: "(address, stake) hashmap"
  sk_delegations :: "(address \<times> address, u256) hashmap"
  sk_deposit_epochs :: "(address, u64) hashmap"
  sk_delegation_epochs :: "(address \<times> address, u64) hashmap"
  sk_current_epoch :: u64
  sk_lockup_epochs :: u64
  sk_fully_restored :: bool

datatype staking_error =
    ZeroAmount
  | BelowMinimum u256
  | NoStake address
  | StillLocked u64 u64 u64
  | InsufficientStake address
  | NoDelegation address
  | InsufficientDelegation u256 u256
  | StakingStorage storage_error
  | StakingDecode

definition staking_new :: staking where
  "staking_new = \<lparr>sk_stakes = [], sk_delegations = [], sk_deposit_epochs = [], sk_delegation_epochs = [],
     sk_current_epoch = 0, sk_lockup_epochs = DEFAULT_LOCKUP_PERIOD_EPOCHS, sk_fully_restored = False\<rparr>"

definition lockup_period :: "staking \<Rightarrow> u64" where
  "lockup_period s = sk_lockup_epochs s"

definition get_stake :: "staking \<Rightarrow> address \<Rightarrow> u256" where
  "get_stake s a = (case hm_get (sk_stakes s) a of Some st \<Rightarrow> stk_amount st | None \<Rightarrow> 0)"

definition sk_voting_power :: "staking \<Rightarrow> address \<Rightarrow> u64" where
  "sk_voting_power s a =
     (case hm_get (sk_stakes s) a of Some st \<Rightarrow> calculate_voting_power (stk_amount st) | None \<Rightarrow> 0)"

section \<open>Operations in memory\<close>

text \<open>
  Each operation changes the maps and then persists them. These are the changes of the maps; every
  error is raised before the first of them.
\<close>

definition entry_amount :: "staking \<Rightarrow> address \<Rightarrow> stake" where
  "entry_amount s a = (case hm_get (sk_stakes s) a of Some st \<Rightarrow> st | None \<Rightarrow> \<lparr>stk_validator = a, stk_amount = 0\<rparr>)"

definition add_stake :: "address \<Rightarrow> u256 \<Rightarrow> staking \<Rightarrow> staking" where
  "add_stake a amount s =
     (let st = entry_amount s a
      in s\<lparr>sk_stakes := hm_insert a (st\<lparr>stk_amount := sat_add (stk_amount st) amount\<rparr>) (sk_stakes s)\<rparr>)"

text \<open>Lowering an entry; at zero the entry and its deposit epoch are removed.\<close>

definition set_stake :: "address \<Rightarrow> stake \<Rightarrow> u256 \<Rightarrow> staking \<Rightarrow> staking" where
  "set_stake a st amount s =
     (if amount = 0 then s\<lparr>sk_stakes := hm_remove a (sk_stakes s), sk_deposit_epochs := hm_remove a (sk_deposit_epochs s)\<rparr>
      else s\<lparr>sk_stakes := hm_insert a (st\<lparr>stk_amount := amount\<rparr>) (sk_stakes s)\<rparr>)"

definition stake_tokens_mem :: "address \<Rightarrow> u256 \<Rightarrow> staking \<Rightarrow> (staking, staking_error) result" where
  "stake_tokens_mem v amount s =
     (if amount = 0 then Err ZeroAmount
      else if amount < ucast MIN_VALIDATOR_STAKE then Err (BelowMinimum amount)
      else Ok (add_stake v amount (s\<lparr>sk_deposit_epochs := hm_insert v (sk_current_epoch s) (sk_deposit_epochs s)\<rparr>)))"

definition unstake_tokens_mem :: "address \<Rightarrow> u256 \<Rightarrow> staking \<Rightarrow> (staking, staking_error) result" where
  "unstake_tokens_mem v amount s =
     (if amount = 0 then Err ZeroAmount
      else case hm_get (sk_deposit_epochs s) v of
          None \<Rightarrow> Err (NoStake v)
        | Some deposit_epoch \<Rightarrow>
            (let unlock_epoch = sat_add deposit_epoch (lockup_period s) in
             if sk_current_epoch s < unlock_epoch then Err (StillLocked unlock_epoch (sk_current_epoch s) deposit_epoch)
             else case hm_get (sk_stakes s) v of
                 None \<Rightarrow> Err (NoStake v)
               | Some st \<Rightarrow>
                   (if stk_amount st < amount then Err (InsufficientStake v)
                    else Ok (set_stake v st (stk_amount st - amount) s))))"

definition delegate_stake_mem :: "address \<Rightarrow> address \<Rightarrow> u256 \<Rightarrow> staking \<Rightarrow> (staking, staking_error) result" where
  "delegate_stake_mem d v amount s =
     (if amount = 0 then Err ZeroAmount
      else
        (let s1 = add_stake v amount (s\<lparr>sk_delegation_epochs := hm_insert (d, v) (sk_current_epoch s) (sk_delegation_epochs s)\<rparr>);
             old = (case hm_get (sk_delegations s1) (d, v) of Some x \<Rightarrow> x | None \<Rightarrow> 0)
         in Ok (s1\<lparr>sk_delegations := hm_insert (d, v) (sat_add old amount) (sk_delegations s1)\<rparr>)))"

definition slash_validator_mem :: "address \<Rightarrow> u256 \<Rightarrow> staking \<Rightarrow> (staking, staking_error) result" where
  "slash_validator_mem v amount s =
     (case hm_get (sk_stakes s) v of
        None \<Rightarrow> Err (NoStake v)
      | Some st \<Rightarrow> Ok (set_stake v st (sat_sub (stk_amount st) amount) s))"

definition undelegate_stake_mem :: "address \<Rightarrow> address \<Rightarrow> u256 \<Rightarrow> staking \<Rightarrow> (staking, staking_error) result" where
  "undelegate_stake_mem d v amount s =
     (if amount = 0 then Err ZeroAmount
      else case hm_get (sk_delegation_epochs s) (d, v) of
          None \<Rightarrow> Err (NoDelegation d)
        | Some deposit_epoch \<Rightarrow>
            (let unlock_epoch = sat_add deposit_epoch (lockup_period s) in
             if sk_current_epoch s < unlock_epoch then Err (StillLocked unlock_epoch (sk_current_epoch s) deposit_epoch)
             else case hm_get (sk_delegations s) (d, v) of
                 None \<Rightarrow> Err (NoDelegation d)
               | Some delegated \<Rightarrow>
                   (if delegated < amount then Err (InsufficientDelegation delegated amount)
                    else case hm_get (sk_stakes s) v of
                        None \<Rightarrow> Err (NoStake v)
                      | Some st \<Rightarrow>
                          (if stk_amount st < amount then Err (InsufficientStake v)
                           else
                             (let left = sat_sub delegated amount;
                                  s1 = (if left = 0
                                        then s\<lparr>sk_delegations := hm_remove (d, v) (sk_delegations s),
                                               sk_delegation_epochs := hm_remove (d, v) (sk_delegation_epochs s)\<rparr>
                                        else s\<lparr>sk_delegations := hm_insert (d, v) left (sk_delegations s)\<rparr>)
                              in Ok (set_stake v st (stk_amount st - amount) s1))))))"

definition reward_validator_mem :: "address \<Rightarrow> u256 \<Rightarrow> staking \<Rightarrow> (staking, staking_error) result" where
  "reward_validator_mem v amount s = Ok (add_stake v amount s)"

definition staking_epoch_update_mem :: "staking \<Rightarrow> (staking, staking_error) result" where
  "staking_epoch_update_mem s = Ok (s\<lparr>sk_current_epoch := sat_add (sk_current_epoch s) 1\<rparr>)"

section \<open>Keys\<close>

definition ascii :: "string \<Rightarrow> bytes" where
  "ascii s = map of_char s"

definition STAKING_STATE_PREFIX :: bytes where
  "STAKING_STATE_PREFIX = ascii ''staking:''"

definition epoch_key :: bytes where
  "epoch_key = STAKING_STATE_PREFIX @ ascii ''epoch''"

definition stake_prefix :: bytes where
  "stake_prefix = STAKING_STATE_PREFIX @ ascii ''stake:''"

definition stake_epoch_prefix :: bytes where
  "stake_epoch_prefix = STAKING_STATE_PREFIX @ ascii ''stakeepoch:''"

definition delegation_prefix :: bytes where
  "delegation_prefix = STAKING_STATE_PREFIX @ ascii ''delegate:''"

definition delegation_epoch_prefix :: bytes where
  "delegation_epoch_prefix = STAKING_STATE_PREFIX @ ascii ''delegateepoch:''"

definition stake_key :: "address \<Rightarrow> bytes" where
  "stake_key v = stake_prefix @ be_bytes 32 v"

definition stake_epoch_key :: "address \<Rightarrow> bytes" where
  "stake_epoch_key v = stake_epoch_prefix @ be_bytes 32 v"

definition delegation_key :: "address \<Rightarrow> address \<Rightarrow> bytes" where
  "delegation_key d v = delegation_prefix @ be_bytes 32 d @ be_bytes 32 v"

definition delegation_epoch_key :: "address \<Rightarrow> address \<Rightarrow> bytes" where
  "delegation_epoch_key d v = delegation_epoch_prefix @ be_bytes 32 d @ be_bytes 32 v"

definition decode_address_key :: "bytes \<Rightarrow> bytes \<Rightarrow> address option" where
  "decode_address_key p k =
     (if prefix p k \<and> length k = length p + 32 then Some (of_be_bytes (drop (length p) k)) else None)"

definition decode_pair_key :: "bytes \<Rightarrow> bytes \<Rightarrow> (address \<times> address) option" where
  "decode_pair_key p k =
     (if prefix p k \<and> length k = length p + 64
      then Some (of_be_bytes (take 32 (drop (length p) k)), of_be_bytes (drop (length p + 32) k)) else None)"

definition decode_stake_key :: "bytes \<Rightarrow> address option" where
  "decode_stake_key k = decode_address_key stake_prefix k"

definition decode_stake_epoch_key :: "bytes \<Rightarrow> address option" where
  "decode_stake_epoch_key k = decode_address_key stake_epoch_prefix k"

definition decode_delegation_key :: "bytes \<Rightarrow> (address \<times> address) option" where
  "decode_delegation_key k = decode_pair_key delegation_prefix k"

definition decode_delegation_epoch_key :: "bytes \<Rightarrow> (address \<times> address) option" where
  "decode_delegation_epoch_key k = decode_pair_key delegation_epoch_prefix k"

section \<open>Persistence\<close>

record staking_codec =
  sc_stake_enc :: "stake \<Rightarrow> bytes option"
  sc_stake_dec :: "bytes \<Rightarrow> stake option"
  sc_stake_legacy :: "bytes \<Rightarrow> stake option"
  sc_u256_enc :: "u256 \<Rightarrow> bytes option"
  sc_u256_dec :: "bytes \<Rightarrow> u256 option"
  sc_u256_legacy :: "bytes \<Rightarrow> u256 option"

text \<open>The encoders accept these small values, and decoding gives them back.\<close>

definition staking_codec_ok :: "staking_codec \<Rightarrow> bool" where
  "staking_codec_ok sc \<longleftrightarrow>
     (\<forall>x. \<exists>bs. sc_stake_enc sc x = Some bs \<and> sc_stake_dec sc bs = Some x)
   \<and> (\<forall>x. \<exists>bs. sc_u256_enc sc x = Some bs \<and> sc_u256_dec sc bs = Some x)"

definition decode_or :: "(bytes \<Rightarrow> 'a option) \<Rightarrow> (bytes \<Rightarrow> 'a option) \<Rightarrow> bytes \<Rightarrow> 'a option" where
  "decode_or dec legacy bs = (case dec bs of Some x \<Rightarrow> Some x | None \<Rightarrow> legacy bs)"

definition epoch_row :: "bytes \<Rightarrow> ('k, u64) hashmap \<Rightarrow> 'k \<Rightarrow> state_updates" where
  "epoch_row key m k = (case hm_get m k of Some e \<Rightarrow> [(key, Some (le_bytes 8 e))] | None \<Rightarrow> [])"

text \<open>
  The rows of a map and of the epochs of its entries, and the deletion of the rows whose entry is gone.
  The code has both loops twice, for stakes and for delegations.
\<close>

definition entry_rows ::
  "('k \<Rightarrow> bytes) \<Rightarrow> ('k \<Rightarrow> bytes) \<Rightarrow> ('v \<Rightarrow> bytes option) \<Rightarrow> ('k, 'v) hashmap \<Rightarrow> ('k, u64) hashmap \<Rightarrow> state_updates" where
  "entry_rows key ekey enc m epochs = concat (map (\<lambda>(k, x). (key k, enc x) # epoch_row (ekey k) epochs k) m)"

definition stale_rows ::
  "(bytes \<Rightarrow> 'k option) \<Rightarrow> ('k \<Rightarrow> bytes) \<Rightarrow> ('k, 'v) hashmap \<Rightarrow> (bytes \<times> bytes) list \<Rightarrow> state_updates" where
  "stale_rows dec ekey m existing =
     concat (map (\<lambda>(b, _). case dec b of
         Some k \<Rightarrow> if hm_get m k = None then [(b, None), (ekey k, None)] else []
       | None \<Rightarrow> []) existing)"

abbreviation pair_key :: "(address \<Rightarrow> address \<Rightarrow> bytes) \<Rightarrow> address \<times> address \<Rightarrow> bytes" where
  "pair_key f dv \<equiv> f (fst dv) (snd dv)"

definition staking_changes :: "staking_codec \<Rightarrow> staking \<Rightarrow> (bytes \<times> bytes) list \<Rightarrow> (bytes \<times> bytes) list \<Rightarrow> state_updates" where
  "staking_changes sc s stakes_scan delegations_scan =
     [(epoch_key, Some (le_bytes 8 (sk_current_epoch s)))]
     @ entry_rows stake_key stake_epoch_key (sc_stake_enc sc) (sk_stakes s) (sk_deposit_epochs s)
     @ (if sk_fully_restored s then stale_rows decode_stake_key stake_epoch_key (sk_stakes s) stakes_scan else [])
     @ entry_rows (pair_key delegation_key) (pair_key delegation_epoch_key) (sc_u256_enc sc) (sk_delegations s) (sk_delegation_epochs s)
     @ (if sk_fully_restored s
        then stale_rows decode_delegation_key (pair_key delegation_epoch_key) (sk_delegations s) delegations_scan else [])"

text \<open>\<open>ios\<close> gives the outcome of each access to the storage, in order.\<close>

definition staking_state_persistence ::
  "'c lru \<Rightarrow> staking_codec \<Rightarrow> (nat \<Rightarrow> io) \<Rightarrow> staking \<Rightarrow> 'c engine option \<Rightarrow> (unit, staking_error) result \<times> 'c engine option" where
  "staking_state_persistence L sc ios s e =
     (case e of
        None \<Rightarrow> (Ok (), None)
      | Some eng \<Rightarrow>
          (case state_prefix_scan (ios 0) stake_prefix eng of
             Err er \<Rightarrow> (Err (StakingStorage er), e)
           | Ok stakes_scan \<Rightarrow>
               (case state_prefix_scan (ios 1) delegation_prefix eng of
                  Err er \<Rightarrow> (Err (StakingStorage er), e)
                | Ok delegations_scan \<Rightarrow>
                    (case atomic_state_commit L (ios 2) (staking_changes sc s stakes_scan delegations_scan) eng of
                       (r, eng') \<Rightarrow> (map_err StakingStorage r, Some eng')))))"

text \<open>An operation changes the maps, and the change stays even when the persistence fails.\<close>

definition persisted ::
  "'c lru \<Rightarrow> staking_codec \<Rightarrow> (nat \<Rightarrow> io) \<Rightarrow> (staking \<Rightarrow> (staking, staking_error) result) \<Rightarrow>
     staking \<times> 'c engine option \<Rightarrow> (unit, staking_error) result \<times> staking \<times> 'c engine option" where
  "persisted L sc ios f p =
     (case f (fst p) of
        Err er \<Rightarrow> (Err er, p)
      | Ok s' \<Rightarrow> (case staking_state_persistence L sc ios s' (snd p) of (r, e') \<Rightarrow> (r, s', e')))"

datatype staking_op =
    StakeTokens address u256
  | UnstakeTokens address u256
  | DelegateStake address address u256
  | UndelegateStake address address u256
  | SlashValidator address u256
  | RewardValidator address u256
  | EpochUpdate

fun staking_mem :: "staking_op \<Rightarrow> staking \<Rightarrow> (staking, staking_error) result" where
  "staking_mem (StakeTokens v x) s = stake_tokens_mem v x s"
| "staking_mem (UnstakeTokens v x) s = unstake_tokens_mem v x s"
| "staking_mem (DelegateStake d v x) s = delegate_stake_mem d v x s"
| "staking_mem (UndelegateStake d v x) s = undelegate_stake_mem d v x s"
| "staking_mem (SlashValidator v x) s = slash_validator_mem v x s"
| "staking_mem (RewardValidator v x) s = reward_validator_mem v x s"
| "staking_mem EpochUpdate s = staking_epoch_update_mem s"

definition staking_exec ::
  "'c lru \<Rightarrow> staking_codec \<Rightarrow> (nat \<Rightarrow> io) \<Rightarrow> staking_op \<Rightarrow> staking \<times> 'c engine option \<Rightarrow>
     (unit, staking_error) result \<times> staking \<times> 'c engine option" where
  "staking_exec L sc ios op p = persisted L sc ios (staking_mem op) p"

definition staking_stake ::
  "'c lru \<Rightarrow> staking_codec \<Rightarrow> (nat \<Rightarrow> io) \<Rightarrow> address \<Rightarrow> u256 \<Rightarrow> staking \<times> 'c engine option \<Rightarrow> staking \<times> 'c engine option" where
  "staking_stake L sc ios a amount p = snd (persisted L sc ios (stake_tokens_mem a amount) p)"

definition validator_stake :: "staking \<Rightarrow> validator \<Rightarrow> u256" where
  "validator_stake s v = get_stake s (val_address v)"

section \<open>Restart\<close>

text \<open>The loop that restores a map stops at the first row that does not decode.\<close>

fun restore_entries ::
  "(bytes \<Rightarrow> 'k option) \<Rightarrow> (bytes \<Rightarrow> 'v option) \<Rightarrow> (bytes \<times> bytes) list \<Rightarrow> ('k, 'v) hashmap \<Rightarrow>
     (unit, staking_error) result \<times> ('k, 'v) hashmap" where
  "restore_entries dec val [] m = (Ok (), m)"
| "restore_entries dec val ((b, bs) # rows) m =
     (case dec b of
        None \<Rightarrow> restore_entries dec val rows m
      | Some k \<Rightarrow>
          (case val bs of
             None \<Rightarrow> (Err StakingDecode, m)
           | Some x \<Rightarrow> restore_entries dec val rows (hm_insert k x m)))"

definition restore_stakes :: "staking_codec \<Rightarrow> (bytes \<times> bytes) list \<Rightarrow> staking \<Rightarrow> (unit, staking_error) result \<times> staking" where
  "restore_stakes sc rows s =
     apsnd (\<lambda>m. s\<lparr>sk_stakes := m\<rparr>)
       (restore_entries decode_stake_key (decode_or (sc_stake_dec sc) (sc_stake_legacy sc)) rows (sk_stakes s))"

definition restore_delegations :: "staking_codec \<Rightarrow> (bytes \<times> bytes) list \<Rightarrow> staking \<Rightarrow> (unit, staking_error) result \<times> staking" where
  "restore_delegations sc rows s =
     apsnd (\<lambda>m. s\<lparr>sk_delegations := m\<rparr>)
       (restore_entries decode_delegation_key (decode_or (sc_u256_dec sc) (sc_u256_legacy sc)) rows (sk_delegations s))"

definition restore_epochs :: "(bytes \<Rightarrow> 'k option) \<Rightarrow> (bytes \<times> bytes) list \<Rightarrow> ('k, u64) hashmap \<Rightarrow> ('k, u64) hashmap" where
  "restore_epochs dec rows m =
     fold (\<lambda>(k, bs) m. case dec k of
         Some a \<Rightarrow> if length bs = 8 then hm_insert a (of_le_bytes bs) m else m
       | None \<Rightarrow> m) rows m"

definition restore_epoch :: "bytes option \<Rightarrow> staking \<Rightarrow> staking" where
  "restore_epoch row s =
     (case row of
        Some bs \<Rightarrow> if length bs = 8 then s\<lparr>sk_current_epoch := of_le_bytes bs\<rparr> else s
      | None \<Rightarrow> s)"

definition restore_scan ::
  "io \<Rightarrow> bytes \<Rightarrow> 'c engine \<Rightarrow> ((bytes \<times> bytes) list \<Rightarrow> staking \<Rightarrow> (unit, staking_error) result \<times> staking) \<Rightarrow>
     (unit, staking_error) result \<times> staking \<Rightarrow> (unit, staking_error) result \<times> staking" where
  "restore_scan io p eng f rs =
     (case rs of
        (Err er, s) \<Rightarrow> (Err er, s)
      | (Ok _, s) \<Rightarrow>
          (case state_prefix_scan io p eng of
             Err er \<Rightarrow> (Err (StakingStorage er), s)
           | Ok rows \<Rightarrow> f rows s))"

definition staking_restore ::
  "staking_codec \<Rightarrow> (nat \<Rightarrow> io) \<Rightarrow> 'c engine option \<Rightarrow> staking \<Rightarrow> (unit, staking_error) result \<times> staking" where
  "staking_restore sc ios e s =
     (case e of
        None \<Rightarrow> (Ok (), s)
      | Some eng \<Rightarrow>
          (case state_get_bytes (ios 0) epoch_key eng of
             Err er \<Rightarrow> (Err (StakingStorage er), s)
           | Ok row \<Rightarrow>
               (let r1 = restore_scan (ios 1) stake_prefix eng (restore_stakes sc) (Ok (), restore_epoch row s);
                    r2 = restore_scan (ios 2) stake_epoch_prefix eng
                           (\<lambda>rows s. (Ok (), s\<lparr>sk_deposit_epochs := restore_epochs decode_stake_epoch_key rows (sk_deposit_epochs s)\<rparr>)) r1;
                    r3 = restore_scan (ios 3) delegation_prefix eng (restore_delegations sc) r2;
                    r4 = restore_scan (ios 4) delegation_epoch_prefix eng
                           (\<lambda>rows s. (Ok (), s\<lparr>sk_delegation_epochs := restore_epochs decode_delegation_epoch_key rows (sk_delegation_epochs s)\<rparr>)) r3
                in case r4 of
                     (Ok _, s') \<Rightarrow> (Ok (), s'\<lparr>sk_fully_restored := True\<rparr>)
                   | (Err er, s') \<Rightarrow> (Err er, s'))))"

text \<open>\<open>with_storage\<close> goes on with whatever was restored; \<open>load_or_init\<close> reports the error.\<close>

definition staking_with_storage :: "staking_codec \<Rightarrow> (nat \<Rightarrow> io) \<Rightarrow> 'c engine \<Rightarrow> staking" where
  "staking_with_storage sc ios eng = snd (staking_restore sc ios (Some eng) staking_new)"

definition staking_load_or_init :: "staking_codec \<Rightarrow> (nat \<Rightarrow> io) \<Rightarrow> 'c engine \<Rightarrow> (staking, staking_error) result" where
  "staking_load_or_init sc ios eng =
     (case staking_restore sc ios (Some eng) staking_new of (Ok _, s) \<Rightarrow> Ok s | (Err er, _) \<Rightarrow> Err er)"

section \<open>Uptime\<close>

record uptime_monitor =
  um_missed_slots :: "(address, u64) hashmap"
  um_total_missed :: "(address, u64) hashmap"
  um_slashing_threshold :: u64

definition uptime_new :: "u64 \<Rightarrow> uptime_monitor" where
  "uptime_new t = \<lparr>um_missed_slots = [], um_total_missed = [], um_slashing_threshold = t\<rparr>"

definition count_of :: "(address, u64) hashmap \<Rightarrow> address \<Rightarrow> u64" where
  "count_of m v = (case hm_get m v of Some x \<Rightarrow> x | None \<Rightarrow> 0)"

definition record_success :: "address \<Rightarrow> uptime_monitor \<Rightarrow> uptime_monitor" where
  "record_success v u = u\<lparr>um_missed_slots := hm_insert v 0 (um_missed_slots u)\<rparr>"

definition record_miss :: "address \<Rightarrow> uptime_monitor \<Rightarrow> bool \<times> uptime_monitor" where
  "record_miss v u =
     (let consecutive = sat_add (count_of (um_missed_slots u) v) 1
      in (um_slashing_threshold u \<le> consecutive,
          u\<lparr>um_missed_slots := hm_insert v consecutive (um_missed_slots u),
            um_total_missed := hm_insert v (sat_add (count_of (um_total_missed u) v) 1) (um_total_missed u)\<rparr>))"

definition should_slash :: "uptime_monitor \<Rightarrow> address \<Rightarrow> bool" where
  "should_slash u v = (um_slashing_threshold u \<le> count_of (um_missed_slots u) v)"

definition consecutive_missed :: "uptime_monitor \<Rightarrow> address \<Rightarrow> u64" where
  "consecutive_missed u v = count_of (um_missed_slots u) v"

definition total_missed_count :: "uptime_monitor \<Rightarrow> address \<Rightarrow> u64" where
  "total_missed_count u v = count_of (um_total_missed u) v"

definition reset_validator :: "address \<Rightarrow> uptime_monitor \<Rightarrow> uptime_monitor" where
  "reset_validator v u = u\<lparr>um_missed_slots := hm_remove v (um_missed_slots u)\<rparr>"

definition uptime_clear :: "uptime_monitor \<Rightarrow> uptime_monitor" where
  "uptime_clear u = u\<lparr>um_missed_slots := [], um_total_missed := []\<rparr>"

section \<open>The key families\<close>

lemma nat_of_le_less: "nat_of_le bs < 256 ^ length bs"
proof (induction bs)
  case (Cons b bs)
  have "nat_of_le (b # bs) < 256 + 256 * nat_of_le bs"
    using unat_bound [of b] by simp
  also have "\<dots> \<le> 256 * 256 ^ length bs"
    using Cons by (metis Suc_leI mult_Suc_right mult_le_mono2)
  finally show ?case by simp
qed simp

lemma nat_of_le_inj: "length bs = length cs \<Longrightarrow> nat_of_le bs = nat_of_le cs \<Longrightarrow> bs = cs"
proof (induction bs cs rule: list_induct2)
  case (Cons b bs c cs)
  have "unat b < 256" "unat c < 256"
    using unat_bound [of b] unat_bound [of c] by simp_all
  then have "unat b = nat_of_le (b # bs) mod 256" "unat c = nat_of_le (c # cs) mod 256"
    "nat_of_le bs = nat_of_le (b # bs) div 256" "nat_of_le cs = nat_of_le (c # cs) div 256"
    by simp_all
  then have "unat b = unat c" "nat_of_le bs = nat_of_le cs"
    using Cons.prems by (simp_all only:)
  then show ?case
    using Cons.IH by (simp add: unsigned_word_eqI)
qed simp

lemma be_bytes_of_be_bytes:
  assumes len: "length bs = 32"
  shows "be_bytes 32 (of_be_bytes bs :: address) = bs"
proof -
  have lt: "nat_of_le (rev bs) < 256 ^ 32"
    using nat_of_le_less [of "rev bs"] unfolding length_rev len .
  also have "(256 :: nat) ^ 32 = 2 ^ LENGTH(256)"
    by simp
  finally have "unat (of_be_bytes bs :: address) = nat_of_le (rev bs)"
    unfolding of_be_bytes_def of_le_bytes_def unsigned_of_nat of_nat_id by (rule take_bit_nat_eq_self)
  then have "nat_of_le (le_bytes 32 (of_be_bytes bs :: address)) = nat_of_le (rev bs)"
    unfolding nat_of_le_bytes using lt by (simp only: mod_less)
  then have "le_bytes 32 (of_be_bytes bs :: address) = rev bs"
    by (rule nat_of_le_inj [rotated]) (simp only: length_le_bytes length_rev len)
  then show ?thesis
    unfolding be_bytes_def by (simp only: rev_rev_ident)
qed

lemma decode_address_key_iff: "decode_address_key p k = Some a \<longleftrightarrow> k = p @ be_bytes 32 a"
  by (auto simp: decode_address_key_def prefix_def of_be_bytes_be_bytes be_bytes_of_be_bytes split: if_splits)

lemma decode_pair_key_iff: "decode_pair_key p k = Some dv \<longleftrightarrow> k = p @ be_bytes 32 (fst dv) @ be_bytes 32 (snd dv)"
proof
  assume a: "decode_pair_key p k = Some dv"
  then obtain z where z: "k = p @ z" "length z = 64"
    by (auto simp: decode_pair_key_def prefix_def split: if_splits)
  have "be_bytes 32 (fst dv) = take 32 z" "be_bytes 32 (snd dv) = drop 32 z"
    using a z be_bytes_of_be_bytes [of "take 32 z"] be_bytes_of_be_bytes [of "drop 32 z"]
    by (auto simp: decode_pair_key_def split: if_splits)
  then show "k = p @ be_bytes 32 (fst dv) @ be_bytes 32 (snd dv)"
    using z(1) by simp
qed (cases dv, simp add: decode_pair_key_def of_be_bytes_be_bytes)

text \<open>What one operation does to a map and to its epochs.\<close>

definition map_step :: "('k, 'v) hashmap \<Rightarrow> ('k, u64) hashmap \<Rightarrow> ('k, 'v) hashmap \<Rightarrow> ('k, u64) hashmap \<Rightarrow> bool" where
  "map_step m0 e0 m e \<longleftrightarrow> (hm_wf m0 \<longrightarrow> hm_wf m)
   \<and> ((\<forall>k. hm_get e0 k \<noteq> None \<longrightarrow> hm_get m0 k \<noteq> None) \<longrightarrow> (\<forall>k. hm_get e k \<noteq> None \<longrightarrow> hm_get m k \<noteq> None))
   \<and> (\<forall>k. hm_get m0 k \<noteq> None \<longrightarrow> hm_get m k \<noteq> None \<longrightarrow> hm_get e0 k \<noteq> None \<longrightarrow> hm_get e k \<noteq> None)"

text \<open>
  What the loops rely on: a key determines its entry and the reverse, and the two kinds of keys lie under
  prefixes of their own.
\<close>

locale row_family =
  fixes pre epre :: bytes and key ekey :: "'k \<Rightarrow> bytes" and dec edec :: "bytes \<Rightarrow> 'k option"
  assumes dec_iff: "dec b = Some k \<longleftrightarrow> b = key k"
    and edec_iff: "edec b = Some k \<longleftrightarrow> b = ekey k"
    and key_prefix: "prefix pre (key k)"
    and ekey_prefix: "prefix epre (ekey k)"
    and key_ekey: "key k \<noteq> ekey k'"
begin

lemma key_inj [simp]: "key k = key k' \<longleftrightarrow> k = k'" "ekey k = ekey k' \<longleftrightarrow> k = k'"
  using dec_iff [of "key k" k] dec_iff [of "key k" k'] edec_iff [of "ekey k" k] edec_iff [of "ekey k" k'] by auto

lemma dec_sym: "Some k = dec b \<longleftrightarrow> b = key k" "Some k = edec b \<longleftrightarrow> b = ekey k"
  using dec_iff edec_iff by (metis, metis)

lemma dec_key [simp]: "dec (key k) = Some k" "edec (ekey k) = Some k"
  by (simp_all add: dec_iff edec_iff)

lemma entry_rows_key:
  assumes "hm_wf m"
  shows "(key k, u) \<in> set (entry_rows key ekey enc m epochs) \<longleftrightarrow> (\<exists>x. hm_get m k = Some x \<and> u = enc x)"
  using key_ekey hm_in_get [OF assms] by (fastforce simp: entry_rows_def epoch_row_def split: option.splits)

lemma entry_rows_ekey:
  assumes "hm_wf m"
  shows "(ekey k, u) \<in> set (entry_rows key ekey enc m epochs)
     \<longleftrightarrow> hm_get m k \<noteq> None \<and> (\<exists>e. hm_get epochs k = Some e \<and> u = Some (le_bytes 8 e))"
  using key_ekey [symmetric] hm_in_get [OF assms, of k] by (fastforce simp: entry_rows_def epoch_row_def split: option.splits)

lemma entry_rows_keys: "(b, u) \<in> set (entry_rows key ekey enc m epochs) \<Longrightarrow> \<exists>k. b = key k \<or> b = ekey k"
  by (auto simp: entry_rows_def epoch_row_def split: option.splits)

lemma stale_rows_iff:
  "(b, u) \<in> set (stale_rows dec ekey m existing)
     \<longleftrightarrow> (\<exists>k w. (key k, w) \<in> set existing \<and> hm_get m k = None \<and> u = None \<and> (b = key k \<or> b = ekey k))"
proof (induction existing)
  case (Cons x existing)
  have "(b, u) \<in> set (stale_rows dec ekey m [x])
     \<longleftrightarrow> (\<exists>k. fst x = key k \<and> hm_get m k = None \<and> u = None \<and> (b = key k \<or> b = ekey k))"
    by (cases x; cases "dec (fst x)") (auto simp: stale_rows_def dec_iff)
  moreover have "set (stale_rows dec ekey m (x # existing))
     = set (stale_rows dec ekey m [x]) \<union> set (stale_rows dec ekey m existing)"
    by (simp add: stale_rows_def)
  ultimately have "(b, u) \<in> set (stale_rows dec ekey m (x # existing))
     \<longleftrightarrow> (\<exists>k. fst x = key k \<and> hm_get m k = None \<and> u = None \<and> (b = key k \<or> b = ekey k))
       \<or> (\<exists>k w. (key k, w) \<in> set existing \<and> hm_get m k = None \<and> u = None \<and> (b = key k \<or> b = ekey k))"
    by (simp only: Un_iff Cons.IH)
  then show ?case
    by (cases x) auto
qed (simp add: stale_rows_def)

lemma stale_rows_keys: "(b, u) \<in> set (stale_rows dec ekey m existing) \<Longrightarrow> \<exists>k. b = key k \<or> b = ekey k"
  unfolding stale_rows_iff by blast

lemma stale_rows_row:
  assumes "\<And>b w. (b, w) \<in> set existing \<longleftrightarrow> t b = Some w \<and> prefix pre b" "b = key k \<or> b = ekey k"
  shows "(b, u) \<in> set (stale_rows dec ekey m existing) \<longleftrightarrow> u = None \<and> hm_get m k = None \<and> t (key k) \<noteq> None"
proof -
  have same: "b = key k' \<or> b = ekey k' \<longleftrightarrow> k' = k" for k'
    using assms(2) key_ekey [of k k'] key_ekey [of k' k] by (elim disjE) auto
  have "(key k', w) \<in> set existing \<longleftrightarrow> t (key k') = Some w" for k' w
    using assms(1) [of "key k'" w] key_prefix [of k'] by simp
  then show ?thesis
    unfolding stale_rows_iff same by auto
qed

text \<open>
  A map and its epochs are in step with a table. Every epoch belongs to an entry.
\<close>

definition in_step :: "('v \<Rightarrow> bytes option) \<Rightarrow> ('k, 'v) hashmap \<Rightarrow> ('k, u64) hashmap \<Rightarrow> (bytes \<Rightarrow> bytes option) \<Rightarrow> bool" where
  "in_step enc m epochs t \<longleftrightarrow> (\<forall>k. t (key k) = Option.bind (hm_get m k) enc \<and> t (ekey k) = map_option (le_bytes 8) (hm_get epochs k))
     \<and> (\<forall>k. hm_get epochs k \<noteq> None \<longrightarrow> hm_get m k \<noteq> None)"

text \<open>Writing the changes brings the table in step with the new map, if no epoch of a surviving entry was dropped.\<close>

lemma persist_in_step:
  assumes "in_step enc m0 epochs0 t" "\<And>x. enc x \<noteq> None" "hm_wf m0" and step: "map_step m0 epochs0 m epochs"
    and ex: "\<And>b w. (b, w) \<in> set existing \<longleftrightarrow> t b = Some w \<and> prefix pre b"
    and cs: "\<And>b k u. b = key k \<or> b = ekey k \<Longrightarrow>
      (b, u) \<in> set cs \<longleftrightarrow> (b, u) \<in> set (entry_rows key ekey enc m epochs) \<or> (b, u) \<in> set (stale_rows dec ekey m existing)"
  shows "in_step enc m epochs (upd_map cs t)"
proof -
  have wf: "hm_wf m" and owner: "\<And>k. hm_get epochs k \<noteq> None \<Longrightarrow> hm_get m k \<noteq> None"
    and keep: "\<And>k. hm_get m0 k \<noteq> None \<Longrightarrow> hm_get m k \<noteq> None \<Longrightarrow> hm_get epochs0 k \<noteq> None \<Longrightarrow> hm_get epochs k \<noteq> None"
    using assms(1,3) step unfolding map_step_def in_step_def by blast+
  have t0: "t (key k) = Option.bind (hm_get m0 k) enc" "t (ekey k) = map_option (le_bytes 8) (hm_get epochs0 k)"
    "hm_get epochs0 k \<noteq> None \<Longrightarrow> hm_get m0 k \<noteq> None" for k
    using assms(1) by (auto simp: in_step_def)
  have tk: "t (key k) = None \<longleftrightarrow> hm_get m0 k = None" for k
    using assms(2) by (cases "hm_get m0 k") (simp_all add: t0)
  have row: "(key k, u) \<in> set cs \<longleftrightarrow> (\<exists>x. hm_get m k = Some x \<and> u = enc x) \<or> (u = None \<and> hm_get m k = None \<and> t (key k) \<noteq> None)" for k u
    using cs [of "key k" k u] stale_rows_row [of existing t, OF ex, of "key k" k u m] entry_rows_key [OF wf] by simp
  have erow: "(ekey k, u) \<in> set cs \<longleftrightarrow> (hm_get m k \<noteq> None \<and> (\<exists>e. hm_get epochs k = Some e \<and> u = Some (le_bytes 8 e)))
      \<or> (u = None \<and> hm_get m k = None \<and> t (key k) \<noteq> None)" for k u
    using cs [of "ekey k" k u] stale_rows_row [of existing t, OF ex, of "ekey k" k u m] entry_rows_ekey [OF wf] by simp
  have "upd_map cs t (key k) = Option.bind (hm_get m k) enc" for k
  proof (cases "(\<exists>u. (key k, u) \<in> set cs)")
    case True
    then show ?thesis
    proof (intro upd_map_constant)
      show "key k \<in> fst ` set cs" using True by force
      fix u assume "(key k, u) \<in> set cs"
      then show "u = Option.bind (hm_get m k) enc"
        by (auto simp: row)
    qed
  next
    case False
    then have "key k \<notin> fst ` set cs" by force
    moreover have "hm_get m k = None" "t (key k) = None"
      using False row [of k] by (cases "hm_get m k"; auto)+
    ultimately show ?thesis
      by (simp add: upd_map_other)
  qed
  moreover have "upd_map cs t (ekey k) = map_option (le_bytes 8) (hm_get epochs k)" for k
  proof (cases "(\<exists>u. (ekey k, u) \<in> set cs)")
    case True
    then show ?thesis
    proof (intro upd_map_constant)
      show "ekey k \<in> fst ` set cs" using True by force
      fix u assume "(ekey k, u) \<in> set cs"
      then show "u = map_option (le_bytes 8) (hm_get epochs k)"
        using owner [of k] by (cases "hm_get epochs k") (auto simp: erow)
    qed
  next
    case False
    then have "ekey k \<notin> fst ` set cs" by force
    then have "upd_map cs t (ekey k) = t (ekey k)" by (rule upd_map_other)
    moreover have e: "hm_get epochs k = None"
    proof (rule ccontr)
      assume "hm_get epochs k \<noteq> None"
      then show False using False owner erow by blast
    qed
    moreover have "hm_get epochs0 k = None"
    proof (rule ccontr)
      assume a: "hm_get epochs0 k \<noteq> None"
      then have "hm_get m0 k \<noteq> None" "t (key k) \<noteq> None"
        using t0(3) tk by blast+
      moreover from this have "hm_get m k \<noteq> None"
        using False erow [of k None] by auto
      ultimately show False
        using keep [of k] a e by simp
    qed
    ultimately show ?thesis by (simp add: t0)
  qed
  ultimately show ?thesis
    using owner by (simp add: in_step_def)
qed

text \<open>The loops of the restart read a scan back into the maps.\<close>

lemma restore_entries_reads:
  assumes "hm_wf rows" "\<forall>k bs. hm_get rows (key k) = Some bs \<longrightarrow> val bs \<noteq> None"
  shows "\<exists>m'. restore_entries dec val rows m = (Ok (), m') \<and> (hm_wf m \<longrightarrow> hm_wf m')
     \<and> (\<forall>k. hm_get m' k = (case hm_get rows (key k) of Some bs \<Rightarrow> val bs | None \<Rightarrow> hm_get m k))"
  using assms
proof (induction rows arbitrary: m)
  case (Cons r rows)
  obtain b bs where r: "r = (b, bs)" by (cases r)
  have wf: "hm_wf rows" and new: "hm_get rows b = None"
    using Cons.prems(1) by (auto simp: r map_of_eq_None_iff)
  have vals: "\<forall>k bs. hm_get rows (key k) = Some bs \<longrightarrow> val bs \<noteq> None"
    using Cons.prems(2) new unfolding r by (metis map_of_Cons_code(2) option.distinct(1))
  show ?case
  proof (cases "dec b")
    case None
    then have "key k \<noteq> b" for k by auto
    then show ?thesis using Cons.IH [of m, OF wf vals] by (simp add: r None)
  next
    case (Some k0)
    then have b: "b = key k0" by (simp add: dec_iff)
    obtain x where x: "val bs = Some x"
      using Cons.prems(2) [rule_format, of k0 bs] by (auto simp: r b)
    obtain m' where m': "restore_entries dec val rows (hm_insert k0 x m) = (Ok (), m')"
      "hm_wf (hm_insert k0 x m) \<longrightarrow> hm_wf m'"
      "hm_get m' k = (case hm_get rows (key k) of Some bs \<Rightarrow> val bs | None \<Rightarrow> hm_get (hm_insert k0 x m) k)" for k
      using Cons.IH [of "hm_insert k0 x m", OF wf vals] by blast
    have "hm_get m' k = (case hm_get (r # rows) (key k) of Some bs \<Rightarrow> val bs | None \<Rightarrow> hm_get m k)" for k
      using m'(3) [of k] new x by (cases "k = k0") (auto simp: r b split: option.splits)
    then show ?thesis
      using m'(1,2) by (simp add: r Some x)
  qed
qed simp

lemma restore_epochs_reads:
  assumes "hm_wf rows" "\<forall>k bs. hm_get rows (ekey k) = Some bs \<longrightarrow> length bs = 8"
  shows "hm_get (restore_epochs edec rows m) k
       = (case hm_get rows (ekey k) of Some bs \<Rightarrow> Some (of_le_bytes bs) | None \<Rightarrow> hm_get m k)"
  using assms
proof (induction rows arbitrary: m)
  case (Cons r rows)
  obtain b bs where r: "r = (b, bs)" by (cases r)
  have wf: "hm_wf rows" and new: "hm_get rows b = None"
    using Cons.prems(1) by (auto simp: r map_of_eq_None_iff)
  have vals: "\<forall>k bs. hm_get rows (ekey k) = Some bs \<longrightarrow> length bs = 8"
    using Cons.prems(2) new unfolding r by (metis map_of_Cons_code(2) option.distinct(1))
  show ?case
  proof (cases "edec b")
    case None
    then have "ekey k \<noteq> b" for k by auto
    then show ?thesis using Cons.IH [of m, OF wf vals] by (simp add: restore_epochs_def r None)
  next
    case (Some k0)
    then have b: "b = ekey k0" by (simp add: edec_iff)
    then have "length bs = 8"
      using Cons.prems(2) [rule_format, of k0 bs] by (simp add: r)
    then have "restore_epochs edec (r # rows) m = restore_epochs edec rows (hm_insert k0 (of_le_bytes bs) m)"
      by (simp add: restore_epochs_def r Some)
    then show ?thesis
      using Cons.IH [of "hm_insert k0 (of_le_bytes bs) m", OF wf vals] new
      by (cases "k = k0") (auto simp: r b split: option.splits)
  qed
qed (simp add: restore_epochs_def)

lemma restore_epochs_wf: "hm_wf m \<Longrightarrow> hm_wf (restore_epochs edec rows m)"
proof (induction rows arbitrary: m)
  case (Cons r rows)
  then show ?case
    by (cases r; cases "edec (fst r)") (simp_all add: restore_epochs_def)
qed (simp add: restore_epochs_def)

end

text \<open>The two families of the staking state.\<close>

lemmas key_defs = stake_key_def stake_epoch_key_def delegation_key_def delegation_epoch_key_def epoch_key_def
  stake_prefix_def stake_epoch_prefix_def delegation_prefix_def delegation_epoch_prefix_def STAKING_STATE_PREFIX_def

lemma ascii_simps [simp]: "ascii [] = []" "ascii (c # cs) = of_char c # ascii cs"
  by (simp_all add: ascii_def)

interpretation stk: row_family stake_prefix stake_epoch_prefix stake_key stake_epoch_key decode_stake_key decode_stake_epoch_key
  by unfold_locales
     (simp_all add: decode_stake_key_def decode_stake_epoch_key_def decode_address_key_iff stake_key_def stake_epoch_key_def,
      simp add: key_defs)

interpretation dlg: row_family delegation_prefix delegation_epoch_prefix
  "pair_key delegation_key" "pair_key delegation_epoch_key" decode_delegation_key decode_delegation_epoch_key
  by unfold_locales
     (simp_all add: decode_delegation_key_def decode_delegation_epoch_key_def decode_pair_key_iff delegation_key_def delegation_epoch_key_def,
      simp add: key_defs)

lemma families_apart [simp]:
  "epoch_key \<noteq> stake_key v" "epoch_key \<noteq> stake_epoch_key v" "epoch_key \<noteq> delegation_key d v" "epoch_key \<noteq> delegation_epoch_key d v"
  "stake_key v \<noteq> delegation_key d v'" "stake_key v \<noteq> delegation_epoch_key d v'"
  "stake_epoch_key v \<noteq> delegation_key d v'" "stake_epoch_key v \<noteq> delegation_epoch_key d v'"
  by (simp_all add: key_defs)

lemmas families_apart_sym [simp] = families_apart [symmetric]

section \<open>Memory and storage in step\<close>

text \<open>Two managers that hold the same entries; only the order of their maps may differ.\<close>

definition same_staking :: "staking \<Rightarrow> staking \<Rightarrow> bool" where
  "same_staking s s' \<longleftrightarrow>
     hm_get (sk_stakes s') = hm_get (sk_stakes s) \<and> hm_get (sk_delegations s') = hm_get (sk_delegations s)
   \<and> hm_get (sk_deposit_epochs s') = hm_get (sk_deposit_epochs s) \<and> hm_get (sk_delegation_epochs s') = hm_get (sk_delegation_epochs s)
   \<and> sk_current_epoch s' = sk_current_epoch s \<and> sk_lockup_epochs s' = sk_lockup_epochs s \<and> sk_fully_restored s' = sk_fully_restored s"

definition same_outcome :: "(staking, staking_error) result \<Rightarrow> (staking, staking_error) result \<Rightarrow> bool" where
  "same_outcome r r' \<longleftrightarrow> (case (r, r') of (Ok s, Ok s') \<Rightarrow> same_staking s s' | (Err e, Err e') \<Rightarrow> e = e' | _ \<Rightarrow> False)"

lemmas mem_defs = stake_tokens_mem_def unstake_tokens_mem_def delegate_stake_mem_def slash_validator_mem_def
  undelegate_stake_mem_def reward_validator_mem_def staking_epoch_update_mem_def add_stake_def set_stake_def
  entry_amount_def lockup_period_def Let_def

lemma staking_mem_same: "same_staking s s' \<Longrightarrow> same_outcome (staking_mem op s) (staking_mem op s')"
  by (cases op) (auto simp: same_staking_def same_outcome_def mem_defs split: option.splits if_splits)

lemma staking_mem_steps:
  assumes "staking_mem op s = Ok s'"
  shows "map_step (sk_stakes s) (sk_deposit_epochs s) (sk_stakes s') (sk_deposit_epochs s')"
    and "map_step (sk_delegations s) (sk_delegation_epochs s) (sk_delegations s') (sk_delegation_epochs s')"
    and "sk_fully_restored s' = sk_fully_restored s"
    and "sk_lockup_epochs s' = sk_lockup_epochs s"
  using assms
  by (cases op; auto simp: map_step_def mem_defs split: option.splits if_splits)+

definition staking_synced :: "staking_codec \<Rightarrow> staking \<Rightarrow> 'c engine \<Rightarrow> bool" where
  "staking_synced sc s e \<longleftrightarrow> om_wf (eng_state e) \<and> hm_wf (sk_stakes s) \<and> hm_wf (sk_delegations s)
   \<and> sk_fully_restored s \<and> sk_lockup_epochs s = DEFAULT_LOCKUP_PERIOD_EPOCHS
   \<and> stk.in_step (sc_stake_enc sc) (sk_stakes s) (sk_deposit_epochs s) (hm_get (eng_state e))
   \<and> dlg.in_step (sc_u256_enc sc) (sk_delegations s) (sk_delegation_epochs s) (hm_get (eng_state e))
   \<and> (case hm_get (eng_state e) epoch_key of Some bs \<Rightarrow> bs = le_bytes 8 (sk_current_epoch s) | None \<Rightarrow> sk_current_epoch s = 0)"

lemma scan_member:
  assumes "om_wf (eng_state e)"
  shows "(b, w) \<in> set (filter (\<lambda>(k, _). prefix p k) (eng_state e)) \<longleftrightarrow> hm_get (eng_state e) b = Some w \<and> prefix p b"
  using om_entry [OF assms] by auto

lemma changes_rows:
  "b = stake_key v \<or> b = stake_epoch_key v \<Longrightarrow> sk_fully_restored s \<Longrightarrow>
     (b, u) \<in> set (staking_changes sc s ss ds) \<longleftrightarrow>
     (b, u) \<in> set (entry_rows stake_key stake_epoch_key (sc_stake_enc sc) (sk_stakes s) (sk_deposit_epochs s))
     \<or> (b, u) \<in> set (stale_rows decode_stake_key stake_epoch_key (sk_stakes s) ss)"
  "b = pair_key delegation_key dv \<or> b = pair_key delegation_epoch_key dv \<Longrightarrow> sk_fully_restored s \<Longrightarrow>
     (b, u) \<in> set (staking_changes sc s ss ds) \<longleftrightarrow>
     (b, u) \<in> set (entry_rows (pair_key delegation_key) (pair_key delegation_epoch_key) (sc_u256_enc sc) (sk_delegations s) (sk_delegation_epochs s))
     \<or> (b, u) \<in> set (stale_rows decode_delegation_key (pair_key delegation_epoch_key) (sk_delegations s) ds)"
  by (auto simp: staking_changes_def dest!: stk.entry_rows_keys stk.stale_rows_keys dlg.entry_rows_keys dlg.stale_rows_keys)

lemma changes_epoch: "upd_map (staking_changes sc s ss ds) t epoch_key = Some (le_bytes 8 (sk_current_epoch s))"
proof (rule upd_map_constant)
  fix u assume "(epoch_key, u) \<in> set (staking_changes sc s ss ds)"
  then show "u = Some (le_bytes 8 (sk_current_epoch s))"
    by (auto simp: staking_changes_def split: if_splits
        dest!: stk.entry_rows_keys stk.stale_rows_keys dlg.entry_rows_keys dlg.stale_rows_keys)
qed (simp add: staking_changes_def)

lemma persistence_syncs:
  fixes e :: "'c engine"
  assumes "staking_codec_ok sc" "staking_synced sc s e" "staking_mem op s = Ok s'"
  shows "\<exists>e'. staking_state_persistence L sc (\<lambda>_. IoOk) s' (Some e) = (Ok (), Some e') \<and> staking_synced sc s' e'"
proof -
  let ?t = "hm_get (eng_state e)"
  let ?ss = "filter (\<lambda>(k, _). prefix stake_prefix k) (eng_state e)" and ?ds = "filter (\<lambda>(k, _). prefix delegation_prefix k) (eng_state e)"
  let ?cs = "staking_changes sc s' ?ss ?ds"
  note old = assms(2) [unfolded staking_synced_def] and step = staking_mem_steps [OF assms(3)]
  have wf: "om_wf (eng_state e)" and restored: "sk_fully_restored s'"
    using old step(3) by simp_all
  have codec: "sc_stake_enc sc x \<noteq> None" "sc_u256_enc sc y \<noteq> None" for x y
    using assms(1) by (auto simp: staking_codec_ok_def)
  have "stk.in_step (sc_stake_enc sc) (sk_stakes s') (sk_deposit_epochs s') (upd_map ?cs ?t)"
    using old by (intro stk.persist_in_step [OF _ codec(1) _ step(1) scan_member [OF wf] changes_rows(1) [OF _ restored]]) auto
  moreover have "dlg.in_step (sc_u256_enc sc) (sk_delegations s') (sk_delegation_epochs s') (upd_map ?cs ?t)"
    using old by (intro dlg.persist_in_step [OF _ codec(2) _ step(2) scan_member [OF wf] changes_rows(2) [OF _ restored]]) auto
  ultimately show ?thesis
    using old step
    by (simp add: staking_state_persistence_def state_prefix_scan_Ok [OF wf] atomic_state_commit_def
        atomic_state_commit_with_rollback_def map_ok_def staking_synced_def changes_epoch map_step_def)
qed

lemma option_eqI:
  assumes "\<And>w. x = Some w \<longleftrightarrow> y = Some w"
  shows "x = y"
  using assms [of "the x"] assms [of "the y"] by (cases x; cases y) simp_all

lemma scan_get:
  assumes "om_wf (eng_state e)"
  shows "hm_get (filter (\<lambda>(k, _). prefix p k) (eng_state e)) b = (if prefix p b then hm_get (eng_state e) b else None)"
proof (rule option_eqI)
  fix w
  show "hm_get (filter (\<lambda>(k, _). prefix p k) (eng_state e)) b = Some w
     \<longleftrightarrow> (if prefix p b then hm_get (eng_state e) b else None) = Some w"
    unfolding om_entry [OF om_wf_filter [OF assms], symmetric] using om_entry [OF assms, of b w] by simp
qed

lemma key_prefixes [simp]:
  "prefix stake_prefix (stake_key v)" "prefix stake_epoch_prefix (stake_epoch_key v)"
  "prefix delegation_prefix (delegation_key d v)" "prefix delegation_epoch_prefix (delegation_epoch_key d v)"
  by (simp_all add: stake_key_def stake_epoch_key_def delegation_key_def delegation_epoch_key_def)

lemma synced_same:
  assumes "staking_synced sc s e" "same_staking s s'" "hm_wf (sk_stakes s')" "hm_wf (sk_delegations s')"
  shows "staking_synced sc s' e"
proof -
  have "stk.in_step enc (sk_stakes s') (sk_deposit_epochs s') t = stk.in_step enc (sk_stakes s) (sk_deposit_epochs s) t"
    "dlg.in_step enc' (sk_delegations s') (sk_delegation_epochs s') t = dlg.in_step enc' (sk_delegations s) (sk_delegation_epochs s) t"
    for enc enc' t
    using assms(2) by (simp_all only: stk.in_step_def dlg.in_step_def same_staking_def)
  then show ?thesis
    using assms by (simp add: staking_synced_def same_staking_def split: option.splits)
qed

lemma restore_same:
  assumes "staking_codec_ok sc" "staking_synced sc s e"
  shows "\<exists>s'. staking_restore sc (\<lambda>_. IoOk) (Some e) staking_new = (Ok (), s') \<and> same_staking s s' \<and> staking_synced sc s' e"
proof -
  note old = assms(2) [unfolded staking_synced_def]
  let ?scan = "\<lambda>p. filter (\<lambda>(k, _). prefix p k) (eng_state e)"
  have wf: "om_wf (eng_state e)" and hwf: "hm_wf (?scan p)" for p
    using old om_wf_distinct [OF om_wf_filter] by auto
  let ?sval = "decode_or (sc_stake_dec sc) (sc_stake_legacy sc)" and ?uval = "decode_or (sc_u256_dec sc) (sc_u256_legacy sc)"
  have codec: "sc_stake_enc sc x = Some bs \<Longrightarrow> ?sval bs = Some x" "sc_stake_enc sc x \<noteq> None"
    "sc_u256_enc sc y = Some cs \<Longrightarrow> ?uval cs = Some y" "sc_u256_enc sc y \<noteq> None" for x y bs cs
  proof -
    obtain bs' cs' where "sc_stake_enc sc x = Some bs'" "sc_stake_dec sc bs' = Some x" "sc_u256_enc sc y = Some cs'" "sc_u256_dec sc cs' = Some y"
      using assms(1) unfolding staking_codec_ok_def by blast
    then show "sc_stake_enc sc x = Some bs \<Longrightarrow> ?sval bs = Some x" "sc_stake_enc sc x \<noteq> None"
      "sc_u256_enc sc y = Some cs \<Longrightarrow> ?uval cs = Some y" "sc_u256_enc sc y \<noteq> None"
      by (simp_all add: decode_or_def)
  qed
  have st: "hm_get (?scan stake_prefix) (stake_key v) = Option.bind (hm_get (sk_stakes s) v) (sc_stake_enc sc)"
    "hm_get (?scan stake_epoch_prefix) (stake_epoch_key v) = map_option (le_bytes 8) (hm_get (sk_deposit_epochs s) v)"
    "hm_get (?scan delegation_prefix) (pair_key delegation_key dv) = Option.bind (hm_get (sk_delegations s) dv) (sc_u256_enc sc)"
    "hm_get (?scan delegation_epoch_prefix) (pair_key delegation_epoch_key dv) = map_option (le_bytes 8) (hm_get (sk_delegation_epochs s) dv)" for v dv
    using old by (simp_all add: scan_get [OF wf] stk.in_step_def dlg.in_step_def)
  have "\<forall>k bs. hm_get (?scan stake_prefix) (stake_key k) = Some bs \<longrightarrow> ?sval bs \<noteq> None"
    by (auto simp: st bind_eq_Some_conv dest: codec(1,3))
  then obtain m1 where m1: "restore_entries decode_stake_key ?sval (?scan stake_prefix) [] = (Ok (), m1)" "hm_wf m1"
    "hm_get m1 v = (case hm_get (?scan stake_prefix) (stake_key v) of Some bs \<Rightarrow> ?sval bs | None \<Rightarrow> hm_get [] v)" for v
    using stk.restore_entries_reads [OF hwf, of stake_prefix ?sval "[]"] by auto
  have "\<forall>k bs. hm_get (?scan delegation_prefix) (pair_key delegation_key k) = Some bs \<longrightarrow> ?uval bs \<noteq> None"
    by (auto simp: st bind_eq_Some_conv dest: codec(1,3))
  then obtain m2 where m2: "restore_entries decode_delegation_key ?uval (?scan delegation_prefix) [] = (Ok (), m2)" "hm_wf m2"
    "hm_get m2 dv = (case hm_get (?scan delegation_prefix) (pair_key delegation_key dv) of Some bs \<Rightarrow> ?uval bs | None \<Rightarrow> hm_get [] dv)" for dv
    using dlg.restore_entries_reads [OF hwf, of delegation_prefix ?uval "[]"] by auto
  let ?e1 = "restore_epochs decode_stake_epoch_key (?scan stake_epoch_prefix) []"
    and ?e2 = "restore_epochs decode_delegation_epoch_key (?scan delegation_epoch_prefix) []"
  have len8: "\<forall>k bs. hm_get (?scan stake_epoch_prefix) (stake_epoch_key k) = Some bs \<longrightarrow> length bs = 8"
    "\<forall>k bs. hm_get (?scan delegation_epoch_prefix) (pair_key delegation_epoch_key k) = Some bs \<longrightarrow> length bs = 8"
    by (auto simp: st)
  have "hm_get m1 = hm_get (sk_stakes s)" "hm_get m2 = hm_get (sk_delegations s)"
    using codec(2,4) by (auto simp: fun_eq_iff m1(3) m2(3) st bind_eq_None_conv split: option.splits bind_splits dest: codec(1,3))
  moreover have "hm_get ?e1 = hm_get (sk_deposit_epochs s)"
  proof
    show "hm_get ?e1 v = hm_get (sk_deposit_epochs s) v" for v
      using stk.restore_epochs_reads [OF hwf len8(1), of "[]" v]
      by (cases "hm_get (sk_deposit_epochs s) v") (simp_all add: st of_le_bytes_le_bytes)
  qed
  moreover have "hm_get ?e2 = hm_get (sk_delegation_epochs s)"
  proof
    show "hm_get ?e2 dv = hm_get (sk_delegation_epochs s) dv" for dv
      using dlg.restore_epochs_reads [OF hwf len8(2), of "[]" dv]
      by (cases "hm_get (sk_delegation_epochs s) dv") (simp_all add: st of_le_bytes_le_bytes)
  qed
  moreover have "restore_epoch (hm_get (eng_state e) epoch_key) staking_new = staking_new\<lparr>sk_current_epoch := sk_current_epoch s\<rparr>"
    using old by (auto simp: restore_epoch_def staking_new_def of_le_bytes_le_bytes split: option.splits)
  ultimately have "\<exists>s'. staking_restore sc (\<lambda>_. IoOk) (Some e) staking_new = (Ok (), s') \<and> same_staking s s'
      \<and> hm_wf (sk_stakes s') \<and> hm_wf (sk_delegations s')"
    using old m1(1,2) m2(1,2)
    by (simp add: staking_restore_def state_get_bytes_def restore_scan_def state_prefix_scan_Ok [OF wf] restore_stakes_def restore_delegations_def
        staking_new_def same_staking_def)
  then show ?thesis
    using synced_same [OF assms(2)] by blast
qed

end
