(* ===== verification/StakingRuns.thy ===== *)
theory StakingRuns
  imports Staking
begin

text \<open>
  Sequences of staking operations with restarts of the process (\<open>consensus/pos/staking.rs\<close>): a restart
  changes nothing, and tokens stay locked for the lock-up period.
\<close>

section \<open>Runs with restarts\<close>

text \<open>A restart drops the manager and builds a new one from the storage.\<close>

datatype staking_event = StakingOp staking_op | StakingRestart

fun staking_run ::
  "'c lru \<Rightarrow> staking_codec \<Rightarrow> staking_event list \<Rightarrow> staking \<times> 'c engine \<Rightarrow> (unit, staking_error) result list \<times> staking \<times> 'c engine" where
  "staking_run L sc [] p = ([], p)"
| "staking_run L sc (StakingOp op # es) p =
     (case staking_exec L sc (\<lambda>_. IoOk) op (fst p, Some (snd p)) of
        (r, s', e') \<Rightarrow> apfst (Cons r) (staking_run L sc es (s', the e')))"
| "staking_run L sc (StakingRestart # es) p = staking_run L sc es (staking_with_storage sc (\<lambda>_. IoOk) (snd p), snd p)"

definition no_staking_rows :: "'c engine \<Rightarrow> bool" where
  "no_staking_rows e \<longleftrightarrow> om_wf (eng_state e) \<and> list_all (\<lambda>(b, _). \<not> prefix STAKING_STATE_PREFIX b) (eng_state e)"

lemma exec_synced:
  assumes "staking_codec_ok sc" "staking_synced sc s e"
  obtains (ok) s' e' where "staking_mem op s = Ok s'" "staking_exec L sc (\<lambda>_. IoOk) op (s, Some e) = (Ok (), s', Some e')" "staking_synced sc s' e'"
    | (err) er where "staking_mem op s = Err er" "staking_exec L sc (\<lambda>_. IoOk) op (s, Some e) = (Err er, s, Some e)"
proof (cases "staking_mem op s")
  case (Ok s')
  then show ?thesis
    using persistence_syncs [OF assms Ok, of L] ok by (auto simp: staking_exec_def persisted_def)
qed (use err in \<open>simp add: staking_exec_def persisted_def\<close>)

lemma restart_synced:
  assumes "staking_codec_ok sc" "staking_synced sc s e"
  shows "same_staking s (staking_with_storage sc (\<lambda>_. IoOk) e)" "staking_synced sc (staking_with_storage sc (\<lambda>_. IoOk) e) e"
    "staking_load_or_init sc (\<lambda>_. IoOk) e = Ok (staking_with_storage sc (\<lambda>_. IoOk) e)"
  using restore_same [OF assms] by (auto simp: staking_with_storage_def staking_load_or_init_def)

lemma same_staking_trans: "same_staking s s' \<Longrightarrow> same_staking s s'' \<Longrightarrow> same_staking s' s''"
  by (simp add: same_staking_def)

lemma run_synced:
  assumes "staking_codec_ok sc" "staking_synced sc s e" "staking_run L sc es (s, e) = (outs, s', e')"
  shows "staking_synced sc s' e'"
  using assms(2,3)
proof (induction es arbitrary: s e outs)
  case (Cons ev es)
  show ?case
  proof (cases ev)
    case (StakingOp op)
    show ?thesis
      by (rule exec_synced [OF assms(1) Cons.prems(1), of op L])
         (use Cons.IH Cons.prems in \<open>auto simp: StakingOp apfst_def map_prod_def split: prod.splits\<close>)
  next
    case StakingRestart
    then show ?thesis
      using Cons.IH [OF restart_synced(2) [OF assms(1) Cons.prems(1)]] Cons.prems(2) by simp
  qed
qed simp

lemma run_same:
  assumes "staking_codec_ok sc" "staking_synced sc s e" "staking_synced sc s' e'" "same_staking s s'"
  shows "fst (staking_run L sc es (s, e)) = fst (staking_run L sc (filter (\<lambda>ev. ev \<noteq> StakingRestart) es) (s', e'))
       \<and> same_staking (fst (snd (staking_run L sc es (s, e)))) (fst (snd (staking_run L sc (filter (\<lambda>ev. ev \<noteq> StakingRestart) es) (s', e'))))"
  using assms(2,3,4)
proof (induction es arbitrary: s e s' e')
  case (Cons ev es)
  show ?case
  proof (cases ev)
    case (StakingOp op)
    note same = staking_mem_same [OF Cons.prems(3), of op]
    show ?thesis
      by (rule exec_synced [OF assms(1) Cons.prems(1), of op L]; rule exec_synced [OF assms(1) Cons.prems(2), of op L])
         (use same Cons.IH Cons.prems in \<open>simp_all add: StakingOp same_outcome_def\<close>)
  next
    case StakingRestart
    then show ?thesis
      using Cons.IH [OF restart_synced(2) [OF assms(1) Cons.prems(1)] Cons.prems(2)]
        same_staking_trans [OF restart_synced(1) [OF assms(1) Cons.prems(1)] Cons.prems(3)] by simp
  qed
qed simp

lemma fresh_synced:
  assumes "staking_codec_ok sc" "no_staking_rows e"
  shows "staking_synced sc (staking_with_storage sc (\<lambda>_. IoOk) e) e"
proof -
  have none: "hm_get (eng_state e) b = None" if "prefix STAKING_STATE_PREFIX b" for b
    using assms(2) that by (force simp: no_staking_rows_def list_all_iff map_of_eq_None_iff)
  have [simp]: "prefix STAKING_STATE_PREFIX epoch_key" "prefix STAKING_STATE_PREFIX (stake_key v)" "prefix STAKING_STATE_PREFIX (stake_epoch_key v)"
    "prefix STAKING_STATE_PREFIX (delegation_key d v)" "prefix STAKING_STATE_PREFIX (delegation_epoch_key d v)" for d v
    by (simp_all add: key_defs)
  have "staking_synced sc (staking_new\<lparr>sk_fully_restored := True\<rparr>) e"
    using assms(2) by (simp add: staking_synced_def staking_new_def stk.in_step_def dlg.in_step_def none no_staking_rows_def)
  then show ?thesis
    by (rule restart_synced(2) [OF assms(1)])
qed

text \<open>
  C6: restarts of the process are invisible. Starting on a storage without staking rows, any sequence of
  staking operations gives the same results whether or not the manager is dropped and rebuilt from
  the storage in between, and ends with the same stakes, delegations, lock-up epochs and current epoch;
  the final state can be loaded again. Assumes that decoding inverts encoding and that the storage
  accesses succeed.
\<close>

theorem restarts_invisible:
  assumes "staking_codec_ok sc" "no_staking_rows e"
    and "s = staking_with_storage sc (\<lambda>_. IoOk) e"
    and "staking_run L sc es (s, e) = (outs, s1, e1)"
    and "staking_run L sc (filter (\<lambda>ev. ev \<noteq> StakingRestart) es) (s, e) = (outs', s2, e2)"
  shows "outs = outs' \<and> same_staking s1 s2 \<and> (\<exists>s3. staking_load_or_init sc (\<lambda>_. IoOk) e1 = Ok s3 \<and> same_staking s1 s3)"
proof -
  have sync: "staking_synced sc s e"
    using fresh_synced [OF assms(1,2)] assms(3) by simp
  then have "staking_synced sc s1 e1"
    by (rule run_synced [OF assms(1) _ assms(4)])
  then show ?thesis
    using run_same [OF assms(1) sync sync, of L es] restart_synced [OF assms(1), of s1 e1]
    by (simp add: assms(4,5) same_staking_def)
qed

text \<open>A codec for the witnesses.\<close>

definition plain_codec :: staking_codec where
  "plain_codec =
     \<lparr>sc_stake_enc = (\<lambda>st. Some (be_bytes 32 (stk_validator st) @ be_bytes 32 (stk_amount st))),
      sc_stake_dec = (\<lambda>bs. Some \<lparr>stk_validator = of_be_bytes (take 32 bs), stk_amount = of_be_bytes (drop 32 bs)\<rparr>),
      sc_stake_legacy = (\<lambda>_. None),
      sc_u256_enc = (\<lambda>x. Some (be_bytes 32 x)), sc_u256_dec = (\<lambda>bs. Some (of_be_bytes bs)), sc_u256_legacy = (\<lambda>_. None)\<rparr>"

lemma plain_codec_ok: "staking_codec_ok plain_codec"
  by (simp add: staking_codec_ok_def plain_codec_def of_be_bytes_be_bytes)

theorem restarts_invisible_witness:
  "let es = [StakingOp (StakeTokens 1 20000), StakingRestart, StakingOp (UnstakeTokens 1 20000), StakingOp (DelegateStake 2 1 5), StakingRestart];
       e = engine_new ([] :: (bytes \<times> bytes) list); s = staking_with_storage plain_codec (\<lambda>_. IoOk) e;
       r = staking_run list_lru plain_codec es (s, e)
   in fst r = fst (staking_run list_lru plain_codec (filter (\<lambda>ev. ev \<noteq> StakingRestart) es) (s, e))
    \<and> (\<exists>s3. staking_load_or_init plain_codec (\<lambda>_. IoOk) (snd (snd r)) = Ok s3 \<and> same_staking (fst (snd r)) s3)"
proof -
  let ?es = "[StakingOp (StakeTokens 1 20000), StakingRestart, StakingOp (UnstakeTokens 1 20000), StakingOp (DelegateStake 2 1 5), StakingRestart]"
  let ?e = "engine_new ([] :: (bytes \<times> bytes) list)"
  let ?s = "staking_with_storage plain_codec (\<lambda>_. IoOk) ?e"
  obtain outs s1 e1 outs' s2 e2 where r: "staking_run list_lru plain_codec ?es (?s, ?e) = (outs, s1, e1)"
    "staking_run list_lru plain_codec (filter (\<lambda>ev. ev \<noteq> StakingRestart) ?es) (?s, ?e) = (outs', s2, e2)"
    by (metis prod_cases3)
  moreover have "no_staking_rows ?e"
    by (simp add: no_staking_rows_def engine_new_def)
  ultimately show ?thesis
    using restarts_invisible [OF plain_codec_ok _ refl r] by (simp only: Let_def r fst_conv snd_conv)
qed

lemma staking_mem_epoch:
  assumes "staking_mem op s = Ok s'" "ep \<le> sk_current_epoch s"
  shows "ep \<le> sk_current_epoch s'"
    and "\<forall>d. hm_get (sk_deposit_epochs s) v = Some d \<longrightarrow> ep \<le> d \<Longrightarrow> \<forall>d. hm_get (sk_deposit_epochs s') v = Some d \<longrightarrow> ep \<le> d"
    and "\<forall>d. hm_get (sk_delegation_epochs s) k = Some d \<longrightarrow> ep \<le> d \<Longrightarrow> \<forall>d. hm_get (sk_delegation_epochs s') k = Some d \<longrightarrow> ep \<le> d"
proof -
  have "x \<le> sat_add x 1" for x :: u64
    by (simp add: word_le_nat_alt unat_ops) (use unat_bound [of x] in simp)
  from order_trans [OF assms(2) this] have "ep \<le> sat_add (sk_current_epoch s) 1" .
  then show "ep \<le> sk_current_epoch s'"
    using assms by (cases op) (auto simp: mem_defs split: option.splits if_splits)
qed (use assms in \<open>cases op; auto simp: mem_defs split: option.splits if_splits\<close>)+

lemma run_epoch:
  assumes "staking_codec_ok sc" "staking_synced sc s e" "staking_run L sc es (s, e) = (outs, s', e')" "ep \<le> sk_current_epoch s"
  shows "ep \<le> sk_current_epoch s'
       \<and> ((\<forall>d. hm_get (sk_deposit_epochs s) v = Some d \<longrightarrow> ep \<le> d) \<longrightarrow> (\<forall>d. hm_get (sk_deposit_epochs s') v = Some d \<longrightarrow> ep \<le> d))
       \<and> ((\<forall>d. hm_get (sk_delegation_epochs s) k = Some d \<longrightarrow> ep \<le> d) \<longrightarrow> (\<forall>d. hm_get (sk_delegation_epochs s') k = Some d \<longrightarrow> ep \<le> d))"
  using assms(2-4)
proof (induction es arbitrary: s e outs)
  case (Cons ev es)
  show ?case
  proof (cases ev)
    case (StakingOp op)
    show ?thesis
    proof (rule exec_synced [OF assms(1) Cons.prems(1), of op L])
      fix s1 e1
      assume op: "staking_mem op s = Ok s1" "staking_exec L sc (\<lambda>_. IoOk) op (s, Some e) = (Ok (), s1, Some e1)" "staking_synced sc s1 e1"
      obtain outs1 where "staking_run L sc es (s1, e1) = (outs1, s', e')"
        using Cons.prems(2) op(2) by (auto simp: StakingOp apfst_def map_prod_def split: prod.splits)
      note tail = Cons.IH [OF op(3) this staking_mem_epoch(1) [OF op(1) Cons.prems(3)]]
      show ?thesis
        using tail staking_mem_epoch(2) [OF op(1) Cons.prems(3), of v] staking_mem_epoch(3) [OF op(1) Cons.prems(3), of k]
        by blast
    next
      fix er
      assume "staking_mem op s = Err er" "staking_exec L sc (\<lambda>_. IoOk) op (s, Some e) = (Err er, s, Some e)"
      then obtain outs1 where "staking_run L sc es (s, e) = (outs1, s', e')"
        using Cons.prems(2) by (auto simp: StakingOp apfst_def map_prod_def split: prod.splits)
      from Cons.IH [OF Cons.prems(1) this Cons.prems(3)] show ?thesis .
    qed
  next
    case StakingRestart
    define n where "n = staking_with_storage sc (\<lambda>_. IoOk) e"
    have run: "staking_run L sc es (n, e) = (outs, s', e')"
      using Cons.prems(2) by (simp add: StakingRestart n_def)
    have same: "hm_get (sk_deposit_epochs n) = hm_get (sk_deposit_epochs s)" "hm_get (sk_delegation_epochs n) = hm_get (sk_delegation_epochs s)"
      "sk_current_epoch n = sk_current_epoch s" and sync: "staking_synced sc n e"
      using restart_synced(1,2) [OF assms(1) Cons.prems(1)] unfolding n_def same_staking_def by blast+
    show ?thesis
      using Cons.IH [OF sync run] Cons.prems(3) unfolding same by blast
  qed
qed simp

lemma put_in_okD:
  "stake_tokens_mem v a s = Ok s' \<Longrightarrow> hm_get (sk_deposit_epochs s') v = Some (sk_current_epoch s)"
  "delegate_stake_mem d v a s = Ok s' \<Longrightarrow> hm_get (sk_delegation_epochs s') (d, v) = Some (sk_current_epoch s)"
  by (auto simp: mem_defs split: if_splits)

lemma take_out_okD:
  "unstake_tokens_mem v x s = Ok s' \<Longrightarrow>
     \<exists>dep. hm_get (sk_deposit_epochs s) v = Some dep \<and> sat_add dep (sk_lockup_epochs s) \<le> sk_current_epoch s"
  "undelegate_stake_mem d v x s = Ok s' \<Longrightarrow>
     \<exists>dep. hm_get (sk_delegation_epochs s) (d, v) = Some dep \<and> sat_add dep (sk_lockup_epochs s) \<le> sk_current_epoch s"
  by (auto simp: mem_defs not_less split: if_splits option.splits)

text \<open>
  C9: the lock-up holds. Once a deposit or a delegation was accepted in an epoch, an operation that takes tokens
  out of the same position is accepted only when the current epoch has reached that epoch plus the
  lock-up period, whatever operations and restarts of the process come in between.
\<close>

theorem lockup_enforced:
  assumes "staking_codec_ok sc" "no_staking_rows e0"
    and "staking_run L sc es0 (staking_with_storage sc (\<lambda>_. IoOk) e0, e0) = (outs0, s, e)"
    and "(put, out) \<in> {(StakeTokens v a, UnstakeTokens v x), (DelegateStake d v a, UndelegateStake d v x)}"
    and "staking_exec L sc (\<lambda>_. IoOk) put (s, Some e) = (Ok (), s1, Some e1)"
    and "staking_run L sc es (s1, e1) = (outs, s2, e2)"
    and "fst (staking_exec L sc (\<lambda>_. IoOk) out (s2, Some e2)) = Ok ()"
  shows "sat_add (sk_current_epoch s) DEFAULT_LOCKUP_PERIOD_EPOCHS \<le> sk_current_epoch s2"
proof -
  have "staking_synced sc s e"
    using run_synced [OF assms(1) fresh_synced [OF assms(1,2)] assms(3)] .
  then have put: "staking_mem put s = Ok s1" "staking_synced sc s1 e1"
    using assms(5) by (cases rule: exec_synced [OF assms(1), of s e put L], auto)+
  have mono: "sat_add y z \<le> sat_add y' z" if "y \<le> y'" for y y' z :: u64
    using that by (simp add: word_le_nat_alt unat_ops min_def)
  have sync2: "staking_synced sc s2 e2"
    using run_synced [OF assms(1) put(2) assms(6)] .
  then have out: "\<exists>s3. staking_mem out s2 = Ok s3"
    using assms(7) by (cases rule: exec_synced [OF assms(1), of s2 e2 out L]) auto
  have lock: "sk_lockup_epochs s2 = DEFAULT_LOCKUP_PERIOD_EPOCHS"
    using sync2 by (simp add: staking_synced_def)
  have "sk_current_epoch s1 = sk_current_epoch s"
    using assms(4) put(1) by (auto simp: mem_defs split: if_splits)
  then have "sk_current_epoch s \<le> sk_current_epoch s1"
    by simp
  note epoch = run_epoch [OF assms(1) put(2) assms(6) this, of v "(d, v)"]
  from assms(4) consider "put = StakeTokens v a" "out = UnstakeTokens v x" | "put = DelegateStake d v a" "out = UndelegateStake d v x"
    by blast
  then have "\<exists>dep. sk_current_epoch s \<le> dep \<and> sat_add dep DEFAULT_LOCKUP_PERIOD_EPOCHS \<le> sk_current_epoch s2"
  proof cases
    case 1
    obtain dep where dep: "hm_get (sk_deposit_epochs s2) v = Some dep" "sat_add dep (sk_lockup_epochs s2) \<le> sk_current_epoch s2"
      using out take_out_okD(1) [of v x s2] unfolding 1 by auto
    have "\<forall>t. hm_get (sk_deposit_epochs s1) v = Some t \<longrightarrow> sk_current_epoch s \<le> t"
      using put(1) put_in_okD(1) [of v a s s1] unfolding 1 by simp
    then have "sk_current_epoch s \<le> dep"
      using epoch dep(1) by blast
    then show ?thesis
      using dep(2) unfolding lock by blast
  next
    case 2
    obtain dep where dep: "hm_get (sk_delegation_epochs s2) (d, v) = Some dep" "sat_add dep (sk_lockup_epochs s2) \<le> sk_current_epoch s2"
      using out take_out_okD(2) [of d v x s2] unfolding 2 by auto
    have "\<forall>t. hm_get (sk_delegation_epochs s1) (d, v) = Some t \<longrightarrow> sk_current_epoch s \<le> t"
      using put(1) put_in_okD(2) [of d v a s s1] unfolding 2 by simp
    then have "sk_current_epoch s \<le> dep"
      using epoch dep(1) by blast
    then show ?thesis
      using dep(2) unfolding lock by blast
  qed
  then show ?thesis
    using mono order_trans by blast
qed

text \<open>Without restarts the manager goes through the states of its memory.\<close>

definition mem_apply :: "staking_op \<Rightarrow> staking \<Rightarrow> staking" where
  "mem_apply op s = (case staking_mem op s of Ok s' \<Rightarrow> s' | Err _ \<Rightarrow> s)"

lemma run_mem:
  assumes "staking_codec_ok sc" "staking_synced sc s e"
  shows "fst (snd (staking_run L sc (map StakingOp ops) (s, e))) = fold mem_apply ops s"
  using assms(2)
proof (induction ops arbitrary: s e)
  case (Cons op ops)
  show ?case
    by (rule exec_synced [OF assms(1) Cons.prems, of op L]) (use Cons in \<open>simp_all add: mem_apply_def\<close>)
qed simp

theorem lockup_enforced_witness:
  "\<exists>s1 e1 outs s2 e2.
     staking_exec list_lru plain_codec (\<lambda>_. IoOk) (StakeTokens 1 20000)
       (staking_with_storage plain_codec (\<lambda>_. IoOk) (engine_new ([] :: (bytes \<times> bytes) list)), Some (engine_new [])) = (Ok (), s1, Some e1)
   \<and> staking_run list_lru plain_codec (map StakingOp [EpochUpdate, EpochUpdate, EpochUpdate, EpochUpdate, EpochUpdate, EpochUpdate, EpochUpdate]) (s1, e1) = (outs, s2, e2)
   \<and> fst (staking_exec list_lru plain_codec (\<lambda>_. IoOk) (UnstakeTokens 1 20000) (s2, Some e2)) = Ok ()
   \<and> sat_add (sk_current_epoch (staking_with_storage plain_codec (\<lambda>_. IoOk) (engine_new ([] :: (bytes \<times> bytes) list))))
       DEFAULT_LOCKUP_PERIOD_EPOCHS \<le> sk_current_epoch s2"
proof -
  let ?e = "engine_new ([] :: (bytes \<times> bytes) list)"
  let ?s = "staking_with_storage plain_codec (\<lambda>_. IoOk) ?e"
  have fresh: "no_staking_rows ?e"
    by (simp add: no_staking_rows_def engine_new_def)
  note sync = fresh_synced [OF plain_codec_ok fresh]
  have s: "?s = staking_new\<lparr>sk_fully_restored := True\<rparr>"
    by (simp add: staking_with_storage_def staking_restore_def state_get_bytes_def engine_new_def restore_scan_def restore_epoch_def
        state_prefix_scan_Ok restore_stakes_def restore_delegations_def restore_epochs_def staking_new_def)
  obtain s1 where mem: "staking_mem (StakeTokens 1 20000) ?s = Ok s1"
    by (simp add: s mem_defs MIN_VALIDATOR_STAKE_def)
  then obtain e1 where ex: "staking_exec list_lru plain_codec (\<lambda>_. IoOk) (StakeTokens 1 20000) (?s, Some ?e) = (Ok (), s1, Some e1)"
    and sync1: "staking_synced plain_codec s1 e1"
    by (cases rule: exec_synced [OF plain_codec_ok sync, of "StakeTokens 1 20000" list_lru]) auto
  obtain outs s2 e2 where run: "staking_run list_lru plain_codec (map StakingOp [EpochUpdate, EpochUpdate, EpochUpdate, EpochUpdate, EpochUpdate, EpochUpdate, EpochUpdate]) (s1, e1) = (outs, s2, e2)"
    by (metis prod_cases3)
  have s2: "s2 = fold mem_apply [EpochUpdate, EpochUpdate, EpochUpdate, EpochUpdate, EpochUpdate, EpochUpdate, EpochUpdate] s1"
    using run_mem [OF plain_codec_ok sync1, of list_lru "[EpochUpdate, EpochUpdate, EpochUpdate, EpochUpdate, EpochUpdate, EpochUpdate, EpochUpdate]"] unfolding run by simp
  have "\<exists>s3. staking_mem (UnstakeTokens 1 20000) s2 = Ok s3"
    using mem unfolding s2
    by (auto simp: s staking_new_def mem_defs MIN_VALIDATOR_STAKE_def mem_apply_def word_arith_code DEFAULT_LOCKUP_PERIOD_EPOCHS_def)
  then have out: "fst (staking_exec list_lru plain_codec (\<lambda>_. IoOk) (UnstakeTokens 1 20000) (s2, Some e2)) = Ok ()"
    using run_synced [OF plain_codec_ok sync1 run]
    by (cases rule: exec_synced [OF plain_codec_ok, of s2 e2 "UnstakeTokens 1 20000" list_lru]) auto
  have "staking_run list_lru plain_codec [] (?s, ?e) = ([], ?s, ?e)" by simp
  from lockup_enforced [OF plain_codec_ok fresh this insertI1 ex run out] ex run out show ?thesis
    by blast
qed

text \<open>
  The lock-up of a delegation binds the delegator only. A validator whose own deposit has matured takes
  out the delegated tokens in the epoch they arrived in, and the delegator is left without a stake to withdraw.
\<close>

theorem validator_withdraws_delegation:
  defines "s \<equiv> fold mem_apply (StakeTokens 1 10000 # replicate 7 EpochUpdate @ [DelegateStake 2 1 5000]) staking_new"
  shows "\<exists>s'. staking_mem (UnstakeTokens 1 15000) s = Ok s'
     \<and> hm_get (sk_delegations s') (2, 1) = Some 5000
     \<and> staking_mem (UndelegateStake 2 1 5000) (fold mem_apply (replicate 7 EpochUpdate) s') = Err (NoStake 1)"
proof -
  have 7: "replicate 7 x = [x, x, x, x, x, x, x]" for x :: staking_op
    by (simp add: numeral_eq_Suc)
  show ?thesis
    unfolding s_def 7
    by (simp add: staking_new_def mem_defs MIN_VALIDATOR_STAKE_def mem_apply_def word_arith_code DEFAULT_LOCKUP_PERIOD_EPOCHS_def sat_sub_def)
qed

end
