(* ===== verification/MvMemory.thy ===== *)
theory MvMemory
  imports Prelude "HOL-Library.Product_Lexorder"
begin

text \<open>
  The multi-version memory of the parallel executor (\<open>execution/parallel/mv_memory.rs\<close>): per key the
  versions written by the executions of the transactions of a block, and per execution what it read and
  wrote. The locks serialise the operations, so each operation is a function on the state of the memory; a
  poisoned lock, which needs a panic of another thread, is left out. Indices and counters (\<open>usize\<close>) are
  natural numbers.
\<close>

section \<open>State\<close>

record tx_version =
  tv_index :: nat
  tv_incarnation :: nat

definition tv_new :: "nat \<Rightarrow> tx_version" where
  "tv_new i = \<lparr>tv_index = i, tv_incarnation = 0\<rparr>"

definition tv_retry :: "tx_version \<Rightarrow> tx_version" where
  "tv_retry tv = \<lparr>tv_index = tv_index tv, tv_incarnation = tv_incarnation tv + 1\<rparr>"

datatype version_status = Speculative | Committed | Aborted

record version =
  vr_tx :: tx_version
  vr_value :: bytes
  vr_status :: version_status

definition speculative_version :: "tx_version \<Rightarrow> bytes \<Rightarrow> version" where
  "speculative_version tv v = \<lparr>vr_tx = tv, vr_value = v, vr_status = Speculative\<rparr>"

record read_record =
  rr_key :: bytes
  rr_observed :: "tx_version option"

record spec_state =
  sp_reads :: "read_record list"
  sp_writes :: "bytes list"

definition spec_default :: spec_state where
  "spec_default = \<lparr>sp_reads = [], sp_writes = []\<rparr>"

record mv_memory =
  mv_versions :: "(bytes, version list) hashmap"
  mv_watermark :: "nat option"
  mv_speculative :: "(tx_version, spec_state) hashmap"

definition mv_new :: mv_memory where
  "mv_new = \<lparr>mv_versions = [], mv_watermark = None, mv_speculative = []\<rparr>"

section \<open>Operations\<close>

definition vr_key :: "version \<Rightarrow> nat \<times> nat" where
  "vr_key v = (tv_index (vr_tx v), tv_incarnation (vr_tx v))"

definition versions_of :: "mv_memory \<Rightarrow> bytes \<Rightarrow> version list" where
  "versions_of m k = (case hm_get (mv_versions m) k of Some vs \<Rightarrow> vs | None \<Rightarrow> [])"

definition spec_of :: "mv_memory \<Rightarrow> tx_version \<Rightarrow> spec_state" where
  "spec_of m tv = (case hm_get (mv_speculative m) tv of Some s \<Rightarrow> s | None \<Rightarrow> spec_default)"

definition record_speculative_write :: "tx_version \<Rightarrow> bytes \<Rightarrow> bytes \<Rightarrow> mv_memory \<Rightarrow> mv_memory" where
  "record_speculative_write tv k x m =
     (let kept = filter (\<lambda>v. tv_index (vr_tx v) \<noteq> tv_index tv \<or> tv_incarnation (vr_tx v) \<noteq> tv_incarnation tv) (versions_of m k);
          s = spec_of m tv
      in m\<lparr>mv_versions := hm_insert k (sort_key vr_key (kept @ [speculative_version tv x])) (mv_versions m),
           mv_speculative := hm_insert tv (s\<lparr>sp_writes := sp_writes s @ [k]\<rparr>) (mv_speculative m)\<rparr>)"

text \<open>The last committed version below an index; the code spells this search out three times.\<close>

definition committed_before :: "nat \<Rightarrow> version list \<Rightarrow> version option" where
  "committed_before i vs = List.find (\<lambda>v. vr_status v = Committed \<and> tv_index (vr_tx v) < i) (rev vs)"

definition read_latest_committed :: "bytes \<Rightarrow> nat \<Rightarrow> mv_memory \<Rightarrow> bytes option" where
  "read_latest_committed k i m = map_option vr_value (committed_before i (versions_of m k))"

definition observed_version :: "tx_version \<Rightarrow> bytes \<Rightarrow> mv_memory \<Rightarrow> version option" where
  "observed_version tv k m =
     (case List.find (\<lambda>v. vr_tx v = tv) (rev (versions_of m k)) of
        Some own \<Rightarrow> Some own
      | None \<Rightarrow> committed_before (tv_index tv) (versions_of m k))"

definition read_at_version :: "tx_version \<Rightarrow> bytes \<Rightarrow> mv_memory \<Rightarrow> bytes option \<times> mv_memory" where
  "read_at_version tv k m =
     (let observed = observed_version tv k m; s = spec_of m tv
      in (map_option vr_value observed,
          m\<lparr>mv_speculative := hm_insert tv
              (s\<lparr>sp_reads := sp_reads s @ [\<lparr>rr_key = k, rr_observed = map_option vr_tx observed\<rparr>]\<rparr>) (mv_speculative m)\<rparr>))"

definition validate_reads :: "tx_version \<Rightarrow> mv_memory \<Rightarrow> bool" where
  "validate_reads tv m =
     (case hm_get (mv_speculative m) tv of
        None \<Rightarrow> True
      | Some s \<Rightarrow>
          list_all (\<lambda>r. map_option vr_tx (committed_before (tv_index tv) (versions_of m (rr_key r))) = rr_observed r) (sp_reads s))"

definition detect_write_conflicts :: "tx_version \<Rightarrow> bytes list \<Rightarrow> mv_memory \<Rightarrow> tx_version list" where
  "detect_write_conflicts tv committed_keys m =
     sort_key (\<lambda>t. (tv_index t, tv_incarnation t))
       (map fst (filter (\<lambda>(other, s). tv_index tv < tv_index other \<and> list_ex (\<lambda>k. k \<in> set (sp_writes s)) committed_keys) (mv_speculative m)))"

definition discard_speculative :: "tx_version \<Rightarrow> mv_memory \<Rightarrow> mv_memory" where
  "discard_speculative tv m =
     m\<lparr>mv_versions := map (\<lambda>(k, vs). (k, filter (\<lambda>v. vr_tx v \<noteq> tv) vs)) (mv_versions m),
       mv_speculative := hm_remove tv (mv_speculative m)\<rparr>"

definition promotes :: "tx_version \<Rightarrow> version \<Rightarrow> bool" where
  "promotes tv v = (vr_tx v = tv \<and> vr_status v = Speculative)"

definition promote_to_committed :: "tx_version \<Rightarrow> mv_memory \<Rightarrow> bytes list \<times> mv_memory" where
  "promote_to_committed tv m =
     (concat (map (\<lambda>(k, vs). map (\<lambda>_. k) (filter (promotes tv) vs)) (mv_versions m)),
      m\<lparr>mv_versions := map (\<lambda>(k, vs). (k, map (\<lambda>v. if promotes tv v then v\<lparr>vr_status := Committed\<rparr> else v) vs)) (mv_versions m),
        mv_watermark := (let wm = (case mv_watermark m of Some w \<Rightarrow> w | None \<Rightarrow> 0)
                         in Some (if wm \<le> tv_index tv then tv_index tv else wm))\<rparr>)"

definition mv_gc :: "nat \<Rightarrow> mv_memory \<Rightarrow> nat \<times> mv_memory" where
  "mv_gc lo m =
     (let kept = map (\<lambda>(k, vs). (k, filter (\<lambda>v. lo \<le> tv_index (vr_tx v)) vs)) (mv_versions m)
      in (sum_list (map2 (\<lambda>(_, vs) (_, vs'). length vs - length vs') (mv_versions m) kept),
          m\<lparr>mv_versions := filter (\<lambda>(_, vs). vs \<noteq> []) kept,
            mv_speculative := filter (\<lambda>(tv, _). lo \<le> tv_index tv) (mv_speculative m)\<rparr>))"

definition committed_watermark :: "mv_memory \<Rightarrow> nat option" where
  "committed_watermark m = mv_watermark m"

definition speculative_state :: "tx_version \<Rightarrow> mv_memory \<Rightarrow> spec_state option" where
  "speculative_state tv m = hm_get (mv_speculative m) tv"

definition committed_keys :: "mv_memory \<Rightarrow> bytes list" where
  "committed_keys m = map fst (filter (\<lambda>(_, vs). list_ex (\<lambda>v. vr_status v = Committed) vs) (mv_versions m))"

definition pending_speculative_versions :: "mv_memory \<Rightarrow> tx_version list" where
  "pending_speculative_versions m = map fst (mv_speculative m)"

section \<open>What the memory holds\<close>

text \<open>
  The lists are sorted by transaction and incarnation. The committed values of a key, by transaction, and the
  pending values of one execution say what readers can see.
\<close>

definition mv_sorted :: "mv_memory \<Rightarrow> bool" where
  "mv_sorted m \<longleftrightarrow> (\<forall>k. sorted (map vr_key (versions_of m k)))"

definition cset :: "mv_memory \<Rightarrow> bytes \<Rightarrow> (nat \<times> bytes) set" where
  "cset m k = {(tv_index (vr_tx v), vr_value v) | v. v \<in> set (versions_of m k) \<and> vr_status v = Committed}"

definition sset :: "mv_memory \<Rightarrow> tx_version \<Rightarrow> bytes \<Rightarrow> bytes set" where
  "sset m tv k = {vr_value v | v. v \<in> set (versions_of m k) \<and> promotes tv v}"

text \<open>The executions that have a version in the memory, and those that have a committed one.\<close>

definition has_version :: "mv_memory \<Rightarrow> tx_version \<Rightarrow> bool" where
  "has_version m tv \<longleftrightarrow> (\<exists>k. \<exists>v \<in> set (versions_of m k). vr_tx v = tv)"

definition has_committed :: "mv_memory \<Rightarrow> tx_version \<Rightarrow> bool" where
  "has_committed m tv \<longleftrightarrow> (\<exists>k. \<exists>v \<in> set (versions_of m k). vr_tx v = tv \<and> vr_status v \<noteq> Speculative)"

lemma in_cset: "(i, x) \<in> cset m k \<longleftrightarrow> (\<exists>v \<in> set (versions_of m k). vr_status v = Committed \<and> tv_index (vr_tx v) = i \<and> vr_value v = x)"
  by (auto simp: cset_def)

lemma in_sset: "x \<in> sset m tv k \<longleftrightarrow> (\<exists>v \<in> set (versions_of m k). promotes tv v \<and> vr_value v = x)"
  by (auto simp: sset_def)

lemma find_rev_sorted:
  assumes "sorted (map f vs)" "List.find P (rev vs) = Some v" "w \<in> set vs" "P w"
  shows "f w \<le> f v"
proof -
  from assms(2) obtain i where i: "i < length vs" "v = rev vs ! i" "\<forall>j<i. \<not> P (rev vs ! j)"
    by (auto simp: find_Some_iff)
  from assms(3) obtain j where j: "j < length vs" "w = rev vs ! j"
    by (metis in_set_conv_nth length_rev set_rev)
  then have "i \<le> j" using i(3) assms(4) by (metis not_le)
  then have "length vs - Suc j \<le> length vs - Suc i" by simp
  then have "map f vs ! (length vs - Suc j) \<le> map f vs ! (length vs - Suc i)"
    using assms(1) i(1) by (intro sorted_nth_mono) simp_all
  then show ?thesis
    using i(1,2) j by (simp add: rev_nth)
qed

text \<open>Readers see the value of the last writer among the committed transactions below them.\<close>

lemma latest_committed_iff:
  assumes "mv_sorted m" "\<And>i x y. (i, x) \<in> cset m k \<Longrightarrow> (i, y) \<in> cset m k \<Longrightarrow> x = y"
  shows "read_latest_committed k j m = Some x
     \<longleftrightarrow> (\<exists>i < j. (i, x) \<in> cset m k \<and> (\<forall>i' y. i' < j \<longrightarrow> (i', y) \<in> cset m k \<longrightarrow> i' \<le> i))"
proof
  assume "read_latest_committed k j m = Some x"
  then obtain v where v: "committed_before j (versions_of m k) = Some v" "vr_value v = x"
    by (auto simp: read_latest_committed_def)
  then have "v \<in> set (versions_of m k)" "vr_status v = Committed" "tv_index (vr_tx v) < j"
    by (auto simp: committed_before_def dest: find_Some_iff_set)
  moreover have "tv_index (vr_tx w) \<le> tv_index (vr_tx v)"
    if "w \<in> set (versions_of m k)" "vr_status w = Committed" "tv_index (vr_tx w) < j" for w
    using find_rev_sorted [of vr_key "versions_of m k", OF _ v(1) [unfolded committed_before_def] that(1)] that assms(1)
    by (auto simp: mv_sorted_def vr_key_def)
  ultimately show "\<exists>i < j. (i, x) \<in> cset m k \<and> (\<forall>i' y. i' < j \<longrightarrow> (i', y) \<in> cset m k \<longrightarrow> i' \<le> i)"
    using v(2) by (fastforce simp: cset_def)
next
  assume "\<exists>i < j. (i, x) \<in> cset m k \<and> (\<forall>i' y. i' < j \<longrightarrow> (i', y) \<in> cset m k \<longrightarrow> i' \<le> i)"
  then obtain i where i: "i < j" "(i, x) \<in> cset m k" "\<And>i' y. i' < j \<Longrightarrow> (i', y) \<in> cset m k \<Longrightarrow> i' \<le> i"
    by blast
  then obtain w where w: "w \<in> set (versions_of m k)" "vr_status w = Committed" "tv_index (vr_tx w) = i" "vr_value w = x"
    by (auto simp: cset_def)
  then obtain v where v: "committed_before j (versions_of m k) = Some v"
    using i(1) by (cases "committed_before j (versions_of m k)") (auto simp: committed_before_def find_None_iff)
  then have vin: "v \<in> set (versions_of m k)" "vr_status v = Committed" "tv_index (vr_tx v) < j"
    by (auto simp: committed_before_def dest: find_Some_iff_set)
  have "vr_key w \<le> vr_key v"
    using find_rev_sorted [of vr_key "versions_of m k", OF _ v [unfolded committed_before_def] w(1)] w i(1) assms(1)
    by (simp add: mv_sorted_def)
  then have "i \<le> tv_index (vr_tx v)"
    using w(3) by (auto simp: vr_key_def less_eq_prod_def)
  moreover have "(tv_index (vr_tx v), vr_value v) \<in> cset m k"
    using vin by (auto simp: cset_def)
  ultimately have "vr_value v = x"
    using i(2,3) vin(3) assms(2) by (metis le_antisym)
  then show "read_latest_committed k j m = Some x"
    using v by (simp add: read_latest_committed_def)
qed

section \<open>What the operations do\<close>

lemma tx_version_eq_iff: "(tv :: tx_version) = tv' \<longleftrightarrow> tv_index tv = tv_index tv' \<and> tv_incarnation tv = tv_incarnation tv'"
  by (cases tv; cases tv') simp

lemma versions_write [simp]:
  "versions_of (record_speculative_write tv k x m) k' =
     (if k' = k then sort_key vr_key (filter (\<lambda>v. vr_tx v \<noteq> tv) (versions_of m k) @ [speculative_version tv x]) else versions_of m k')"
proof -
  have other: "(\<lambda>v. tv_index (vr_tx v) \<noteq> tv_index tv \<or> tv_incarnation (vr_tx v) \<noteq> tv_incarnation tv) = (\<lambda>v. vr_tx v \<noteq> tv)"
    by (auto simp: fun_eq_iff tx_version_eq_iff)
  show ?thesis
    unfolding record_speculative_write_def Let_def other by (simp add: versions_of_def)
qed

lemma versions_read [simp]: "versions_of (snd (read_at_version tv k m)) k' = versions_of m k'"
  by (simp add: read_at_version_def Let_def versions_of_def)

lemma map_of_map_values: "map_of (map (\<lambda>(k, v). (k, f v)) xs) k = map_option f (map_of xs k)"
  by (induction xs) auto

lemma versions_discard [simp]: "versions_of (discard_speculative tv m) k = filter (\<lambda>v. vr_tx v \<noteq> tv) (versions_of m k)"
  by (simp add: discard_speculative_def versions_of_def map_of_map_values split: option.splits)

lemma versions_promote [simp]:
  "versions_of (snd (promote_to_committed tv m)) k = map (\<lambda>v. if promotes tv v then v\<lparr>vr_status := Committed\<rparr> else v) (versions_of m k)"
  by (simp add: promote_to_committed_def versions_of_def map_of_map_values split: option.splits)

lemma versions_new [simp]: "versions_of mv_new k = []"
  by (simp add: mv_new_def versions_of_def)

lemma mv_sorted_ops:
  "mv_sorted mv_new"
  "mv_sorted m \<Longrightarrow> mv_sorted (record_speculative_write tv k x m)"
  "mv_sorted m \<Longrightarrow> mv_sorted (snd (read_at_version tv k m))"
  "mv_sorted m \<Longrightarrow> mv_sorted (discard_speculative tv m)"
  "mv_sorted m \<Longrightarrow> mv_sorted (snd (promote_to_committed tv m))"
proof -
  have "map vr_key (map (\<lambda>v. if promotes tv v then v\<lparr>vr_status := Committed\<rparr> else v) vs) = map vr_key vs" for vs
    by (induction vs) (auto simp: vr_key_def)
  then show "mv_sorted m \<Longrightarrow> mv_sorted (snd (promote_to_committed tv m))"
    unfolding mv_sorted_def versions_promote by presburger
qed (auto simp: mv_sorted_def sorted_filter)

lemma read_transparent [simp]:
  "cset (snd (read_at_version tv k m)) k' = cset m k'"
  "sset (snd (read_at_version tv k m)) tv' k' = sset m tv' k'"
  "has_version (snd (read_at_version tv k m)) tv' = has_version m tv'"
  by (simp_all add: cset_def sset_def has_version_def)

lemma speculative_version_fields [simp]:
  "vr_tx (speculative_version tv x) = tv" "vr_value (speculative_version tv x) = x" "vr_status (speculative_version tv x) = Speculative"
  by (simp_all add: speculative_version_def)

lemma write_effect:
  assumes "\<not> has_committed m tv"
  shows "cset (record_speculative_write tv k x m) k' = cset m k'"
    and "sset (record_speculative_write tv k x m) tv' k' = (if tv' = tv \<and> k' = k then {x} else sset m tv' k')"
    and "has_version (record_speculative_write tv k x m) tv' \<longleftrightarrow> tv' = tv \<or> has_version m tv'"
    and "has_committed (record_speculative_write tv k x m) tv' \<longleftrightarrow> has_committed m tv'"
proof -
  show "cset (record_speculative_write tv k x m) k' = cset m k'"
    using assms by (auto simp: set_eq_iff in_cset has_committed_def)
  have "y \<in> sset (record_speculative_write tv k x m) tv' k' \<longleftrightarrow> y \<in> (if tv' = tv \<and> k' = k then {x} else sset m tv' k')" for y
    by (cases "k' = k"; cases "tv' = tv") (auto simp: in_sset promotes_def)
  then show "sset (record_speculative_write tv k x m) tv' k' = (if tv' = tv \<and> k' = k then {x} else sset m tv' k')"
    by blast
  show "has_version (record_speculative_write tv k x m) tv' \<longleftrightarrow> tv' = tv \<or> has_version m tv'"
    by (auto simp: has_version_def split: if_splits)
  have "(\<exists>v \<in> set (versions_of (record_speculative_write tv k x m) k''). vr_tx v = tv' \<and> vr_status v \<noteq> Speculative)
     \<longleftrightarrow> (\<exists>v \<in> set (versions_of m k''). vr_tx v = tv' \<and> vr_status v \<noteq> Speculative)" for k''
    using assms by (cases "k'' = k") (auto simp: has_committed_def)
  then show "has_committed (record_speculative_write tv k x m) tv' \<longleftrightarrow> has_committed m tv'"
    unfolding has_committed_def by simp
qed

lemma discard_effect:
  assumes "\<not> has_committed m tv"
  shows "cset (discard_speculative tv m) k = cset m k"
    and "sset (discard_speculative tv m) tv' k = (if tv' = tv then {} else sset m tv' k)"
    and "has_version (discard_speculative tv m) tv' \<longleftrightarrow> tv' \<noteq> tv \<and> has_version m tv'"
  using assms
  by (auto simp: cset_def sset_def has_version_def has_committed_def promotes_def)

lemma promote_effect:
  "cset (snd (promote_to_committed tv m)) k = cset m k \<union> {tv_index tv} \<times> sset m tv k"
  "sset (snd (promote_to_committed tv m)) tv' k = (if tv' = tv then {} else sset m tv' k)"
  "has_version (snd (promote_to_committed tv m)) tv' \<longleftrightarrow> has_version m tv'"
proof -
  have "(i, x) \<in> cset (snd (promote_to_committed tv m)) k
     \<longleftrightarrow> (\<exists>v \<in> set (versions_of m k). (vr_status v = Committed \<or> promotes tv v) \<and> tv_index (vr_tx v) = i \<and> vr_value v = x)" for i x
    unfolding in_cset versions_promote set_map bex_simps(7) by (rule bex_cong) (auto simp: promotes_def)
  then show "cset (snd (promote_to_committed tv m)) k = cset m k \<union> {tv_index tv} \<times> sset m tv k"
    by (auto simp: set_eq_iff in_cset in_sset promotes_def)
  have "x \<in> sset (snd (promote_to_committed tv m)) tv' k \<longleftrightarrow> (\<exists>v \<in> set (versions_of m k). tv' \<noteq> tv \<and> promotes tv' v \<and> vr_value v = x)" for x
    unfolding in_sset versions_promote set_map bex_simps(7) by (rule bex_cong) (auto simp: promotes_def)
  then show "sset (snd (promote_to_committed tv m)) tv' k = (if tv' = tv then {} else sset m tv' k)"
    by (auto simp: set_eq_iff in_sset)
  show "has_version (snd (promote_to_committed tv m)) tv' \<longleftrightarrow> has_version m tv'"
    unfolding has_version_def versions_promote set_map bex_simps(7) by (intro ex_cong1 bex_cong) auto
qed

lemma committed_is_version: "has_committed m tv \<Longrightarrow> has_version m tv"
  by (auto simp: has_committed_def has_version_def)

text \<open>An execution without versions of its own reads the committed values.\<close>

lemma observed_fresh:
  assumes "\<not> has_version m tv"
  shows "fst (read_at_version tv k m) = read_latest_committed k (tv_index tv) m"
proof -
  have "List.find (\<lambda>v. vr_tx v = tv) (rev (versions_of m k)) = None"
    using assms by (auto simp: has_version_def find_None_iff)
  then show ?thesis
    by (simp add: read_at_version_def Let_def observed_version_def read_latest_committed_def)
qed

text \<open>What a reader sees depends on the committed values below it only.\<close>

lemma latest_same_cset:
  assumes "mv_sorted m" "mv_sorted m'" "\<And>i x y. (i, x) \<in> cset m k \<Longrightarrow> (i, y) \<in> cset m k \<Longrightarrow> x = y"
    and "\<And>i x y. (i, x) \<in> cset m' k \<Longrightarrow> (i, y) \<in> cset m' k \<Longrightarrow> x = y"
    and same: "\<And>i x. i < j \<Longrightarrow> (i, x) \<in> cset m k \<longleftrightarrow> (i, x) \<in> cset m' k"
  shows "read_latest_committed k j m = read_latest_committed k j m'"
proof (rule option.expand)
  have eq: "read_latest_committed k j m = Some x \<longleftrightarrow> read_latest_committed k j m' = Some x" for x
    using same latest_committed_iff [OF assms(1,3)] latest_committed_iff [OF assms(2,4)] by auto
  show "(read_latest_committed k j m = None) = (read_latest_committed k j m' = None)"
    using eq by (metis option.exhaust)
  show "the (read_latest_committed k j m) = the (read_latest_committed k j m')"
    if "read_latest_committed k j m \<noteq> None"
    using that eq by (metis option.collapse option.sel)
qed

text \<open>An execution that reads a key it has written does not validate: its own version is not one of an earlier transaction.\<close>

lemma own_read_never_validates:
  assumes "List.find (\<lambda>v. vr_tx v = tv) (rev (versions_of m k)) = Some v"
  shows "\<not> validate_reads tv (snd (read_at_version tv k m))"
proof -
  have "vr_tx v = tv" using find_Some_iff_set [OF assms] by simp
  moreover have "map_option vr_tx (committed_before (tv_index tv) vs) \<noteq> Some tv" for vs
    by (auto simp: committed_before_def dest: find_Some_iff_set)
  moreover have "hm_get (mv_speculative (snd (read_at_version tv k m))) tv
      = Some ((spec_of m tv)\<lparr>sp_reads := sp_reads (spec_of m tv) @ [\<lparr>rr_key = k, rr_observed = Some (vr_tx v)\<rparr>]\<rparr>)"
    using assms by (simp add: read_at_version_def Let_def observed_version_def)
  ultimately show ?thesis
    by (simp add: validate_reads_def)
qed

end
