(* ===== verification/ParallelExec.thy ===== *)
theory ParallelExec
  imports Transactions MvMemory
begin

text \<open>
  The parallel block executor (\<open>execution/parallel/executor.rs\<close>): rounds of optimistic execution over the
  multi-version memory, conflict detection and resolution, the ordered commit queue, the serial fallback and the
  serial mode of the pipeline. The closure that executes one transaction is a parameter. Caches, pools,
  prefetching and metrics do not touch the results and are left out; the comparison of the conflict rate with
  the configured threshold, a floating-point quotient, is a predicate on the two counts.
\<close>

section \<open>Data\<close>

record task =
  pt_index :: nat
  pt_bytes :: bytes
  pt_hash :: hash32
  pt_gas_limit :: u64

record tx_output =
  to_index :: nat
  to_hash :: hash32
  to_gas_limit :: u64
  to_gas_used :: u64
  to_success :: bool
  to_revert_reason :: "string option"
  to_write_set :: "(bytes \<times> bytes) list"
  to_read_set :: "bytes list"
  to_events :: "bytes list"
  to_return_data :: bytes
  to_execution_status :: bool

record rw_set =
  rw_reads :: "bytes list"
  rw_writes :: "bytes list"

record outcome =
  ox_index :: nat
  ox_snapshot :: "nat option"
  ox_success :: bool
  ox_gas_used :: u64
  ox_output :: bytes
  ox_rw_set :: rw_set
  ox_receipt :: receipt
  ox_writes :: "(bytes, bytes) hashmap"
  ox_error :: "string option"
  ox_had_conflict :: bool
  ox_retry_round :: nat
  ox_version :: "tx_version option"

record cached_exec =
  ce_task :: task
  ce_output :: tx_output
  ce_version :: tx_version

datatype conflict_kind = Raw | Waw | RawAndWaw

record conflict_detail =
  cd_winner :: nat
  cd_loser :: nat
  cd_kind :: conflict_kind
  cd_keys :: "bytes list"

datatype conflict_policy = AbortLoser | RetryAll | PriorityByIndex

datatype conflict_resolution = ResAborted nat nat | ResRetained nat

record batch_result =
  br_results :: "outcome list"
  br_receipts :: "receipt list"
  br_gas_used :: u64
  br_conflicts :: nat
  br_rounds :: nat

section \<open>Conflicts\<close>

definition rw_of :: "tx_output \<Rightarrow> rw_set" where
  "rw_of out = \<lparr>rw_reads = to_read_set out, rw_writes = map fst (to_write_set out)\<rparr>"

definition common_keys :: "bytes list \<Rightarrow> bytes list \<Rightarrow> bytes list" where
  "common_keys xs ys = remdups (filter (\<lambda>k. k \<in> set ys) xs)"

definition conflict_of :: "nat \<times> rw_set \<Rightarrow> nat \<times> rw_set \<Rightarrow> conflict_detail option" where
  "conflict_of a b =
     (let raw = remdups (common_keys (rw_writes (snd a)) (rw_reads (snd b)) @ common_keys (rw_reads (snd a)) (rw_writes (snd b)));
          waw = common_keys (rw_writes (snd a)) (rw_writes (snd b))
      in if raw = [] \<and> waw = [] then None
         else Some \<lparr>cd_winner = (if fst a < fst b then fst a else fst b),
                    cd_loser = (if fst a < fst b then fst b else fst a),
                    cd_kind = (if waw = [] then Raw else if raw = [] then Waw else RawAndWaw),
                    cd_keys = sort (remdups (raw @ waw))\<rparr>)"

fun detect_conflicts_detailed :: "(nat \<times> rw_set) list \<Rightarrow> conflict_detail list" where
  "detect_conflicts_detailed [] = []"
| "detect_conflicts_detailed (a # rest) = List.map_filter (conflict_of a) rest @ detect_conflicts_detailed rest"

definition detect_conflicts :: "(nat \<times> rw_set) list \<Rightarrow> nat set" where
  "detect_conflicts ps = set (map cd_loser (detect_conflicts_detailed ps))"

definition abort_of :: "conflict_policy \<Rightarrow> conflict_detail \<Rightarrow> nat list" where
  "abort_of policy d =
     (case policy of
        AbortLoser \<Rightarrow> [cd_loser d]
      | RetryAll \<Rightarrow> [cd_winner d, cd_loser d]
      | PriorityByIndex \<Rightarrow> [if cd_winner d < cd_loser d then cd_loser d else cd_winner d])"

definition resolve_conflicts ::
  "conflict_policy \<Rightarrow> conflict_detail list \<Rightarrow> nat \<Rightarrow> nat set \<times> conflict_resolution list" where
  "resolve_conflicts policy details rnd =
     (let aborts = set (concat (map (abort_of policy) details));
          involved = remdups (concat (map (\<lambda>d. [cd_winner d, cd_loser d]) details))
      in (aborts, map (\<lambda>i. if i \<in> aborts then ResAborted i rnd else ResRetained i) involved))"

section \<open>The ordered commit queue\<close>

record commit_queue =
  cq_next :: nat
  cq_pending :: "(nat, outcome) hashmap"
  cq_committed :: "outcome list"

definition cq_new :: "nat \<Rightarrow> commit_queue" where
  "cq_new start = \<lparr>cq_next = start, cq_pending = [], cq_committed = []\<rparr>"

lemma length_remove: "hm_get m k = Some x \<Longrightarrow> length (hm_remove k m) < length m"
  by (induction m) (auto simp: AList.delete_eq le_imp_less_Suc split: if_splits)

function cq_advance :: "commit_queue \<Rightarrow> commit_queue" where
  "cq_advance q =
     (case hm_get (cq_pending q) (cq_next q) of
        None \<Rightarrow> q
      | Some x \<Rightarrow> cq_advance (q\<lparr>cq_next := cq_next q + 1, cq_pending := hm_remove (cq_next q) (cq_pending q),
                              cq_committed := cq_committed q @ [x]\<rparr>))"
  by pat_completeness auto

termination
  by (relation "measure (\<lambda>q. length (cq_pending q))") (simp_all add: length_remove)

declare cq_advance.simps [simp del]

definition cq_enqueue :: "outcome \<Rightarrow> commit_queue \<Rightarrow> commit_queue" where
  "cq_enqueue x q = cq_advance (q\<lparr>cq_pending := hm_insert (ox_index x) x (cq_pending q)\<rparr>)"

definition drain_ordered :: "commit_queue \<Rightarrow> outcome list \<times> commit_queue" where
  "drain_ordered q = (cq_committed q, q\<lparr>cq_committed := []\<rparr>)"

definition cq_pending_count :: "commit_queue \<Rightarrow> nat" where
  "cq_pending_count q = length (cq_pending q)"

definition cq_committed_count :: "commit_queue \<Rightarrow> nat" where
  "cq_committed_count q = cq_next q"

definition cq_is_complete :: "nat \<Rightarrow> commit_queue \<Rightarrow> bool" where
  "cq_is_complete n q = (n \<le> cq_next q \<and> cq_committed q = [])"

section \<open>Outcomes\<close>

definition collect_writes :: "(bytes \<times> bytes) list \<Rightarrow> (bytes, bytes) hashmap" where
  "collect_writes ws = fold (\<lambda>(k, v). hm_insert k v) ws []"

text \<open>\<open>dec\<close> decodes a log.\<close>

definition raw_to_outcome :: "(bytes \<Rightarrow> log option) \<Rightarrow> tx_output \<Rightarrow> tx_version option \<Rightarrow> nat \<Rightarrow> outcome" where
  "raw_to_outcome dec out tv rnd =
     \<lparr>ox_index = to_index out,
      ox_snapshot = map_option tv_index tv,
      ox_success = to_execution_status out,
      ox_gas_used = to_gas_used out,
      ox_output = to_return_data out,
      ox_rw_set = rw_of out,
      ox_receipt = (if to_execution_status out then new_success (to_hash out) (to_gas_used out) None
                    else new_failure (to_hash out) (to_gas_used out))\<lparr>rc_logs := List.map_filter dec (to_events out)\<rparr>,
      ox_writes = collect_writes (to_write_set out),
      ox_error = to_revert_reason out,
      ox_had_conflict = (0 < rnd),
      ox_retry_round = rnd,
      ox_version = tv\<rparr>"

definition ox_is_success :: "outcome \<Rightarrow> bool" where
  "ox_is_success x = (ox_success x \<and> ox_error x = None)"

definition collect_receipts :: "outcome list \<Rightarrow> receipt list \<times> u64" where
  "collect_receipts os = (map ox_receipt os, fold (\<lambda>x g. sat_add g (ox_gas_used x)) os 0)"

text \<open>
  The write batches: entries are staged and applied to the state whenever the batch is full. The result is the
  sequence of writes that reaches the state. The writes of one outcome have distinct keys; the order in which the
  code iterates over them is taken to be the order of insertion, which the state does not depend on.
\<close>

record write_batch =
  wb_entries :: "(bytes \<times> bytes) list"
  wb_capacity :: nat

definition wb_push :: "bytes \<times> bytes \<Rightarrow> write_batch \<Rightarrow> write_batch" where
  "wb_push kv b = b\<lparr>wb_entries := wb_entries b @ [kv]\<rparr>"

definition wb_is_full :: "write_batch \<Rightarrow> bool" where
  "wb_is_full b = (wb_capacity b \<le> length (wb_entries b))"

definition wb_flush :: "write_batch \<times> (bytes \<times> bytes) list \<Rightarrow> write_batch \<times> (bytes \<times> bytes) list" where
  "wb_flush p = ((fst p)\<lparr>wb_entries := []\<rparr>, snd p @ wb_entries (fst p))"

definition finalize_step :: "bytes \<times> bytes \<Rightarrow> write_batch \<times> (bytes \<times> bytes) list \<Rightarrow> write_batch \<times> (bytes \<times> bytes) list" where
  "finalize_step kv p = (let p' = (wb_push kv (fst p), snd p) in if wb_is_full (fst p') then wb_flush p' else p')"

definition finalize :: "outcome list \<Rightarrow> nat \<Rightarrow> (bytes \<times> bytes) list" where
  "finalize os batch_size =
     (let p = fold finalize_step (concat (map ox_writes os)) (\<lparr>wb_entries = [], wb_capacity = batch_size\<rparr>, [])
      in snd (if wb_entries (fst p) \<noteq> [] then wb_flush p else p))"

section \<open>Execution\<close>

type_synonym tx_exec = "task \<Rightarrow> nat \<Rightarrow> mv_memory \<Rightarrow> tx_output \<times> mv_memory"

text \<open>After the closure returns, its reads and writes are mirrored into the memory under the version of this execution.\<close>

definition mirror_reads :: "tx_version \<Rightarrow> tx_output \<Rightarrow> mv_memory \<Rightarrow> mv_memory" where
  "mirror_reads tv out m = fold (\<lambda>k m. snd (read_at_version tv k m)) (to_read_set out) m"

definition mirror_writes :: "tx_version \<Rightarrow> tx_output \<Rightarrow> mv_memory \<Rightarrow> mv_memory" where
  "mirror_writes tv out m = fold (\<lambda>(k, v). record_speculative_write tv k v) (to_write_set out) m"

definition run_task :: "tx_exec \<Rightarrow> tx_version \<Rightarrow> task \<Rightarrow> mv_memory \<Rightarrow> tx_output \<times> mv_memory" where
  "run_task f tv t m =
     (case f t (tv_incarnation tv) m of
        (out, m1) \<Rightarrow> (out, mirror_writes tv out (mirror_reads tv out m1)))"

text \<open>
  The threads of a batch get to the tasks in some order \<open>sched\<close>. Each task runs on the memory the others
  have left; what it can see there is the same in every order.
\<close>

definition execute_batch ::
  "(task list \<Rightarrow> task list) \<Rightarrow> tx_exec \<Rightarrow> (nat, nat) hashmap \<Rightarrow> task list \<Rightarrow> mv_memory \<Rightarrow> cached_exec list \<times> mv_memory" where
  "execute_batch sched f retries ts m =
     fold (\<lambda>t (es, m).
        let tv = \<lparr>tv_index = pt_index t, tv_incarnation = (case hm_get retries (pt_index t) of Some n \<Rightarrow> n | None \<Rightarrow> 0)\<rparr>
        in case run_task f tv t m of (out, m') \<Rightarrow> (es @ [\<lparr>ce_task = t, ce_output = out, ce_version = tv\<rparr>], m'))
       (sched ts) ([], m)"

record occ_state =
  oc_pending :: "task list"
  oc_committed :: "outcome list"
  oc_conflicts :: nat
  oc_rounds :: nat
  oc_memory :: mv_memory
  oc_cached :: "(nat, cached_exec) hashmap"
  oc_retries :: "(nat, nat) hashmap"
  oc_queue :: commit_queue

record occ_config =
  cf_max_rounds :: nat
  cf_exceeds :: "nat \<Rightarrow> nat \<Rightarrow> bool"
  cf_policy :: conflict_policy
  cf_batch_size :: nat

record settle_state =
  st_next :: "task list"
  st_keys :: "bytes set"
  st_memory :: mv_memory
  st_cached :: "(nat, cached_exec) hashmap"
  st_retries :: "(nat, nat) hashmap"
  st_queue :: commit_queue

text \<open>One execution of a round is committed or rolled back.\<close>

definition settle ::
  "(bytes \<Rightarrow> log option) \<Rightarrow> task list \<Rightarrow> nat set \<Rightarrow> nat \<Rightarrow> cached_exec \<Rightarrow> settle_state \<Rightarrow> settle_state" where
  "settle dec pending conflicts rounds e s =
     (let out = ce_output e; i = to_index out; ks = map fst (to_write_set out);
          intersects = list_ex (\<lambda>k. k \<in> st_keys s) (to_read_set out @ ks)
      in if \<not> to_execution_status out \<or> i \<in> conflicts \<or> intersects \<or> \<not> validate_reads (ce_version e) (st_memory s)
         then s\<lparr>st_memory := discard_speculative (ce_version e) (st_memory s),
                st_cached := hm_remove i (st_cached s),
                st_retries := hm_insert i (case hm_get (st_retries s) i of Some n \<Rightarrow> n + 1 | None \<Rightarrow> 1) (st_retries s),
                st_next := st_next s @ (case List.find (\<lambda>t. pt_index t = i) pending of Some t \<Rightarrow> [t] | None \<Rightarrow> [])\<rparr>
         else s\<lparr>st_memory := snd (promote_to_committed (ce_version e) (st_memory s)),
                st_keys := st_keys s \<union> set ks,
                st_cached := hm_insert i e (st_cached s),
                st_queue := cq_enqueue (raw_to_outcome dec out (Some (ce_version e)) (rounds - 1)) (st_queue s)\<rparr>)"

text \<open>A round; the flag says that the conflict rate was too high and the loop is left.\<close>

definition occ_round ::
  "occ_config \<Rightarrow> (bytes \<Rightarrow> log option) \<Rightarrow> (task list \<Rightarrow> task list) \<Rightarrow> tx_exec \<Rightarrow> occ_state \<Rightarrow> bool \<times> occ_state" where
  "occ_round cf dec sched f s =
     (let rounds = oc_rounds s + 1;
          pending = sort_key pt_index (oc_pending s);
          fresh = filter (\<lambda>t. hm_get (oc_cached s) (pt_index t) = None) pending;
          cached = List.map_filter (\<lambda>t. hm_get (oc_cached s) (pt_index t)) pending;
          b = execute_batch sched f (oc_retries s) fresh (oc_memory s);
          es = sort_key (\<lambda>e. pt_index (ce_task e)) (fst b @ cached);
          details = detect_conflicts_detailed (map (\<lambda>e. (to_index (ce_output e), rw_of (ce_output e))) es);
          conflicts = fst (resolve_conflicts (cf_policy cf) details rounds);
          s1 = s\<lparr>oc_pending := pending, oc_rounds := rounds, oc_memory := snd b, oc_conflicts := oc_conflicts s + card conflicts\<rparr>
      in if 0 < card conflicts \<and> cf_exceeds cf (card conflicts) (length pending) then (True, s1)
         else
           (let t = fold (settle dec pending conflicts rounds) es
                  \<lparr>st_next = [], st_keys = {}, st_memory = snd b, st_cached = oc_cached s, st_retries = oc_retries s, st_queue = oc_queue s\<rparr>;
                d = drain_ordered (st_queue t)
            in (False, s1\<lparr>oc_pending := st_next t, oc_committed := oc_committed s @ fst d, oc_memory := st_memory t,
                          oc_cached := st_cached t, oc_retries := st_retries t, oc_queue := snd d\<rparr>)))"

lemma occ_round_rounds: "oc_rounds (snd (occ_round cf dec sched f s)) = oc_rounds s + 1"
  by (simp add: occ_round_def Let_def)

text \<open>The rounds run until nothing is pending, the round limit is reached or the conflict rate is too high.\<close>

function occ_loop ::
  "occ_config \<Rightarrow> (bytes \<Rightarrow> log option) \<Rightarrow> (task list \<Rightarrow> task list) \<Rightarrow> tx_exec \<Rightarrow> occ_state \<Rightarrow> occ_state" where
  "occ_loop cf dec sched f s =
     (if oc_pending s \<noteq> [] \<and> oc_rounds s < cf_max_rounds cf then
        (case occ_round cf dec sched f s of
           (True, s') \<Rightarrow> s'
         | (False, s') \<Rightarrow> occ_loop cf dec sched f s')
      else s)"
  by pat_completeness auto

termination
proof (relation "measure (\<lambda>(cf, dec, sched, f, s). cf_max_rounds cf - oc_rounds s)", goal_cases)
  case (2 cf dec sched f s b s')
  then show ?case
    using occ_round_rounds [of cf dec sched f s] by (metis (no_types, lifting) case_prod_conv diff_less_mono2 in_measure less_add_one snd_conv)
qed simp

declare occ_loop.simps [simp del]

definition fallback_step :: "(bytes \<Rightarrow> log option) \<Rightarrow> tx_exec \<Rightarrow> nat \<Rightarrow> task \<Rightarrow> outcome list \<times> mv_memory \<Rightarrow> outcome list \<times> mv_memory" where
  "fallback_step dec f rounds t p =
     (let tv = \<lparr>tv_index = pt_index t, tv_incarnation = rounds + 1\<rparr>
      in case run_task f tv t (snd p) of
           (out, m') \<Rightarrow> (fst p @ [raw_to_outcome dec out (Some tv) rounds], snd (promote_to_committed tv m')))"

definition occ_start :: "task list \<Rightarrow> occ_state" where
  "occ_start ts =
     \<lparr>oc_pending = ts, oc_committed = [], oc_conflicts = 0, oc_rounds = 0, oc_memory = mv_new, oc_cached = [], oc_retries = [],
      oc_queue = cq_new (case map pt_index ts of [] \<Rightarrow> 0 | i # is \<Rightarrow> fold min is i)\<rparr>"

text \<open>The result and the sequence of writes that reaches the state.\<close>

definition execute_block_occ ::
  "occ_config \<Rightarrow> (bytes \<Rightarrow> log option) \<Rightarrow> (task list \<Rightarrow> task list) \<Rightarrow> tx_exec \<Rightarrow> task list \<Rightarrow> batch_result \<times> (bytes \<times> bytes) list" where
  "execute_block_occ cf dec sched f ts =
     (if ts = [] then (\<lparr>br_results = [], br_receipts = [], br_gas_used = 0, br_conflicts = 0, br_rounds = 0\<rparr>, [])
      else
        (let s = occ_loop cf dec sched f (occ_start ts);
             p = fold (fallback_step dec f (oc_rounds s)) (oc_pending s) (oc_committed s, oc_memory s);
             committed = sort_key ox_index (fst p)
         in (\<lparr>br_results = committed, br_receipts = fst (collect_receipts committed), br_gas_used = snd (collect_receipts committed),
              br_conflicts = oc_conflicts s, br_rounds = oc_rounds s\<rparr>, finalize committed (cf_batch_size cf))))"

section \<open>Serial mode\<close>

definition serial_step :: "(bytes \<Rightarrow> log option) \<Rightarrow> tx_exec \<Rightarrow> task \<Rightarrow> outcome list \<times> mv_memory \<Rightarrow> outcome list \<times> mv_memory" where
  "serial_step dec f t p =
     (let tv = tv_new (pt_index t)
      in case run_task f tv t (snd p) of
           (out, m') \<Rightarrow> (fst p @ [raw_to_outcome dec out (Some tv) 0], snd (promote_to_committed tv m')))"

definition serial_execute :: "(bytes \<Rightarrow> log option) \<Rightarrow> tx_exec \<Rightarrow> task list \<Rightarrow> outcome list" where
  "serial_execute dec f ts = fst (fold (serial_step dec f) ts ([], mv_new))"

end
