(* ===== verification/ParallelSerial.thy ===== *)
theory ParallelSerial
  imports ParallelExec
begin

text \<open>
  Parallel against serial execution (\<open>execution/parallel/executor.rs\<close>): when the rounds settle a block without
  the serial fallback, the results, receipts and writes are those of the serial mode.
\<close>

section \<open>The closure\<close>







section \<open>One task\<close>








section \<open>One batch\<close>










section \<open>Conflicts of a round\<close>




section \<open>Settling a round\<close>







section \<open>Serial execution\<close>









section \<open>The commit queue\<close>







section \<open>Rounds\<close>














section \<open>The loop\<close>








section \<open>The result of a block\<close>







definition plain_task :: "nat \<Rightarrow> task" where
  "plain_task i = \<lparr>pt_index = i, pt_bytes = [], pt_hash = 0, pt_gas_limit = 100\<rparr>"

definition small_config :: occ_config where
  "small_config = \<lparr>cf_max_rounds = 8, cf_exceeds = (\<lambda>c n. n < c), cf_policy = PriorityByIndex, cf_batch_size = 2\<rparr>"




section \<open>Where the two modes differ\<close>

text \<open>
  Left to the serial fallback, a block loses outcomes: transaction 0 fails in every round, transaction 1 succeeds
  in the first one and waits in the queue for its predecessor, which the fallback reports without the queue. The
  result has transaction 0 alone, the serial mode both.
\<close>

definition first_fails_tx :: tx_exec where
  "first_fails_tx t n m =
     (\<lparr>to_index = pt_index t, to_hash = pt_hash t, to_gas_limit = pt_gas_limit t, to_gas_used = 21, to_success = pt_index t \<noteq> 0,
       to_revert_reason = None, to_write_set = (if pt_index t = 0 then [] else [([7], [1])]), to_read_set = [],
       to_events = [], to_return_data = [], to_execution_status = pt_index t \<noteq> 0\<rparr>, m)"

lemma fallback_loses_outcomes:
  "map ox_index (br_results (fst (execute_block_occ small_config (\<lambda>_. None) id first_fails_tx (map plain_task [0..<2])))) = [0]
   \<and> snd (execute_block_occ small_config (\<lambda>_. None) id first_fails_tx (map plain_task [0..<2])) = []
   \<and> map ox_index (serial_execute (\<lambda>_. None) first_fails_tx (map plain_task [0..<2])) = [0, 1]
   \<and> concat (map ox_writes (serial_execute (\<lambda>_. None) first_fails_tx (map plain_task [0..<2]))) = [([7], [1])]"
  by (intro conjI; code_simp)

text \<open>
  Without stable key sets a transaction that failed for want of its predecessor, and reported no keys, is
  overtaken by a later one that it conflicts with: the last write to key 2 is 2 in the parallel mode and 3 in the
  serial one.
\<close>

definition needs_first_tx :: tx_exec where
  "needs_first_tx t n m =
     (let tv = \<lparr>tv_index = pt_index t, tv_incarnation = n\<rparr>;
          out = (\<lambda>ok rs ws. \<lparr>to_index = pt_index t, to_hash = pt_hash t, to_gas_limit = pt_gas_limit t, to_gas_used = 21, to_success = ok,
            to_revert_reason = None, to_write_set = ws, to_read_set = rs, to_events = [], to_return_data = [], to_execution_status = ok\<rparr>);
          incr = (\<lambda>v. [case v of Some (x # _) \<Rightarrow> x + 1 | _ \<Rightarrow> 1])
      in if pt_index t = 0 then (out True [] [([0], [1])], m)
         else if pt_index t = 1 then
           (case read_at_version tv [0] m of
              (None, m1) \<Rightarrow> (out False [] [], m1)
            | (Some _, m1) \<Rightarrow> (case read_at_version tv [2] m1 of (v, m2) \<Rightarrow> (out True [[0], [2]] [([2], incr v)], m2)))
         else (case read_at_version tv [2] m of (v, m1) \<Rightarrow> (out True [[2]] [([2], incr (Some (incr v)))], m1)))"

lemma overtaken_after_failure:
  "snd (execute_block_occ small_config (\<lambda>_. None) id needs_first_tx (map plain_task [0..<3])) = [([0], [1]), ([2], [1]), ([2], [2])]
   \<and> concat (map ox_writes (serial_execute (\<lambda>_. None) needs_first_tx (map plain_task [0..<3]))) = [([0], [1]), ([2], [1]), ([2], [3])]"
  by (intro conjI; code_simp)

end
