(* ===== verification/ParallelProgress.thy ===== *)
theory ParallelProgress
  imports ParallelSerial
begin

text \<open>
  Progress of the parallel executor: every round settles the first pending transaction, so a block needs no more
  rounds than it has transactions.
\<close>

section \<open>Reads stay valid within a batch\<close>




















section \<open>The first pending task commits\<close>




section \<open>Settling\<close>





section \<open>Rounds\<close>





section \<open>Enough rounds\<close>




end
