(* ===== verification/Spec2Isabelle.thy ===== *)
theory Spec2Isabelle
  imports Vesting HotStuff Pacemaker BlockStore StakingRuns ParallelProgress
begin

text \<open>
  A verification library for the sxiaum node, a proof-of-stake blockchain node in Rust (the crates under
  \<open>src/crates\<close>). The node executes Ethereum-style transactions, orders them in blocks, agrees on blocks with
  a three-phase HotStuff protocol among staked validators, and keeps blocks and state in an embedded
  key-value store. The library models the parts of the node that decide safety: what a block commits
  to, when it is final, who may vote, and what the store keeps.

  \<^bold>\<open>Conventions.\<close> A machine integer is a word of its width; \<open>[u8; 32]\<close> is a \<open>256 word\<close>; byte strings are
  lists of bytes; \<open>Result\<close> is \<open>result\<close> with the error as a value and \<open>then_ok\<close> for the operator \<open>?\<close>; a panic is
  \<open>None\<close>; a \<open>HashMap\<close> that is iterated is an association list in any order, a table or \<open>BTreeMap\<close> a list sorted by
  key. Code outside \<open>src\<close> is a parameter: \<open>crypto\<close> (SHA-256, Keccak, Ed25519, BLS), \<open>tx_env\<close>, \<open>block_env\<close> and
  \<open>block_codec\<close> (serialisation), \<open>lru\<close> (the cache crate); the embedded database is the outcome of each
  transaction. Clocks are arguments.

  \<^bold>\<open>Theories.\<close>
  \<^item> \<open>Prelude\<close>: words with checked, saturating and wrapping operations, byte encodings, results, hash maps.
  \<^item> \<open>Vesting\<close> (\<open>types/vesting.rs\<close>): schedules and releases; the vested amount is exact and monotone although
    the code divides 256-bit products, and releases are conserved.
  \<^item> \<open>Validator\<close> and \<open>ValidatorSet\<close> (\<open>types/validator.rs\<close>, \<open>consensus/pos/validator_set.rs\<close>): registration,
    slashing, jailing, leader election; the invariant of reachable sets, independence of the hash-map order,
    proportional election.
  \<^item> \<open>Votes\<close> (\<open>consensus/hotstuff/vote.rs\<close>): votes, certificates, the collector; two accepted certificates
    intersect in a third of the power, each validator counts once, certificates built from verified votes
    are accepted.
  \<^item> \<open>Transactions\<close> (\<open>types/transaction.rs\<close>): transactions, receipts and bloom filters.
  \<^item> \<open>MerkleTrees\<close> (\<open>block/merkle.rs\<close>, \<open>crypto/merkle.rs\<close>): the two tree constructions, their proofs, and
    binding of the tagged one.
  \<^item> \<open>Block\<close> (the crate \<open>block\<close>): headers, bodies, blocks, the builder; what an accepted block guarantees and
    what its hash commits to.
  \<^item> \<open>HotStuff\<close> and \<open>Pacemaker\<close> (\<open>consensus/hotstuff\<close>): the commit rule, the lock, pruning, views and
    timeouts; conflicting finality needs a third of the power.
  \<^item> \<open>OrderedMap\<close>, \<open>StateStore\<close>, \<open>BlockStore\<close> (the crate \<open>storage\<close>): sorted tables and prefix ranges; the state
    table with its read cache and write buffer, refining a map with a queue, and the in-memory backend, both
    instances of the locale \<open>state_backend\<close>; the canonical chain with roll-back, finality and pruning, through
    the locale \<open>height_removal\<close>.
  \<^item> \<open>Staking\<close> and \<open>StakingRuns\<close> (\<open>consensus/pos/staking.rs\<close>, \<open>consensus/pos/uptime.rs\<close>): deposits,
    delegations, the lock-up, slashing, rewards and epochs, the rows in which they are persisted in the state
    table, and the restart that reads them back. The locale \<open>row_family\<close> states what makes the rows of one
    map recoverable; stakes and delegations are its two instances. Restarts are invisible and the lock-up
    holds across them.
  \<^item> \<open>MvMemory\<close> and \<open>ParallelExec\<close> (\<open>execution/parallel/mv_memory.rs\<close>, \<open>execution/parallel/executor.rs\<close>): the
    multi-version memory and the optimistic rounds of the block executor. \<open>ParallelSerial\<close> shows that the
    results are those of the serial mode when the rounds settle the block, and where the two modes differ;
    \<open>ParallelProgress\<close> shows that enough rounds settle it.

  \<^bold>\<open>How the parts interact.\<close> Blocks (\<open>Block\<close>) carry transactions and receipts (\<open>Transactions\<close>) under Merkle
  roots (\<open>MerkleTrees\<close>). Consensus (\<open>HotStuff\<close>) finalises block hashes with certificates (\<open>Votes\<close>) over
  the powers of a validator set (\<open>ValidatorSet\<close>), which staking (\<open>Staking\<close>) funds. \<open>BlockStore\<close> stores the
  blocks that pass the checks of \<open>Block\<close>; \<open>StateStore\<close> holds the state rows, those of \<open>Staking\<close> among them.
  The executor (\<open>ParallelExec\<close>) turns the transactions of a block into receipts and writes.

  \<^bold>\<open>Loops and bounds.\<close> Every definition is total. The loops of the code that are not over a list are
  functions with a termination proof: the layers of a Merkle tree by their length, the drain of the commit queue by
  the number of waiting outcomes, the optimistic rounds by the rounds left. The walk up the ancestors in
  \<open>HotStuff\<close> has the limit of the code. No theorem assumes that a loop returns. Counters of type \<open>usize\<close> are
  natural numbers where memory bounds them; heights, epochs, amounts and gas keep their width, and the theorems name the
  bound wherever a sum could wrap.

  \<^bold>\<open>Not modelled.\<close>
  \<^item> Cryptographic primitives (\<open>crypto/ed25519.rs\<close>, \<open>crypto/bls.rs\<close>, \<open>crypto/kzg.rs\<close>, \<open>crypto/hash.rs\<close>, the crate \<open>zk\<close>):
    field and curve arithmetic of external crates. They are parameters, with the properties they are used for.
  \<^item> The EVM (\<open>execution/evm_runtime.rs\<close>, \<open>execution/executor.rs\<close>): an external interpreter drives them; the
    closure that executes one transaction is a parameter of the parallel executor.
  \<^item> The Verkle state (the crate \<open>state\<close>): its commitments are polynomial commitments of the proof library.
  \<^item> The scheduler, the dependency graph and the commit manager next to the parallel executor
    (\<open>execution/parallel/scheduler.rs\<close>, \<open>dependency.rs\<close>, \<open>commit.rs\<close>) and the gas tables (\<open>execution/gas.rs\<close>).
  \<^item> The consensus driver (\<open>consensus/lib.rs\<close>, \<open>consensus_state.rs\<close>, \<open>hotstuff/proposer.rs\<close>), slashing evidence, governance,
    upgrades and the fast path: they connect the modelled parts with clocks, channels and the network.
  \<^item> Networking, RPC, the node binary, key storage and the command-line tools: input and output.
\<close>

end
